(* ===== verification/Kernel_Prelude.thy ===== *)
theory Kernel_Prelude
  imports Main "HOL-Library.Word" "HOL-Library.Finite_Map" "HOL-Library.Multiset"
begin

text \<open>
  Shared vocabulary of the development: machine integers, the kernel's error type, the
  total readings of Rust's checked and saturating arithmetic, ordered finite maps
  (\<open>BTreeMap\<close>), newtype identifiers, and the generic locale that lifts a one-operation
  invariant to every run of operations. Every component theory imports this one.
\<close>

unbundle bit_operations_syntax

section \<open>Machine integers and results\<close>

type_synonym u8 = "8 word"
type_synonym u16 = "16 word"
type_synonym u32 = "32 word"
type_synonym u64 = "64 word"
type_synonym bytes = "u8 list"

text \<open>
  \<open>nexacore-kernel/src/lib.rs\<close>, \<open>KernelError\<close> and \<open>KernelResult\<close>: a Rust
  \<open>Result<T, E>\<close> is the sum type with \<open>Inl\<close> for \<open>Err\<close> and \<open>Inr\<close> for \<open>Ok\<close>.
\<close>

datatype kernel_error =
    NotYetImplemented
  | CapabilityDenied
  | ResourceExhausted
  | InvalidArgument
  | Internal

type_synonym 'a kernel_result = "kernel_error + 'a"

text \<open>Rust's \<open>is_ok\<close>, and the \<open>ok_or\<close> that turns an \<open>Option\<close> into a \<open>Result\<close>.\<close>

fun is_ok :: "'e + 'a \<Rightarrow> bool" where
  "is_ok (Inl _) = False"
| "is_ok (Inr _) = True"

fun ok_or :: "'a option \<Rightarrow> 'e \<Rightarrow> 'e + 'a" where
  "ok_or None e = Inl e"
| "ok_or (Some x) e = Inr x"

named_theorems arith_defs \<open>definitions of the Rust integer operations\<close>

definition checked_add :: "'w::len word \<Rightarrow> 'w word \<Rightarrow> 'w word option" where
  [arith_defs]: "checked_add a b =
     (if unat a + unat b < 2 ^ LENGTH('w) then Some (a + b) else None)"

definition checked_mul :: "'w::len word \<Rightarrow> 'w word \<Rightarrow> 'w word option" where
  [arith_defs]: "checked_mul a b =
     (if unat a * unat b < 2 ^ LENGTH('w) then Some (a * b) else None)"

definition saturating_add :: "'w::len word \<Rightarrow> 'w word \<Rightarrow> 'w word" where
  [arith_defs]: "saturating_add a b =
     (if unat a + unat b < 2 ^ LENGTH('w) then a + b else - 1)"

definition saturating_sub :: "'w::len word \<Rightarrow> 'w word \<Rightarrow> 'w word" where
  [arith_defs]: "saturating_sub a b = (if b \<le> a then a - b else 0)"

lemma checked_add_SomeD:
  "checked_add a b = Some c \<Longrightarrow> c = a + b \<and> unat c = unat a + unat b"
  by (auto simp: checked_add_def unat_word_ariths split: if_splits)

lemma checked_add_None_iff:
  fixes a b :: "'w::len word"
  shows "checked_add a b = None \<longleftrightarrow> 2 ^ LENGTH('w) \<le> unat a + unat b"
  by (auto simp: checked_add_def)

lemma unat_saturating_add:
  fixes a b :: "'w::len word"
  shows "unat (saturating_add a b) = min (unat a + unat b) (2 ^ LENGTH('w) - 1)"
  by (auto simp: saturating_add_def unat_word_ariths unsigned_minus_1_eq_mask mask_eq_exp_minus_1)

lemma unat_saturating_sub: "unat (saturating_sub a b) = unat a - unat b"
  by (auto simp: saturating_sub_def unat_sub word_le_nat_alt)

lemma unat_bound: "unat (w :: 'w::len word) < 2 ^ LENGTH('w)"
  by (rule unsigned_less)

lemma unat_of_nat_small: "n < 2 ^ LENGTH('w) \<Longrightarrow> unat (of_nat n :: 'w::len word) = n"
  by (simp add: unat_of_nat)

lemma and_not_mask: "unat (x AND NOT (2 ^ k - 1) :: 'w::len word) = unat x - unat x mod 2 ^ k"
proof -
  have "x AND (2 ^ k - 1) = take_bit k x" by (simp add: take_bit_eq_mask mask_eq_exp_minus_1)
  moreover have "(x AND (2 ^ k - 1)) + (x AND NOT (2 ^ k - 1)) = x"
    by (subst disjunctive_add_eq_or) (auto intro!: bit_word_eqI simp: bit_simps)
  ultimately have eq: "x AND NOT (2 ^ k - 1) = x - take_bit k x" by (metis add_diff_cancel_left')
  have "unat (take_bit k x) = unat x mod 2 ^ k" by (metis unsigned_take_bit_eq take_bit_eq_mod)
  moreover have "take_bit k x \<le> x" using calculation by (simp add: word_le_nat_alt)
  ultimately show ?thesis unfolding eq by (simp add: unat_sub)
qed

lemma checked_succ_None_iff: "checked_add (i :: u64) 1 = None \<longleftrightarrow> i = - 1"
proof -
  have "checked_add i 1 = None \<longleftrightarrow> 2 ^ 64 \<le> unat i + 1" by (simp add: checked_add_None_iff)
  also have "\<dots> \<longleftrightarrow> unat i = 2 ^ 64 - 1" using unat_bound [of i] by auto
  also have "\<dots> \<longleftrightarrow> i = - 1"
    by (simp add: word_unat_eq_iff unsigned_minus_1_eq_mask mask_eq_exp_minus_1)
  finally show ?thesis .
qed

section \<open>Ordered finite maps\<close>

text \<open>
  A \<open>BTreeMap<K, V>\<close> is a finite map: \<open>get\<close>, \<open>insert\<close> and \<open>remove\<close> are
  \<^const>\<open>fmlookup\<close>, \<^const>\<open>fmupd\<close> and \<^const>\<open>fmdrop\<close>. Its length and its iteration in
  ascending key order are the following.
\<close>

definition fm_len :: "('k, 'v) fmap \<Rightarrow> nat" where
  "fm_len m = fcard (fmdom m)"

definition fm_iter :: "('k::linorder, 'v) fmap \<Rightarrow> ('k \<times> 'v) list" where
  "fm_iter m = map (\<lambda>k. (k, the (fmlookup m k))) (sorted_list_of_fset (fmdom m))"

definition fm_count :: "('v \<Rightarrow> bool) \<Rightarrow> ('k, 'v) fmap \<Rightarrow> nat" where
  "fm_count P m = fcard (ffilter (\<lambda>k. P (the (fmlookup m k))) (fmdom m))"

lemma fm_len_empty [simp]: "fm_len fmempty = 0"
  by (simp add: fm_len_def)

lemma fm_len_upd:
  "fm_len (fmupd k v m) = (if fmlookup m k = None then Suc (fm_len m) else fm_len m)"
  by (auto simp: fm_len_def fcard_finsert_if fmlookup_dom_iff)

lemma fm_len_drop_le: "fm_len (fmdrop k m) \<le> fm_len m"
  by (simp add: fm_len_def fcard_fminus1_le)

lemma fm_count_empty [simp]: "fm_count P fmempty = 0"
  by (auto simp: fm_count_def)

lemma fm_count_fset:
  "fm_count P m = card {k. \<exists>v. fmlookup m k = Some v \<and> P v}"
proof -
  have "fset (ffilter (\<lambda>k. P (the (fmlookup m k))) (fmdom m)) =
      {k. \<exists>v. fmlookup m k = Some v \<and> P v}"
    by (auto simp: fmlookup_dom_iff)
  then show ?thesis by (simp add: fm_count_def fcard.rep_eq)
qed

lemma finite_fm_sel: "finite {k. \<exists>v. fmlookup m k = Some v \<and> P v}"
  by (rule finite_subset [of _ "fmdom' m"]) (auto intro: fmdom'I)

lemma fm_count_upd_fresh:
  assumes "fmlookup m k = None"
  shows "fm_count P (fmupd k v m) = (if P v then Suc (fm_count P m) else fm_count P m)"
proof -
  let ?S = "{k. \<exists>v. fmlookup m k = Some v \<and> P v}"
  have "{j. \<exists>w. fmlookup (fmupd k v m) j = Some w \<and> P w} = (if P v then insert k ?S else ?S)"
    using assms by auto
  moreover have "k \<notin> ?S" using assms by simp
  ultimately show ?thesis
    unfolding fm_count_fset by (simp add: finite_fm_sel)
qed

lemma fm_count_upd_same:
  assumes "fmlookup m k = Some w" and "P v = P w"
  shows "fm_count P (fmupd k v m) = fm_count P m"
proof -
  have "{j. \<exists>u. fmlookup (fmupd k v m) j = Some u \<and> P u} =
      {j. \<exists>u. fmlookup m j = Some u \<and> P u}"
    using assms by auto
  then show ?thesis by (simp only: fm_count_fset)
qed

lemma fm_count_upd_le: "fm_count P (fmupd k v m) \<le> Suc (fm_count P m)"
proof -
  let ?S = "{k. \<exists>v. fmlookup m k = Some v \<and> P v}"
  have "{j. \<exists>w. fmlookup (fmupd k v m) j = Some w \<and> P w} \<subseteq> insert k ?S" by auto
  then have "fm_count P (fmupd k v m) \<le> card (insert k ?S)"
    unfolding fm_count_fset by (intro card_mono) (simp_all add: finite_fm_sel)
  also have "\<dots> \<le> Suc (fm_count P m)" unfolding fm_count_fset by (rule card_insert_le_m1) simp_all
  finally show ?thesis .
qed

lemma fm_count_upd_not: "\<not> P v \<Longrightarrow> fm_count P (fmupd k v m) \<le> fm_count P m"
  unfolding fm_count_fset
  by (rule card_mono [OF finite_fm_sel]) (auto split: if_splits)

lemma fm_count_drop_le: "fm_count P (fmdrop k m) \<le> fm_count P m"
  unfolding fm_count_fset
  by (rule card_mono [OF finite_fm_sel]) (auto split: if_splits)

lemma fm_iter_keys: "map fst (fm_iter m) = sorted_list_of_fset (fmdom m)"
  by (simp add: fm_iter_def comp_def)

lemma set_fm_iter: "set (fm_iter m) = {(k, v). fmlookup m k = Some v}"
  by (auto simp: fm_iter_def fmlookup_dom_iff image_iff)

lemma sorted_fm_iter: "sorted (map fst (fm_iter m))" "distinct (map fst (fm_iter m))"
  by (simp_all add: fm_iter_keys sorted_list_of_fset.rep_eq)

section \<open>Identifiers\<close>

text \<open>
  \<open>scheduling.rs\<close>: \<open>TaskId(pub u64)\<close> derives \<open>Ord\<close>; the newtype is a one-constructor
  datatype with the order of the number it wraps.
\<close>

datatype task_id = TaskId (task_raw: u64)

instantiation task_id :: linorder
begin

definition less_eq_task_id :: "task_id \<Rightarrow> task_id \<Rightarrow> bool" where
  "less_eq_task_id a b \<longleftrightarrow> task_raw a \<le> task_raw b"

definition less_task_id :: "task_id \<Rightarrow> task_id \<Rightarrow> bool" where
  "less_task_id a b \<longleftrightarrow> task_raw a < task_raw b"

instance
  by standard
    (auto simp: less_eq_task_id_def less_task_id_def intro: task_id.expand)

end

lemma task_raw_inject [simp]: "task_raw a = task_raw b \<longleftrightarrow> a = b"
  by (auto intro: task_id.expand)

section \<open>Runs of operations\<close>

text \<open>
  Every stateful component is a set of operations on a state. The locale takes the
  function that applies one operation and an invariant it keeps, and gives that every
  run keeps it.
\<close>

locale op_system =
  fixes apply_op :: "'s \<Rightarrow> 'op \<Rightarrow> 's"
    and inv :: "'s \<Rightarrow> bool"
  assumes inv_step: "inv s \<Longrightarrow> inv (apply_op s x)"
begin

lemma inv_run: "inv s \<Longrightarrow> inv (foldl apply_op s xs)"
  by (induction xs arbitrary: s) (auto intro: inv_step)

lemma inv_prefix: "inv s \<Longrightarrow> inv (foldl apply_op s (take n xs))"
  by (rule inv_run)

end

section \<open>Lists\<close>

text \<open>\<open>Iterator::find_map\<close>: the first \<open>Some\<close> a closure returns.\<close>

fun find_map :: "('a \<Rightarrow> 'b option) \<Rightarrow> 'a list \<Rightarrow> 'b option" where
  "find_map f [] = None"
| "find_map f (x # xs) = (case f x of None \<Rightarrow> find_map f xs | Some y \<Rightarrow> Some y)"

lemma find_map_None_iff: "find_map f xs = None \<longleftrightarrow> (\<forall>x \<in> set xs. f x = None)"
  by (induction xs) (auto split: option.splits)

lemma find_map_SomeE:
  assumes "find_map f xs = Some y"
  obtains us x vs where "xs = us @ x # vs" "f x = Some y" "\<forall>u \<in> set us. f u = None"
  using assms
proof (induction xs arbitrary: thesis)
  case (Cons a xs)
  show ?case
  proof (cases "f a")
    case None
    with Cons.prems(2) have "find_map f xs = Some y" by simp
    then obtain us x vs where "xs = us @ x # vs" "f x = Some y" "\<forall>u \<in> set us. f u = None"
      using Cons.IH by blast
    with None show ?thesis by (intro Cons.prems(1) [of "a # us" x vs]) simp_all
  next
    case (Some b)
    with Cons.prems show ?thesis by (intro Cons.prems(1) [of "[]" a xs]) simp_all
  qed
qed simp

text \<open>\<open>Iterator::position\<close>: the index of the first element a closure accepts.\<close>

fun position :: "('a \<Rightarrow> bool) \<Rightarrow> 'a list \<Rightarrow> nat option" where
  "position P [] = None"
| "position P (x # xs) = (if P x then Some 0 else map_option Suc (position P xs))"

text \<open>\<open>str::as_bytes\<close>: a string is the list of its UTF-8 bytes, as characters.\<close>

definition str_bytes :: "string \<Rightarrow> bytes" where
  "str_bytes s = map of_char s"

definition bytes_str :: "bytes \<Rightarrow> string" where
  "bytes_str bs = map (\<lambda>b. char_of (unat b)) bs"

lemma of_char_u8: "(of_char c :: u8) = of_nat (of_char c)"
  by (cases c) (simp only: of_char_Char horner_sum_simps of_nat_add of_nat_mult of_nat_of_bool
      semiring_1_class.of_nat_simps(1) of_nat_numeral)

lemma bytes_str_inverse [simp]: "str_bytes (bytes_str bs) = bs"
proof -
  have "of_char (char_of (unat b)) = b" for b :: u8
  proof -
    have "of_char (char_of (unat b)) = (of_nat (of_char (char_of (unat b))) :: u8)" by (rule of_char_u8)
    also have "\<dots> = of_nat (unat b mod 256)" by (simp only: of_char_of)
    also have "\<dots> = b" using unat_bound [of b] by simp
    finally show ?thesis .
  qed
  then show ?thesis by (simp add: str_bytes_def bytes_str_def comp_def)
qed

lemma str_bytes_inverse [simp]: "bytes_str (str_bytes s) = s"
proof -
  have "unat (of_char c :: u8) = of_char c" for c
  proof -
    have "(of_char c :: nat) < 256" by simp
    then show ?thesis by (simp add: of_char_u8 unat_of_nat)
  qed
  then show ?thesis by (simp add: str_bytes_def bytes_str_def comp_def)
qed

lemma length_str_bytes [simp]: "length (str_bytes s) = length s"
  by (simp add: str_bytes_def)

lemma length_bytes_str [simp]: "length (bytes_str bs) = length bs"
  by (simp add: bytes_str_def)

lemma distinct_snoc_if: "distinct xs \<Longrightarrow> distinct (if x \<in> set xs then xs else xs @ [x])"
  by auto

lemma distinct_tlI: "distinct xs \<Longrightarrow> distinct (tl xs)"
  by (cases xs) auto

end
