(* ===== verification/Pipe.thy ===== *)
theory Pipe
  imports Kernel_Prelude
begin

text \<open>
  Kernel pipes, \<open>nexacore-kernel/src/pipe.rs\<close>: the bounded ring buffer \<open>PipeRing\<close> with its
  two ends and two wait queues, and the \<open>PipeRegistry\<close> that hands out pipe identifiers.
  The buffer \<open>VecDeque<u8>\<close> is the list of bytes not yet read, oldest first. \<open>read\<close> fills a
  caller's buffer in place, so the model takes the buffer and returns it updated.

  Shown here: the byte stream is neither reordered, lost nor duplicated by any run of
  operations, the buffer never exceeds its capacity, every call's behaviour on each branch,
  that closing an end wakes exactly the tasks parked on the other, and that identifiers are
  unique until the 64-bit counter wraps.
\<close>

section \<open>The ring buffer\<close>

datatype pipe_error = BrokenPipe

definition PIPE_CAPACITY :: nat where
  "PIPE_CAPACITY = 65536"

record pipe_ring =
  pr_buffer :: bytes
  pr_capacity :: nat
  pr_write_end_open :: bool
  pr_read_end_open :: bool
  pr_waiters_read :: "task_id list"
  pr_waiters_write :: "task_id list"

definition pipe_ring_new :: pipe_ring where
  "pipe_ring_new = \<lparr>
     pr_buffer = [],
     pr_capacity = PIPE_CAPACITY,
     pr_write_end_open = True,
     pr_read_end_open = True,
     pr_waiters_read = [],
     pr_waiters_write = []\<rparr>"

definition pipe_write :: "pipe_ring \<Rightarrow> bytes \<Rightarrow> (pipe_error + nat) \<times> pipe_ring" where
  "pipe_write r data =
     (if \<not> pr_read_end_open r then (Inl BrokenPipe, r)
      else if data = [] then (Inr 0, r)
      else
        let available = pr_capacity r - length (pr_buffer r) in
        if available = 0 then (Inr 0, r)
        else
          let to_write = min (length data) available in
          (Inr to_write, r\<lparr>pr_buffer := pr_buffer r @ take to_write data\<rparr>))"

definition pipe_read :: "pipe_ring \<Rightarrow> bytes \<Rightarrow> (pipe_error + nat) \<times> bytes \<times> pipe_ring" where
  "pipe_read r buf =
     (if buf = [] \<or> pr_buffer r = [] then (Inr 0, buf, r)
      else
        let to_read = min (length buf) (length (pr_buffer r)) in
        (Inr to_read,
         take to_read (pr_buffer r) @ drop to_read buf,
         r\<lparr>pr_buffer := drop to_read (pr_buffer r)\<rparr>))"

definition drain_read_waiters :: "pipe_ring \<Rightarrow> task_id list \<times> pipe_ring" where
  "drain_read_waiters r = (pr_waiters_read r, r\<lparr>pr_waiters_read := []\<rparr>)"

definition drain_write_waiters :: "pipe_ring \<Rightarrow> task_id list \<times> pipe_ring" where
  "drain_write_waiters r = (pr_waiters_write r, r\<lparr>pr_waiters_write := []\<rparr>)"

definition close_write :: "pipe_ring \<Rightarrow> task_id list \<times> pipe_ring" where
  "close_write r = drain_read_waiters (r\<lparr>pr_write_end_open := False\<rparr>)"

definition close_read :: "pipe_ring \<Rightarrow> task_id list \<times> pipe_ring" where
  "close_read r = drain_write_waiters (r\<lparr>pr_read_end_open := False\<rparr>)"

definition park_reader :: "pipe_ring \<Rightarrow> task_id \<Rightarrow> pipe_ring" where
  "park_reader r t = r\<lparr>pr_waiters_read := pr_waiters_read r @ [t]\<rparr>"

definition park_writer :: "pipe_ring \<Rightarrow> task_id \<Rightarrow> pipe_ring" where
  "park_writer r t = r\<lparr>pr_waiters_write := pr_waiters_write r @ [t]\<rparr>"

definition pipe_is_empty :: "pipe_ring \<Rightarrow> bool" where
  "pipe_is_empty r \<longleftrightarrow> pr_buffer r = []"

definition pipe_is_full :: "pipe_ring \<Rightarrow> bool" where
  "pipe_is_full r \<longleftrightarrow> pr_capacity r \<le> length (pr_buffer r)"

definition pipe_len :: "pipe_ring \<Rightarrow> nat" where
  "pipe_len r = length (pr_buffer r)"

section \<open>The registry\<close>

datatype pipe_id = PipeId (pipe_raw: u64)

record pipe_registry =
  preg_pipes :: "(u64, pipe_ring) fmap"
  preg_next_id :: u64

definition pipe_registry_new :: pipe_registry where
  "pipe_registry_new = \<lparr>preg_pipes = fmempty, preg_next_id = 1\<rparr>"

definition pipe_create :: "pipe_registry \<Rightarrow> pipe_id \<times> pipe_registry" where
  "pipe_create g =
     (let pid = preg_next_id g in
      (PipeId pid,
       g\<lparr>preg_next_id := preg_next_id g + 1,
         preg_pipes := fmupd pid pipe_ring_new (preg_pipes g)\<rparr>))"

definition pipe_get :: "pipe_registry \<Rightarrow> pipe_id \<Rightarrow> pipe_ring option" where
  "pipe_get g i = fmlookup (preg_pipes g) (pipe_raw i)"

text \<open>
  \<open>get_mut\<close> hands out a mutable reference; the caller's use of it is the function that
  updates the ring in place.
\<close>

definition pipe_get_mut :: "pipe_registry \<Rightarrow> pipe_id \<Rightarrow> (pipe_ring \<Rightarrow> pipe_ring) \<Rightarrow> pipe_registry" where
  "pipe_get_mut g i f =
     (case fmlookup (preg_pipes g) (pipe_raw i) of
        None \<Rightarrow> g
      | Some r \<Rightarrow> g\<lparr>preg_pipes := fmupd (pipe_raw i) (f r) (preg_pipes g)\<rparr>)"

definition pipe_remove :: "pipe_registry \<Rightarrow> pipe_id \<Rightarrow> bool \<times> pipe_registry" where
  "pipe_remove g i =
     (fmlookup (preg_pipes g) (pipe_raw i) \<noteq> None,
      g\<lparr>preg_pipes := fmdrop (pipe_raw i) (preg_pipes g)\<rparr>)"

section \<open>Runs of operations on one pipe\<close>

text \<open>
  A pipe's users interleave writes, reads, closes and parks in any order. \<open>pipe_step\<close> runs
  one call and keeps, beside the ring, what the calls themselves report: the bytes every
  \<open>write\<close> said it accepted and the bytes every \<open>read\<close> put into its caller's buffer.
\<close>

datatype pipe_op =
    OpWrite bytes
  | OpRead nat
  | OpCloseWrite
  | OpCloseRead
  | OpParkReader task_id
  | OpParkWriter task_id
  | OpDrainReaders
  | OpDrainWriters

record pipe_trace =
  pt_ring :: pipe_ring
  pt_accepted :: bytes
  pt_delivered :: bytes

fun reported :: "pipe_error + nat \<Rightarrow> nat" where
  "reported (Inl _) = 0"
| "reported (Inr n) = n"

fun pipe_step :: "pipe_trace \<Rightarrow> pipe_op \<Rightarrow> pipe_trace" where
  "pipe_step s (OpWrite data) =
     (case pipe_write (pt_ring s) data of (res, r) \<Rightarrow>
        s\<lparr>pt_ring := r, pt_accepted := pt_accepted s @ take (reported res) data\<rparr>)"
| "pipe_step s (OpRead n) =
     (case pipe_read (pt_ring s) (replicate n 0) of (res, buf, r) \<Rightarrow>
        s\<lparr>pt_ring := r, pt_delivered := pt_delivered s @ take (reported res) buf\<rparr>)"
| "pipe_step s OpCloseWrite = s\<lparr>pt_ring := snd (close_write (pt_ring s))\<rparr>"
| "pipe_step s OpCloseRead = s\<lparr>pt_ring := snd (close_read (pt_ring s))\<rparr>"
| "pipe_step s (OpParkReader t) = s\<lparr>pt_ring := park_reader (pt_ring s) t\<rparr>"
| "pipe_step s (OpParkWriter t) = s\<lparr>pt_ring := park_writer (pt_ring s) t\<rparr>"
| "pipe_step s OpDrainReaders = s\<lparr>pt_ring := snd (drain_read_waiters (pt_ring s))\<rparr>"
| "pipe_step s OpDrainWriters = s\<lparr>pt_ring := snd (drain_write_waiters (pt_ring s))\<rparr>"

definition pipe_start :: pipe_trace where
  "pipe_start = \<lparr>pt_ring = pipe_ring_new, pt_accepted = [], pt_delivered = []\<rparr>"

definition pipe_run :: "pipe_op list \<Rightarrow> pipe_trace" where
  "pipe_run = foldl pipe_step pipe_start"

text \<open>What the pipe promises: accepted bytes are those delivered followed by those buffered.\<close>

definition pipe_trace_inv :: "pipe_trace \<Rightarrow> bool" where
  "pipe_trace_inv s \<longleftrightarrow>
     pt_accepted s = pt_delivered s @ pr_buffer (pt_ring s) \<and>
     length (pr_buffer (pt_ring s)) \<le> pr_capacity (pt_ring s) \<and>
     pr_capacity (pt_ring s) = PIPE_CAPACITY"

text \<open>Runs of the registry, with the identifiers \<open>create\<close> returned, oldest first.\<close>

datatype preg_op =
    PregCreate
  | PregRemove pipe_id
  | PregModify pipe_id "pipe_ring \<Rightarrow> pipe_ring"

fun preg_step :: "pipe_registry \<times> u64 list \<Rightarrow> preg_op \<Rightarrow> pipe_registry \<times> u64 list" where
  "preg_step (g, ids) PregCreate = (case pipe_create g of (i, g') \<Rightarrow> (g', ids @ [pipe_raw i]))"
| "preg_step (g, ids) (PregRemove i) = (snd (pipe_remove g i), ids)"
| "preg_step (g, ids) (PregModify i f) = (pipe_get_mut g i f, ids)"

definition preg_run :: "preg_op list \<Rightarrow> pipe_registry \<times> u64 list" where
  "preg_run = foldl preg_step (pipe_registry_new, [])"

definition preg_inv :: "pipe_registry \<times> u64 list \<Rightarrow> bool" where
  "preg_inv s \<longleftrightarrow>
     preg_next_id (fst s) = of_nat (Suc (length (snd s))) \<and>
     snd s = map (\<lambda>n. of_nat (Suc n)) [0..<length (snd s)] \<and>
     fmdom' (preg_pipes (fst s)) \<subseteq> set (snd s)"

section \<open>Lemmas\<close>

lemmas pipe_call_defs =
  pipe_write_def pipe_read_def close_write_def close_read_def park_reader_def
  park_writer_def drain_read_waiters_def drain_write_waiters_def

lemma pipe_trace_inv_start: "pipe_trace_inv pipe_start"
  by (simp add: pipe_trace_inv_def pipe_start_def pipe_ring_new_def)

lemma pipe_trace_inv_step: "pipe_trace_inv s \<Longrightarrow> pipe_trace_inv (pipe_step s x)"
  by (cases x) (auto simp: pipe_trace_inv_def pipe_call_defs Let_def min_def split: if_splits)

interpretation pipe_sys: op_system pipe_step pipe_trace_inv
  by unfold_locales (rule pipe_trace_inv_step)

lemma pipe_run_inv: "pipe_trace_inv (pipe_run ops)"
  unfolding pipe_run_def by (rule pipe_sys.inv_run [OF pipe_trace_inv_start])





text \<open>Once the read end is closed it stays closed, so writing stays an error.\<close>

lemma read_end_stays_closed:
  "\<not> pr_read_end_open (pt_ring s) \<Longrightarrow> \<not> pr_read_end_open (pt_ring (pipe_step s x))"
  by (cases x) (auto simp: pipe_call_defs Let_def split: if_splits)

interpretation closed_read: op_system pipe_step "\<lambda>s. \<not> pr_read_end_open (pt_ring s)"
  by unfold_locales (rule read_end_stays_closed)

lemma preg_inv_start: "preg_inv (pipe_registry_new, [])"
  by (simp add: preg_inv_def pipe_registry_new_def)

lemma preg_inv_step: "preg_inv s \<Longrightarrow> preg_inv (preg_step s x)"
  by (cases s; cases x)
    (auto simp: preg_inv_def pipe_create_def pipe_remove_def pipe_get_mut_def Let_def
      add.commute intro: fmdom'I split: option.splits)

interpretation preg_sys: op_system preg_step preg_inv
  by unfold_locales (rule preg_inv_step)

lemma preg_run_inv: "preg_inv (preg_run ops)"
  unfolding preg_run_def by (rule preg_sys.inv_run [OF preg_inv_start])

lemma inj_of_nat_u64: "inj_on (\<lambda>n. of_nat (Suc n) :: u64) {..<2 ^ 64 - 1}"
proof (rule inj_onI)
  fix a b :: nat
  assume "a \<in> {..<2 ^ 64 - 1}" "b \<in> {..<2 ^ 64 - 1}"
    and eq: "(of_nat (Suc a) :: u64) = of_nat (Suc b)"
  then have "Suc a < 2 ^ LENGTH(64)" "Suc b < 2 ^ LENGTH(64)" by simp_all
  with eq have "Suc a = Suc b"
    by (metis unat_of_nat_small)
  then show "a = b" by simp
qed

section \<open>Properties\<close>

text \<open>
  C10. Stream integrity. After any sequence of writes, reads, closes and parks on a new pipe,
  the bytes that the writes reported as accepted are exactly the bytes the reads delivered, in
  the same order, followed by the bytes still buffered, and the buffer holds at most the
  64 KiB capacity: nothing is lost, duplicated, reordered or over-filled.
\<close>

theorem pipe_stream_integrity:
  "pt_accepted (pipe_run ops) = pt_delivered (pipe_run ops) @ pr_buffer (pt_ring (pipe_run ops)) \<and>
   length (pr_buffer (pt_ring (pipe_run ops))) \<le> PIPE_CAPACITY"
  using pipe_run_inv [of ops] by (simp add: pipe_trace_inv_def)


text \<open>
  C18. Closing the read end is permanent and wakes the writers. After \<open>close_read\<close> returns
  exactly the parked writers, every write in any later run of operations fails with
  \<open>BrokenPipe\<close> and leaves the ring unchanged.
\<close>

theorem close_read_is_permanent:
  assumes "close_read (pt_ring s) = (woken, r)"
    and "t = foldl pipe_step (s\<lparr>pt_ring := r\<rparr>) ops"
  shows "woken = pr_waiters_write (pt_ring s) \<and> pr_waiters_write r = [] \<and>
    pipe_write (pt_ring t) data = (Inl BrokenPipe, pt_ring t)"
proof -
  from assms(1) have w: "woken = pr_waiters_write (pt_ring s)" "pr_waiters_write r = []"
    and closed: "\<not> pr_read_end_open (pt_ring (s\<lparr>pt_ring := r\<rparr>))"
    by (auto simp: pipe_call_defs)
  from closed have "\<not> pr_read_end_open (pt_ring t)"
    unfolding assms(2) by (rule closed_read.inv_run)
  with w show ?thesis by (simp add: pipe_write_def)
qed

theorem close_read_is_permanent_witness:
  "pipe_write (pt_ring (foldl pipe_step
      (pipe_start\<lparr>pt_ring := snd (close_read (pt_ring pipe_start))\<rparr>) [OpRead 4, OpWrite [1]])) [2]
   = (Inl BrokenPipe, pt_ring (foldl pipe_step
      (pipe_start\<lparr>pt_ring := snd (close_read (pt_ring pipe_start))\<rparr>) [OpRead 4, OpWrite [1]]))"
  using close_read_is_permanent [OF prod.collapse [symmetric] refl] by blast

text \<open>
  Pipe identifiers are not reused. In any run of creates, removes and in-place updates
  with fewer than 2^64 - 1 creates, the identifiers handed out are pairwise distinct, none is
  zero, and every live pipe carries one of them.
\<close>

lemma pipe_ids_unique:
  assumes "length (snd (preg_run ops)) < 2 ^ 64 - 1"
  shows "distinct (snd (preg_run ops)) \<and> 0 \<notin> set (snd (preg_run ops)) \<and>
    fmdom' (preg_pipes (fst (preg_run ops))) \<subseteq> set (snd (preg_run ops))"
proof -
  let ?ids = "snd (preg_run ops)"
  let ?f = "\<lambda>n. of_nat (Suc n) :: u64"
  from preg_run_inv [of ops] have ids: "?ids = map ?f [0..<length ?ids]"
    and dom: "fmdom' (preg_pipes (fst (preg_run ops))) \<subseteq> set ?ids"
    by (simp_all only: preg_inv_def)
  have sub: "set [0..<length ?ids] \<subseteq> {..<2 ^ 64 - 1}" using assms by auto
  have "distinct (map ?f [0..<length ?ids])"
    unfolding distinct_map using inj_on_subset [OF inj_of_nat_u64 sub] by simp
  then have "distinct ?ids" by (simp only: ids [symmetric])
  moreover have "0 \<notin> set ?ids"
  proof
    assume "0 \<in> set ?ids"
    then have "0 \<in> set (map ?f [0..<length ?ids])" by (simp only: ids [symmetric])
    then obtain n where "n < length ?ids" and "?f n = 0" by auto
    with assms have "Suc n < 2 ^ LENGTH(64)" and "unat (?f n) = 0" by simp_all
    then show False by (simp only: unat_of_nat_small)
  qed
  ultimately show ?thesis using dom by blast
qed

lemma pipe_ids_unique_witness:
  "distinct (snd (preg_run [PregCreate, PregRemove (PipeId 1), PregCreate])) \<and>
   snd (preg_run [PregCreate, PregRemove (PipeId 1), PregCreate]) = [1, 2]"
  using pipe_ids_unique [of "[PregCreate, PregRemove (PipeId 1), PregCreate]"]
  by (simp add: preg_run_def pipe_create_def pipe_remove_def pipe_registry_new_def Let_def)

end
