(* ===== verification/Fd_Table.thy ===== *)
theory Fd_Table
  imports Kernel_Prelude
begin

text \<open>
  The per-process file-descriptor table, \<open>nexacore-kernel/src/fd.rs\<close>: descriptor kinds and
  flags, and the table with its forward-only allocation cursor. A \<open>BTreeMap<u32, _>\<close> is a
  finite map on 32-bit words; the scan loop of \<open>open\<close> is a terminating recursion.

  Shown here: \<open>open\<close> always returns, with the least free number at or above the cursor or with
  \<open>ResourceExhausted\<close> when there is none; it touches no other entry; numbers are not handed out
  twice by open and dup until the cursor saturates; what dup, dup2, close and
  \<open>clone_for_child\<close> do on every branch.
\<close>

section \<open>Descriptors\<close>

datatype raw_fd = RawFd (fd_raw: u32)

record fd_flags =
  close_on_exec :: bool
  non_block :: bool

definition fd_flags_default :: fd_flags where
  "fd_flags_default = \<lparr>close_on_exec = False, non_block = False\<rparr>"

datatype open_flags = OpenFlags (open_bits: u32)

definition O_RDONLY :: u32 where "O_RDONLY = 0"
definition O_WRONLY :: u32 where "O_WRONLY = 1"
definition O_RDWR :: u32 where "O_RDWR = 2"
definition O_CREAT :: u32 where "O_CREAT = 0x40"
definition O_TRUNC :: u32 where "O_TRUNC = 0x200"
definition O_APPEND :: u32 where "O_APPEND = 0x400"
definition ACCESS_MASK :: u32 where "ACCESS_MASK = 0x3"

definition is_readable :: "open_flags \<Rightarrow> bool" where
  "is_readable f \<longleftrightarrow>
     (let mode = open_bits f AND ACCESS_MASK in mode = O_RDONLY \<or> mode = O_RDWR)"

definition is_writable :: "open_flags \<Rightarrow> bool" where
  "is_writable f \<longleftrightarrow>
     (let mode = open_bits f AND ACCESS_MASK in mode = O_WRONLY \<or> mode = O_RDWR)"

definition has_create :: "open_flags \<Rightarrow> bool" where
  "has_create f \<longleftrightarrow> open_bits f AND O_CREAT \<noteq> 0"

definition has_trunc :: "open_flags \<Rightarrow> bool" where
  "has_trunc f \<longleftrightarrow> open_bits f AND O_TRUNC \<noteq> 0"

definition has_append :: "open_flags \<Rightarrow> bool" where
  "has_append f \<longleftrightarrow> open_bits f AND O_APPEND \<noteq> 0"

datatype fd_kind =
    Console (console_readable: bool) (console_writable: bool)
  | PipeEnd (pe_pipe_id: u64) (pe_is_read_end: bool)
  | FsFile (ff_inode: u64) (ff_offset: u64) (ff_flags: open_flags)
  | IpcChannelFd u64

record file_descriptor =
  fd_kind_of :: fd_kind
  fd_flags_of :: fd_flags

section \<open>The table\<close>

record fd_table =
  fdt_entries :: "(u32, file_descriptor) fmap"
  fdt_next_fd :: u32

definition fd_table_new :: fd_table where
  "fd_table_new = \<lparr>fdt_entries = fmempty, fdt_next_fd = 0\<rparr>"

definition new_with_stdio :: fd_table where
  "new_with_stdio =
     (let stdin = \<lparr>fd_kind_of = Console True False, fd_flags_of = fd_flags_default\<rparr>;
          stdout = \<lparr>fd_kind_of = Console False True, fd_flags_of = fd_flags_default\<rparr>;
          stderr = \<lparr>fd_kind_of = Console False True, fd_flags_of = fd_flags_default\<rparr>
      in \<lparr>fdt_entries = fmupd 2 stderr (fmupd 1 stdout (fmupd 0 stdin fmempty)),
          fdt_next_fd = 3\<rparr>)"

text \<open>The loop of \<open>open\<close>: the first vacant number at or after \<open>candidate\<close>.\<close>

function fd_scan :: "(u32, file_descriptor) fmap \<Rightarrow> u32 \<Rightarrow> u32 option" where
  "fd_scan m candidate =
     (if fmlookup m candidate = None then Some candidate
      else case checked_add candidate 1 of
             None \<Rightarrow> None
           | Some nxt \<Rightarrow> fd_scan m nxt)"
  by pat_completeness auto
termination
proof (relation "measure (\<lambda>(m, c). 2 ^ 32 - unat c)", goal_cases)
  case (2 m c nxt)
  then have "unat nxt = unat c + 1" by (simp add: checked_add_SomeD)
  moreover have "unat nxt < 2 ^ 32" using unat_bound [of nxt] by simp
  ultimately show ?case by simp
qed simp

declare fd_scan.simps [simp del]

definition fd_open :: "fd_table \<Rightarrow> file_descriptor \<Rightarrow> raw_fd kernel_result \<times> fd_table" where
  "fd_open t d =
     (case fd_scan (fdt_entries t) (fdt_next_fd t) of
        None \<Rightarrow> (Inl ResourceExhausted, t)
      | Some c \<Rightarrow>
          (Inr (RawFd c),
           t\<lparr>fdt_entries := fmupd c d (fdt_entries t), fdt_next_fd := saturating_add c 1\<rparr>))"

definition fd_close :: "fd_table \<Rightarrow> raw_fd \<Rightarrow> unit kernel_result \<times> fd_table" where
  "fd_close t fd =
     (case fmlookup (fdt_entries t) (fd_raw fd) of
        None \<Rightarrow> (Inl InvalidArgument, t)
      | Some _ \<Rightarrow> (Inr (), t\<lparr>fdt_entries := fmdrop (fd_raw fd) (fdt_entries t)\<rparr>))"

definition fd_get :: "fd_table \<Rightarrow> raw_fd \<Rightarrow> file_descriptor option" where
  "fd_get t fd = fmlookup (fdt_entries t) (fd_raw fd)"

definition fd_get_mut ::
  "fd_table \<Rightarrow> raw_fd \<Rightarrow> (file_descriptor \<Rightarrow> file_descriptor) \<Rightarrow> fd_table" where
  "fd_get_mut t fd f =
     (case fmlookup (fdt_entries t) (fd_raw fd) of
        None \<Rightarrow> t
      | Some d \<Rightarrow> t\<lparr>fdt_entries := fmupd (fd_raw fd) (f d) (fdt_entries t)\<rparr>)"

definition fd_dup :: "fd_table \<Rightarrow> raw_fd \<Rightarrow> raw_fd kernel_result \<times> fd_table" where
  "fd_dup t old_fd =
     (case fmlookup (fdt_entries t) (fd_raw old_fd) of
        None \<Rightarrow> (Inl InvalidArgument, t)
      | Some d \<Rightarrow> fd_open t \<lparr>fd_kind_of = fd_kind_of d, fd_flags_of = fd_flags_default\<rparr>)"

definition fd_dup2 :: "fd_table \<Rightarrow> raw_fd \<Rightarrow> raw_fd \<Rightarrow> raw_fd kernel_result \<times> fd_table" where
  "fd_dup2 t old_fd new_fd =
     (if old_fd = new_fd then
        (if fmlookup (fdt_entries t) (fd_raw old_fd) \<noteq> None then (Inr new_fd, t)
         else (Inl InvalidArgument, t))
      else case fmlookup (fdt_entries t) (fd_raw old_fd) of
             None \<Rightarrow> (Inl InvalidArgument, t)
           | Some d \<Rightarrow>
               (Inr new_fd,
                t\<lparr>fdt_entries :=
                   fmupd (fd_raw new_fd)
                     \<lparr>fd_kind_of = fd_kind_of d, fd_flags_of = fd_flags_default\<rparr>
                     (fmdrop (fd_raw new_fd) (fdt_entries t))\<rparr>))"

definition clone_for_child :: "fd_table \<Rightarrow> fd_table" where
  "clone_for_child t =
     \<lparr>fdt_entries =
        fmfilter (\<lambda>k. case fmlookup (fdt_entries t) k of
                        None \<Rightarrow> False
                      | Some d \<Rightarrow> \<not> close_on_exec (fd_flags_of d)) (fdt_entries t),
      fdt_next_fd = fdt_next_fd t\<rparr>"

definition fd_iter :: "fd_table \<Rightarrow> (raw_fd \<times> file_descriptor) list" where
  "fd_iter t = map (\<lambda>(k, v). (RawFd k, v)) (fm_iter (fdt_entries t))"

section \<open>Runs: the numbers open and dup hand out\<close>

datatype fd_op =
    FdOpen file_descriptor
  | FdClose raw_fd
  | FdDup raw_fd
  | FdModify raw_fd "file_descriptor \<Rightarrow> file_descriptor"

fun issued :: "raw_fd kernel_result \<Rightarrow> u32 list" where
  "issued (Inl _) = []"
| "issued (Inr fd) = [fd_raw fd]"

fun fd_step :: "fd_table \<times> u32 list \<Rightarrow> fd_op \<Rightarrow> fd_table \<times> u32 list" where
  "fd_step (t, ns) (FdOpen d) = (case fd_open t d of (res, t') \<Rightarrow> (t', ns @ issued res))"
| "fd_step (t, ns) (FdClose fd) = (snd (fd_close t fd), ns)"
| "fd_step (t, ns) (FdDup fd) = (case fd_dup t fd of (res, t') \<Rightarrow> (t', ns @ issued res))"
| "fd_step (t, ns) (FdModify fd f) = (fd_get_mut t fd f, ns)"

text \<open>Until the cursor saturates, the numbers issued so far increase and lie below it.\<close>

definition fd_issue_inv :: "fd_table \<times> u32 list \<Rightarrow> bool" where
  "fd_issue_inv s \<longleftrightarrow>
     (fdt_next_fd (fst s) \<noteq> - 1 \<longrightarrow>
        sorted_wrt (<) (snd s) \<and> (\<forall>n \<in> set (snd s). n < fdt_next_fd (fst s)))"

section \<open>Lemmas\<close>

lemma fmupd_fmdrop: "fmupd k v (fmdrop k m) = fmupd k v m"
  by (rule fmap_ext) simp

text \<open>The scan finds the least free number from the candidate on, and fails only if none is.\<close>

lemma fd_scan_Some:
  "fd_scan m c = Some k \<Longrightarrow>
     c \<le> k \<and> fmlookup m k = None \<and> (\<forall>j. c \<le> j \<and> j < k \<longrightarrow> fmlookup m j \<noteq> None)"
proof (induction m c rule: fd_scan.induct)
  case (1 m c)
  show ?case
  proof (cases "fmlookup m c = None")
    case True
    with "1.prems" show ?thesis by (auto simp: fd_scan.simps [of m c])
  next
    case False
    with "1.prems" obtain n where n: "checked_add c 1 = Some n" and k: "fd_scan m n = Some k"
      by (auto simp: fd_scan.simps [of m c] split: option.splits)
    from n have un: "unat n = unat c + 1" by (simp add: checked_add_SomeD)
    have "c \<le> j \<and> j < k \<longrightarrow> j = c \<or> n \<le> j \<and> j < k" for j
      using un by (auto simp: word_le_nat_alt word_less_nat_alt word_unat_eq_iff)
    with "1.IH" [OF False n k] False un show ?thesis
      by (force simp: word_le_nat_alt)
  qed
qed

lemma fd_scan_None:
  "fd_scan m c = None \<Longrightarrow> c \<le> j \<Longrightarrow> fmlookup m j \<noteq> None"
proof (induction m c rule: fd_scan.induct)
  case (1 m c)
  from "1.prems"(1) have occ: "fmlookup m c \<noteq> None"
    by (auto simp: fd_scan.simps [of m c] split: if_splits)
  show ?case
  proof (cases "checked_add c 1")
    case None
    then have "unat c = 2 ^ LENGTH(32) - 1"
      using unat_bound [of c] by (simp add: checked_add_None_iff)
    moreover have "unat j < 2 ^ LENGTH(32)" by (rule unat_bound)
    moreover from "1.prems"(2) have "unat c \<le> unat j" by (simp add: word_le_nat_alt)
    ultimately have "j = c" by (simp add: word_unat_eq_iff)
    with occ show ?thesis by simp
  next
    case (Some n)
    with "1.prems"(1) occ have rest: "fd_scan m n = None"
      by (simp add: fd_scan.simps [of m c])
    from Some have un: "unat n = unat c + 1" by (simp add: checked_add_SomeD)
    show ?thesis
    proof (cases "j = c")
      case False
      with "1.prems"(2) un have "n \<le> j"
        by (simp add: word_le_nat_alt word_unat_eq_iff)
      then show ?thesis by (rule "1.IH" [OF occ Some rest])
    qed (simp add: occ)
  qed
qed

lemma fd_scan_complete: "fmlookup m j = None \<Longrightarrow> c \<le> j \<Longrightarrow> \<exists>k. fd_scan m c = Some k"
  using fd_scan_None by (cases "fd_scan m c") blast+

lemma saturating_Suc_gt:
  assumes "saturating_add c 1 \<noteq> (- 1 :: u32)"
  shows "c < saturating_add c 1"
proof -
  have "unat c + 1 < 2 ^ LENGTH(32)"
    using assms by (auto simp: saturating_add_def split: if_splits)
  then show ?thesis
    by (simp add: word_less_nat_alt unat_saturating_add)
qed

lemma fd_open_issue:
  assumes "fd_issue_inv (t, ns)"
  shows "fd_issue_inv (snd (fd_open t d), ns @ issued (fst (fd_open t d)))"
proof (cases "fd_scan (fdt_entries t) (fdt_next_fd t)")
  case None
  with assms show ?thesis by (simp add: fd_open_def)
next
  case (Some c)
  then have le: "fdt_next_fd t \<le> c" by (simp add: fd_scan_Some)
  have "fdt_next_fd t \<noteq> - 1" if "saturating_add c 1 \<noteq> - 1"
    using saturating_Suc_gt [OF that] le by (metis leD order.strict_trans1 word_n1_ge)
  moreover have "n < saturating_add c 1" if "saturating_add c 1 \<noteq> - 1" "n < fdt_next_fd t" for n
    using saturating_Suc_gt [OF that(1)] that(2) le by simp
  ultimately show ?thesis
    using assms Some le saturating_Suc_gt [of c]
    by (auto simp: fd_open_def fd_issue_inv_def sorted_wrt_append)
qed

lemma fd_issue_inv_step: "fd_issue_inv s \<Longrightarrow> fd_issue_inv (fd_step s x)"
proof (cases s)
  case (Pair t ns)
  assume "fd_issue_inv s"
  with Pair have inv: "fd_issue_inv (t, ns)" by simp
  show ?thesis
  proof (cases x)
    case (FdOpen d)
    with Pair fd_open_issue [OF inv] show ?thesis by (simp add: split_def)
  next
    case (FdDup fd)
    with Pair inv fd_open_issue [OF inv] show ?thesis
      by (simp add: fd_dup_def split_def split: option.splits)
  next
    case (FdClose fd)
    with Pair inv show ?thesis
      by (simp add: fd_close_def fd_issue_inv_def split: option.splits)
  next
    case (FdModify fd f)
    with Pair inv show ?thesis
      by (simp add: fd_get_mut_def fd_issue_inv_def split: option.splits)
  qed
qed

interpretation fd_sys: op_system fd_step fd_issue_inv
  by unfold_locales (rule fd_issue_inv_step)

section \<open>Properties\<close>

text \<open>
  \<open>open\<close> always returns. If some number at or above the cursor is free it succeeds with
  the least such number, stores the descriptor there, leaves every other entry alone and moves
  the cursor past the number (saturating at the maximum); if none is free it returns
  \<open>ResourceExhausted\<close> and changes nothing.
\<close>

lemma fd_open_spec:
  "fd_open t d =
     (if \<exists>k. fdt_next_fd t \<le> k \<and> fd_get t (RawFd k) = None
      then let k = (LEAST k. fdt_next_fd t \<le> k \<and> fd_get t (RawFd k) = None) in
        (Inr (RawFd k),
         t\<lparr>fdt_entries := fmupd k d (fdt_entries t), fdt_next_fd := saturating_add k 1\<rparr>)
      else (Inl ResourceExhausted, t))"
proof (cases "fd_scan (fdt_entries t) (fdt_next_fd t)")
  case None
  then have "\<not> (\<exists>k. fdt_next_fd t \<le> k \<and> fd_get t (RawFd k) = None)"
    using fd_scan_None by (auto simp: fd_get_def)
  then have "fd_open t d = (Inl ResourceExhausted, t) \<and>
      (\<exists>k. fdt_next_fd t \<le> k \<and> fd_get t (RawFd k) = None) = False"
    using None by (simp only: fd_open_def) simp
  then show ?thesis by (simp only: if_False)
next
  case (Some k)
  have "(LEAST k. fdt_next_fd t \<le> k \<and> fd_get t (RawFd k) = None) = k"
    by (rule Least_equality) (use fd_scan_Some [OF Some] in \<open>auto simp: fd_get_def not_less [symmetric]\<close>)
  with fd_scan_Some [OF Some] Some show ?thesis by (auto simp: fd_open_def fd_get_def Let_def)
qed

text \<open>
  C19. Stale descriptor numbers are not re-issued. Over any run of open, close, dup and in-place
  updates from a new table (empty or with stdio), while the cursor has not reached \<open>u32::MAX\<close>
  the numbers handed out are strictly increasing: a closed number never names a new resource.
\<close>

theorem fd_numbers_not_reissued:
  assumes "t = fd_table_new \<or> t = new_with_stdio"
    and "foldl fd_step (t, []) ops = (t', ns)"
    and "fdt_next_fd t' \<noteq> - 1"
  shows "sorted_wrt (<) ns \<and> distinct ns"
proof -
  have "fd_issue_inv (t, [])" by (simp add: fd_issue_inv_def)
  then have "fd_issue_inv (foldl fd_step (t, []) ops)" by (rule fd_sys.inv_run)
  with assms(2,3) have "sorted_wrt (<) ns" by (simp add: fd_issue_inv_def)
  then show ?thesis by (simp add: strict_sorted_iff)
qed

definition stdio_fd :: file_descriptor where
  "stdio_fd = \<lparr>fd_kind_of = Console False True, fd_flags_of = fd_flags_default\<rparr>"

theorem fd_numbers_not_reissued_witness:
  "foldl fd_step (new_with_stdio, []) [FdOpen stdio_fd, FdClose (RawFd 3), FdDup (RawFd 1)] =
     (fd_table.make (fmupd 4 stdio_fd (fmdrop 3 (fmupd 3 stdio_fd (fdt_entries new_with_stdio)))) 5,
      [3, 4]) \<and> sorted_wrt (<) [3, 4 :: u32] \<and> distinct [3, 4 :: u32]"
proof -
  let ?t = "fd_table.make
    (fmupd 4 stdio_fd (fmdrop 3 (fmupd 3 stdio_fd (fdt_entries new_with_stdio)))) 5"
  have run: "foldl fd_step (new_with_stdio, [])
      [FdOpen stdio_fd, FdClose (RawFd 3), FdDup (RawFd 1)] = (?t, [3, 4])"
    by (simp add: fd_open_def fd_close_def fd_dup_def fd_scan.simps new_with_stdio_def
        saturating_add_def stdio_fd_def fd_flags_default_def fd_table.make_def)
  show ?thesis
    using run fd_numbers_not_reissued [OF disjI2 [OF refl] run] by (simp add: fd_table.make_def)
qed

text \<open>
  \<open>dup2\<close> on every branch. With equal numbers it succeeds exactly when the descriptor is open
  and changes nothing; otherwise it fails with \<open>InvalidArgument\<close> and no change when the source
  is closed, and else the target names the source's resource with cleared flags and every other
  entry, and the cursor, are as before.
\<close>

lemma fd_dup2_spec:
  "fd_dup2 t a b =
     (case fd_get t a of
        None \<Rightarrow> (Inl InvalidArgument, t)
      | Some d \<Rightarrow>
          (Inr b,
           if a = b then t
           else t\<lparr>fdt_entries :=
                    fmupd (fd_raw b) \<lparr>fd_kind_of = fd_kind_of d, fd_flags_of = fd_flags_default\<rparr>
                      (fdt_entries t)\<rparr>))"
  by (auto simp: fd_dup2_def fd_get_def fmupd_fmdrop split: option.splits)

text \<open>
  What a child inherits. \<open>clone_for_child\<close> keeps exactly the descriptors without
  close-on-exec, unchanged, and the cursor; and a descriptor made by \<open>dup\<close> or \<open>dup2\<close> always
  survives it, since duplication clears the flag.
\<close>

lemma clone_for_child_spec:
  "fd_get (clone_for_child t) fd =
     (case fd_get t fd of
        None \<Rightarrow> None
      | Some d \<Rightarrow> if close_on_exec (fd_flags_of d) then None else Some d) \<and>
   fdt_next_fd (clone_for_child t) = fdt_next_fd t \<and>
   (case fd_dup t fd of
      (Inl _, t') \<Rightarrow> t' = t
    | (Inr n, t') \<Rightarrow> fd_get (clone_for_child t') n \<noteq> None)"
  by (auto simp: clone_for_child_def fd_get_def fd_dup_def fd_open_def fd_flags_default_def
      split: option.splits)

text \<open>
  \<open>dup2\<close> places an entry above the cursor without moving it. The comment on
  \<open>FileDescriptorTable\<close> says the cursor avoids re-issuing a number user space may still hold;
  after \<open>dup2\<close> to 3 and a close, \<open>open\<close> hands 3 out again.
\<close>

lemma fd_number_reissued_after_dup2:
  "let (r1, t1) = fd_dup2 new_with_stdio (RawFd 1) (RawFd 3);
       (r2, t2) = fd_close t1 (RawFd 3);
       (r3, t3) = fd_open t2 stdio_fd
   in r1 = Inr (RawFd 3) \<and> r2 = Inr () \<and> r3 = Inr (RawFd 3)"
  by (simp add: fd_dup2_def fd_close_def fd_open_def new_with_stdio_def fd_scan.simps)

end
