(* ===== verification/Process_Table.thy ===== *)
theory Process_Table
  imports Kernel_Prelude
begin

text \<open>
  The process table, \<open>nexacore-kernel/src/process_table.rs\<close>: parent/child links, exit codes
  and reaping. The \<open>BTreeMap<u64, ProcessEntry>\<close> is a finite map on 64-bit words.

  Shown here: what \<open>reap_child\<close> returns and removes on every branch; and, over every run of
  register, exit, reap, remove and set-cwd calls with fresh identifiers, that a child is reaped
  at most once, only by the parent it was registered under and only with a code it exited with.
\<close>

section \<open>The table and its operations\<close>

record process_entry =
  pe_id :: task_id
  pe_parent :: "task_id option"
  pe_children :: "task_id list"
  pe_exit_code :: "u64 option"
  pe_cwd :: string
  pe_name :: string

record process_table =
  pt_entries :: "(u64, process_entry) fmap"

definition process_table_new :: process_table where
  "process_table_new = \<lparr>pt_entries = fmempty\<rparr>"

definition register ::
  "process_table \<Rightarrow> task_id \<Rightarrow> task_id option \<Rightarrow> string \<Rightarrow> process_table" where
  "register t i parent nm =
     (let m = fmupd (task_raw i)
                \<lparr>pe_id = i, pe_parent = parent, pe_children = [], pe_exit_code = None,
                 pe_cwd = ''/'', pe_name = nm\<rparr> (pt_entries t)
      in case parent of
           None \<Rightarrow> t\<lparr>pt_entries := m\<rparr>
         | Some p \<Rightarrow>
             (case fmlookup m (task_raw p) of
                None \<Rightarrow> t\<lparr>pt_entries := m\<rparr>
              | Some e \<Rightarrow>
                  t\<lparr>pt_entries :=
                     fmupd (task_raw p) (e\<lparr>pe_children := pe_children e @ [i]\<rparr>) m\<rparr>))"

definition record_exit ::
  "process_table \<Rightarrow> task_id \<Rightarrow> u64 \<Rightarrow> task_id option \<times> process_table" where
  "record_exit t i code =
     (case fmlookup (pt_entries t) (task_raw i) of
        None \<Rightarrow> (None, t)
      | Some e \<Rightarrow>
          (pe_parent e,
           t\<lparr>pt_entries :=
              fmupd (task_raw i) (e\<lparr>pe_exit_code := Some code\<rparr>) (pt_entries t)\<rparr>))"

text \<open>The closure of \<open>reap_child\<close>: a child that is in the table and has exited.\<close>

definition exited_child :: "process_table \<Rightarrow> task_id \<Rightarrow> (task_id \<times> u64) option" where
  "exited_child t c =
     (case fmlookup (pt_entries t) (task_raw c) of
        None \<Rightarrow> None
      | Some e \<Rightarrow> map_option (\<lambda>code. (c, code)) (pe_exit_code e))"

definition reap_child ::
  "process_table \<Rightarrow> task_id \<Rightarrow> (task_id \<times> u64) option \<times> process_table" where
  "reap_child t parent =
     (case fmlookup (pt_entries t) (task_raw parent) of
        None \<Rightarrow> (None, t)
      | Some e \<Rightarrow>
          (case find_map (exited_child t) (sort_key task_raw (pe_children e)) of
             None \<Rightarrow> (None, t)
           | Some (c, code) \<Rightarrow>
               let m = fmdrop (task_raw c) (pt_entries t) in
               (Some (c, code),
                case fmlookup m (task_raw parent) of
                  None \<Rightarrow> t\<lparr>pt_entries := m\<rparr>
                | Some pe \<Rightarrow>
                    t\<lparr>pt_entries :=
                       fmupd (task_raw parent)
                         (pe\<lparr>pe_children := filter (\<lambda>j. task_raw j \<noteq> task_raw c) (pe_children pe)\<rparr>)
                         m\<rparr>)))"

definition process_get :: "process_table \<Rightarrow> task_id \<Rightarrow> process_entry option" where
  "process_get t i = fmlookup (pt_entries t) (task_raw i)"

definition process_get_mut ::
  "process_table \<Rightarrow> task_id \<Rightarrow> (process_entry \<Rightarrow> process_entry) \<Rightarrow> process_table" where
  "process_get_mut t i f =
     (case fmlookup (pt_entries t) (task_raw i) of
        None \<Rightarrow> t
      | Some e \<Rightarrow> t\<lparr>pt_entries := fmupd (task_raw i) (f e) (pt_entries t)\<rparr>)"

definition get_cwd :: "process_table \<Rightarrow> task_id \<Rightarrow> string option" where
  "get_cwd t i = map_option pe_cwd (fmlookup (pt_entries t) (task_raw i))"

definition set_cwd :: "process_table \<Rightarrow> task_id \<Rightarrow> string \<Rightarrow> bool \<times> process_table" where
  "set_cwd t i cwd =
     (case fmlookup (pt_entries t) (task_raw i) of
        None \<Rightarrow> (False, t)
      | Some e \<Rightarrow>
          (True, t\<lparr>pt_entries := fmupd (task_raw i) (e\<lparr>pe_cwd := cwd\<rparr>) (pt_entries t)\<rparr>))"

definition process_list :: "process_table \<Rightarrow> process_entry list" where
  "process_list t = map snd (fm_iter (pt_entries t))"

definition process_remove :: "process_table \<Rightarrow> task_id \<Rightarrow> bool \<times> process_table" where
  "process_remove t i =
     (fmlookup (pt_entries t) (task_raw i) \<noteq> None,
      t\<lparr>pt_entries := fmdrop (task_raw i) (pt_entries t)\<rparr>)"

section \<open>Runs with fresh identifiers\<close>

text \<open>
  The comment on \<open>register\<close> makes the caller responsible for unique identifiers (the
  scheduler's counter), so a run ignores a \<open>register\<close> whose identifier was used before. The
  history fields keep every registration, exit call and reap result.
\<close>

datatype pt_op =
    PtRegister task_id "task_id option" string
  | PtExit task_id u64
  | PtReap task_id
  | PtSetCwd task_id string
  | PtRemove task_id

record pt_history =
  ph_table :: process_table
  ph_regs :: "(task_id \<times> task_id option) list"
  ph_exits :: "(task_id \<times> u64) list"
  ph_reaped :: "(task_id \<times> task_id \<times> u64) list"

definition pt_start :: pt_history where
  "pt_start = \<lparr>ph_table = process_table_new, ph_regs = [], ph_exits = [], ph_reaped = []\<rparr>"

fun pt_step :: "pt_history \<Rightarrow> pt_op \<Rightarrow> pt_history" where
  "pt_step s (PtRegister i p nm) =
     (if i \<in> fst ` set (ph_regs s) then s
      else s\<lparr>ph_table := register (ph_table s) i p nm, ph_regs := ph_regs s @ [(i, p)]\<rparr>)"
| "pt_step s (PtExit i code) =
     s\<lparr>ph_table := snd (record_exit (ph_table s) i code), ph_exits := ph_exits s @ [(i, code)]\<rparr>"
| "pt_step s (PtReap p) =
     (case reap_child (ph_table s) p of
        (None, t) \<Rightarrow> s\<lparr>ph_table := t\<rparr>
      | (Some (c, code), t) \<Rightarrow>
          s\<lparr>ph_table := t, ph_reaped := ph_reaped s @ [(p, c, code)]\<rparr>)"
| "pt_step s (PtSetCwd i cwd) = s\<lparr>ph_table := snd (set_cwd (ph_table s) i cwd)\<rparr>"
| "pt_step s (PtRemove i) = s\<lparr>ph_table := snd (process_remove (ph_table s) i)\<rparr>"

text \<open>
  Each entry knows its key, its registered parent and a code it really exited with; the
  children of a live process were registered under it; what was reaped is gone for good.
\<close>

definition entry_ok :: "pt_history \<Rightarrow> u64 \<Rightarrow> process_entry \<Rightarrow> bool" where
  "entry_ok s k e \<longleftrightarrow>
     pe_id e = TaskId k \<and>
     (TaskId k, pe_parent e) \<in> set (ph_regs s) \<and>
     (\<forall>code. pe_exit_code e = Some code \<longrightarrow> (TaskId k, code) \<in> set (ph_exits s)) \<and>
     (\<forall>c \<in> set (pe_children e). (c, Some (TaskId k)) \<in> set (ph_regs s))"

definition pt_inv :: "pt_history \<Rightarrow> bool" where
  "pt_inv s \<longleftrightarrow>
     (\<forall>i e. process_get (ph_table s) i = Some e \<longrightarrow> entry_ok s (task_raw i) e) \<and>
     distinct (map fst (ph_regs s)) \<and>
     distinct (map (fst \<circ> snd) (ph_reaped s)) \<and>
     (\<forall>(p, c, code) \<in> set (ph_reaped s).
        (c, Some p) \<in> set (ph_regs s) \<and> (c, code) \<in> set (ph_exits s) \<and>
        process_get (ph_table s) c = None)"

section \<open>Lemmas\<close>

lemma entry_ok_mono:
  assumes "entry_ok s k e" and "set (ph_regs s) \<subseteq> set (ph_regs s')"
    and "set (ph_exits s) \<subseteq> set (ph_exits s')"
  shows "entry_ok s' k e"
  using assms by (auto simp: entry_ok_def)

text \<open>Which child \<open>reap_child\<close> picks: the first exited one in ascending order is the least.\<close>

lemma exited_child_fst: "exited_child t c = Some (d, code) \<Longrightarrow> d = c"
  by (auto simp: exited_child_def split: option.splits)

lemma find_map_sorted_Min:
  assumes "sorted xs" and "find_map f xs = Some y"
  shows "\<exists>x. x = Min {x \<in> set xs. f x \<noteq> None} \<and> x \<in> set xs \<and> f x = Some y"
proof -
  from assms(2) obtain us x vs
    where xs: "xs = us @ x # vs" and fx: "f x = Some y" and us: "\<forall>u \<in> set us. f u = None"
    by (rule find_map_SomeE)
  have "Min {x \<in> set xs. f x \<noteq> None} = x"
    by (rule Min_eqI) (use assms(1) xs fx us in \<open>auto simp: sorted_append\<close>)
  with xs fx show ?thesis by auto
qed

lemma sort_key_task_raw: "sort_key task_raw xs = sort xs"
proof -
  have "sorted (map task_raw (sort_key task_raw xs))" by simp
  then have "sorted (sort_key task_raw xs)"
    by (simp add: sorted_map less_eq_task_id_def [abs_def])
  then show ?thesis by (intro properties_for_sort [symmetric]) simp_all
qed

lemma reap_pick:
  "find_map (exited_child t) (sort_key task_raw cs) =
     (let E = {c \<in> set cs. exited_child t c \<noteq> None} in
      if E = {} then None else exited_child t (Min E))"
proof (cases "find_map (exited_child t) (sort cs)")
  case None
  then show ?thesis by (auto simp: sort_key_task_raw find_map_None_iff)
next
  case (Some y)
  from find_map_sorted_Min [OF sorted_sort this] show ?thesis
    by (auto simp: sort_key_task_raw Let_def Some)
qed

lemma reap_childE:
  assumes "reap_child t p = (Some (c, code), t')"
  obtains e where "process_get t p = Some e" "c \<in> set (pe_children e)"
    "exited_child t c = Some (c, code)"
proof -
  from assms obtain e where e: "process_get t p = Some e"
    and f: "find_map (exited_child t) (sort_key task_raw (pe_children e)) = Some (c, code)"
    by (auto simp: reap_child_def process_get_def Let_def split: option.splits prod.splits)
  from f obtain us x vs where "sort_key task_raw (pe_children e) = us @ x # vs"
    and x: "exited_child t x = Some (c, code)"
    by (rule find_map_SomeE) blast
  then have "x \<in> set (sort_key task_raw (pe_children e))" by simp
  with e x exited_child_fst [OF x] show thesis by (intro that) simp_all
qed

lemma reap_child_get:
  "process_get (snd (reap_child t p)) q =
     (case fst (reap_child t p) of
        None \<Rightarrow> process_get t q
      | Some (c, code) \<Rightarrow>
          if q = c then None
          else if q = p then
            map_option (\<lambda>e. e\<lparr>pe_children := filter (\<lambda>j. j \<noteq> c) (pe_children e)\<rparr>) (process_get t p)
          else process_get t q)"
  by (auto simp: reap_child_def process_get_def Let_def split: option.splits prod.splits)

lemma register_get:
  "process_get (register t i p nm) q =
     (let fresh = \<lparr>pe_id = i, pe_parent = p, pe_children = [], pe_exit_code = None,
                   pe_cwd = ''/'', pe_name = nm\<rparr>;
          base = (if q = i then Some fresh else process_get t q)
      in if p = Some q then map_option (\<lambda>e. e\<lparr>pe_children := pe_children e @ [i]\<rparr>) base else base)"
  by (auto simp: register_def process_get_def Let_def split: option.splits)

lemma record_exit_get:
  "process_get (snd (record_exit t i code)) q =
     (if q = i then map_option (\<lambda>e. e\<lparr>pe_exit_code := Some code\<rparr>) (process_get t i)
      else process_get t q)"
  by (auto simp: record_exit_def process_get_def split: option.splits)

lemma pt_inv_start: "pt_inv pt_start"
  by (simp add: pt_inv_def pt_start_def process_table_new_def process_get_def)

lemma pt_inv_register:
  assumes inv: "pt_inv s" and fresh: "i \<notin> fst ` set (ph_regs s)"
  shows "pt_inv (s\<lparr>ph_table := register (ph_table s) i p nm, ph_regs := ph_regs s @ [(i, p)]\<rparr>)"
    (is "pt_inv ?s")
proof -
  have mono: "entry_ok s k e \<Longrightarrow> entry_ok ?s k e" for k e
    by (erule entry_ok_mono) auto
  have "entry_ok ?s (task_raw q) e" if "process_get (ph_table ?s) q = Some e" for q e
    using that inv mono
    by (fastforce simp: register_get pt_inv_def entry_ok_def Let_def split: if_splits)
  moreover have "(c, Some p') \<in> set (ph_regs s) \<Longrightarrow> c \<noteq> i" for c p'
    using fresh by force
  ultimately show ?thesis
    using inv fresh by (fastforce simp: pt_inv_def register_get Let_def split: if_splits)
qed

lemma pt_inv_exit:
  assumes inv: "pt_inv s"
  shows "pt_inv (s\<lparr>ph_table := snd (record_exit (ph_table s) i code),
      ph_exits := ph_exits s @ [(i, code)]\<rparr>)" (is "pt_inv ?s")
proof -
  have mono: "entry_ok s k e \<Longrightarrow> entry_ok ?s k e" for k e
    by (erule entry_ok_mono) auto
  have "entry_ok ?s (task_raw q) e" if "process_get (ph_table ?s) q = Some e" for q e
    using that inv mono
    by (fastforce simp: record_exit_get pt_inv_def entry_ok_def split: if_splits)
  with inv show ?thesis
    by (fastforce simp: pt_inv_def record_exit_get split: if_splits)
qed

lemma pt_inv_reap:
  assumes inv: "pt_inv s" and reap: "reap_child (ph_table s) p = (Some (c, code), t)"
  shows "pt_inv (s\<lparr>ph_table := t, ph_reaped := ph_reaped s @ [(p, c, code)]\<rparr>)" (is "pt_inv ?s")
proof -
  from reap obtain e where e: "process_get (ph_table s) p = Some e" and c: "c \<in> set (pe_children e)"
    and x: "exited_child (ph_table s) c = Some (c, code)" by (rule reap_childE)
  from x obtain ce where ce: "process_get (ph_table s) c = Some ce" "pe_exit_code ce = Some code"
    by (auto simp: exited_child_def process_get_def split: option.splits)
  from inv e c have reg: "(c, Some p) \<in> set (ph_regs s)"
    by (fastforce simp: pt_inv_def entry_ok_def)
  from inv ce have ex: "(c, code) \<in> set (ph_exits s)"
    by (fastforce simp: pt_inv_def entry_ok_def)
  from reap have get: "process_get t q = (if q = c then None else if q = p
      then map_option (\<lambda>e. e\<lparr>pe_children := filter (\<lambda>j. j \<noteq> c) (pe_children e)\<rparr>) (process_get (ph_table s) p)
      else process_get (ph_table s) q)" for q
    using reap_child_get [of "ph_table s" p q] by simp
  have "entry_ok ?s (task_raw q) d" if "process_get t q = Some d" for q d
    using that inv by (fastforce simp: get pt_inv_def entry_ok_def split: if_splits)
  moreover have "c \<notin> (fst \<circ> snd) ` set (ph_reaped s)"
    using inv ce by (fastforce simp: pt_inv_def)
  moreover have "process_get t d = None" if "process_get (ph_table s) d = None" for d
    using that by (auto simp: get)
  ultimately show ?thesis
    using inv reg ex get [of c] by (fastforce simp: pt_inv_def)
qed

lemma pt_inv_same_regs:
  assumes inv: "pt_inv s"
    and sub: "\<And>q e. process_get t q = Some e \<Longrightarrow>
       \<exists>e'. process_get (ph_table s) q = Some e' \<and> pe_id e = pe_id e' \<and>
         pe_parent e = pe_parent e' \<and> pe_exit_code e = pe_exit_code e' \<and> pe_children e = pe_children e'"
  shows "pt_inv (s\<lparr>ph_table := t\<rparr>)"
proof -
  have "process_get t c = None" if "process_get (ph_table s) c = None" for c
    using sub [of c] that by (cases "process_get t c") auto
  moreover have "entry_ok (s\<lparr>ph_table := t\<rparr>) (task_raw q) e" if "process_get t q = Some e" for q e
    using sub [OF that] inv by (auto simp: pt_inv_def entry_ok_def)
  ultimately show ?thesis using inv by (fastforce simp: pt_inv_def)
qed

lemma pt_inv_step: "pt_inv s \<Longrightarrow> pt_inv (pt_step s x)"
proof (cases x)
  case (PtReap p)
  assume inv: "pt_inv s"
  obtain r t where r: "reap_child (ph_table s) p = (r, t)" by fastforce
  show ?thesis
  proof (cases r)
    case None
    with r have "t = ph_table s"
      by (auto simp: reap_child_def Let_def split: option.splits prod.splits)
    with inv PtReap r None show ?thesis by simp
  next
    case (Some y)
    with inv r PtReap pt_inv_reap [OF inv, of p "fst y" "snd y" t] show ?thesis
      by (simp add: split_def)
  qed
next
  case (PtSetCwd i cwd)
  assume inv: "pt_inv s"
  show ?thesis
    unfolding PtSetCwd pt_step.simps
    by (rule pt_inv_same_regs [OF inv])
      (auto simp: set_cwd_def process_get_def split: option.splits if_splits)
next
  case (PtRemove i)
  assume inv: "pt_inv s"
  show ?thesis
    unfolding PtRemove pt_step.simps
    by (rule pt_inv_same_regs [OF inv])
      (auto simp: process_remove_def process_get_def split: option.splits if_splits)
qed (auto intro: pt_inv_register pt_inv_exit)

interpretation pt_sys: op_system pt_step pt_inv
  by unfold_locales (rule pt_inv_step)

section \<open>Properties\<close>

text \<open>
  Reaping, on every branch. \<open>reap_child\<close> returns the least child of the parent that is in
  the table and has exited, with its exit code, and \<open>None\<close> exactly when the parent is unknown or
  no child has exited; on success that child's entry is removed and its identifier leaves the
  parent's list, and nothing else in the table changes.
\<close>

lemma reap_child_spec:
  "fst (reap_child t p) =
     (case process_get t p of
        None \<Rightarrow> None
      | Some e \<Rightarrow>
          let E = {c \<in> set (pe_children e). exited_child t c \<noteq> None} in
          if E = {} then None else exited_child t (Min E)) \<and>
   process_get (snd (reap_child t p)) q =
     (case fst (reap_child t p) of
        None \<Rightarrow> process_get t q
      | Some (c, code) \<Rightarrow>
          if q = c then None
          else if q = p then
            map_option (\<lambda>e. e\<lparr>pe_children := filter (\<lambda>j. j \<noteq> c) (pe_children e)\<rparr>) (process_get t p)
          else process_get t q)"
proof
  have "fst (reap_child t p) =
     (case process_get t p of
        None \<Rightarrow> None
      | Some e \<Rightarrow> find_map (exited_child t) (sort_key task_raw (pe_children e)))"
    by (simp add: reap_child_def process_get_def Let_def split: option.splits prod.splits)
  then show "fst (reap_child t p) =
     (case process_get t p of
        None \<Rightarrow> None
      | Some e \<Rightarrow>
          let E = {c \<in> set (pe_children e). exited_child t c \<noteq> None} in
          if E = {} then None else exited_child t (Min E))"
    by (simp only: reap_pick)
qed (rule reap_child_get)

text \<open>
  C11. Exactly-once reaping. Over any run of register (with fresh identifiers), exit, reap,
  remove and set-cwd calls, no child is reaped twice, and every reap by a parent returns a child
  that was registered under that parent, with a code the child exited with.
\<close>

theorem reaped_once_by_own_parent:
  "distinct (map (fst \<circ> snd) (ph_reaped (foldl pt_step pt_start ops))) \<and>
   set (ph_reaped (foldl pt_step pt_start ops)) \<subseteq>
     {(p, c, code).
        (c, Some p) \<in> set (ph_regs (foldl pt_step pt_start ops)) \<and>
        (c, code) \<in> set (ph_exits (foldl pt_step pt_start ops))}"
proof -
  have "pt_inv (foldl pt_step pt_start ops)" by (rule pt_sys.inv_run [OF pt_inv_start])
  then show ?thesis by (auto simp: pt_inv_def)
qed

text \<open>
  The module comment says a child whose parent is gone becomes an orphan and \<open>record_exit\<close>
  then returns \<open>None\<close>. The code never clears \<open>parent\<close>: after process 2 is reaped, the exit of
  its child 3 still reports 2, which is no longer in the table.
\<close>

lemma orphan_exit_reports_missing_parent:
  "let t1 = register process_table_new (TaskId 1) None ''init'';
       t2 = register t1 (TaskId 2) (Some (TaskId 1)) ''sh'';
       t3 = register t2 (TaskId 3) (Some (TaskId 2)) ''job'';
       t4 = snd (record_exit t3 (TaskId 2) 0);
       (r, t5) = reap_child t4 (TaskId 1)
   in r = Some (TaskId 2, 0) \<and> process_get t5 (TaskId 2) = None \<and>
      fst (record_exit t5 (TaskId 3) 7) = Some (TaskId 2)"
  by (simp add: register_def process_table_new_def record_exit_def reap_child_def exited_child_def
      process_get_def Let_def)

end
