(* ===== verification/Frame_Allocator.thy ===== *)
theory Frame_Allocator
  imports Kernel_Prelude
begin

text \<open>
  The physical frame allocator \<open>BitmapFrameAllocator\<close> of \<open>nexacore-kernel/src/memory.rs\<close>, with
  the address newtypes and page sizes of that file. The bitmap \<open>[u64; N]\<close> is a list of 64-bit
  words (\<open>N\<close> is its length), one bit per 4 KiB frame, set when the frame is used. The source adds
  the offset of a frame to the base with an overflow check, which \<open>frame_inv\<close> rules out: an allocator
  with the invariant has no frame whose address overflows, so the addition here is the source's.

  Shown here: allocation is first fit (it returns the least free frame and marks exactly that
  one), the free counter equals the number of clear bits after every run of operations, freeing
  what was allocated restores the allocator, and a frame is never handed out twice while live.
\<close>

section \<open>Addresses and page sizes\<close>

datatype phys_addr = PhysAddr (phys_u64: u64)
datatype virt_addr = VirtAddr (virt_u64: u64)

datatype page_size = Page4Kib | Page2Mib | Page1Gib

fun page_bytes :: "page_size \<Rightarrow> u64" where
  "page_bytes Page4Kib = 4 * 1024"
| "page_bytes Page2Mib = 2 * 1024 * 1024"
| "page_bytes Page1Gib = 1024 * 1024 * 1024"

section \<open>The allocator\<close>

record frame_alloc =
  fa_bitmap :: "u64 list"
  fa_base :: u64
  fa_total :: u64
  fa_free :: u64

definition FRAME_BYTES :: u64 where "FRAME_BYTES = 4096"
definition FRAMES_PER_WORD :: nat where "FRAMES_PER_WORD = 64"

definition CAPACITY :: "frame_alloc \<Rightarrow> nat" where
  "CAPACITY a = length (fa_bitmap a) * FRAMES_PER_WORD"

definition frame_alloc_new :: "nat \<Rightarrow> phys_addr \<Rightarrow> frame_alloc" where
  "frame_alloc_new n b =
     \<lparr>fa_bitmap = replicate n (- 1), fa_base = phys_u64 b, fa_total = 0, fa_free = 0\<rparr>"

definition frame_idx :: "frame_alloc \<Rightarrow> u64 \<Rightarrow> u64" where
  "frame_idx a phys = saturating_sub phys (fa_base a) div FRAME_BYTES"

definition word_bit :: "nat \<Rightarrow> nat \<times> nat" where
  "word_bit i = (i div FRAMES_PER_WORD, i mod FRAMES_PER_WORD)"

text \<open>\<open>self.bitmap[w] & (1u64 << b) != 0\<close>, and the two updates of that bit.\<close>

definition frame_used :: "frame_alloc \<Rightarrow> nat \<Rightarrow> bool" where
  "frame_used a i \<longleftrightarrow>
     (case word_bit i of (w, b) \<Rightarrow> fa_bitmap a ! w AND push_bit b 1 \<noteq> 0)"

definition clear_frame_bit :: "frame_alloc \<Rightarrow> nat \<Rightarrow> frame_alloc" where
  "clear_frame_bit a i =
     (case word_bit i of (w, b) \<Rightarrow>
        a\<lparr>fa_bitmap := (fa_bitmap a)[w := fa_bitmap a ! w AND NOT (push_bit b 1)]\<rparr>)"

definition set_frame_bit :: "frame_alloc \<Rightarrow> nat \<Rightarrow> frame_alloc" where
  "set_frame_bit a i =
     (case word_bit i of (w, b) \<Rightarrow>
        a\<lparr>fa_bitmap := (fa_bitmap a)[w := fa_bitmap a ! w OR push_bit b 1]\<rparr>)"

text \<open>The loops over a frame range; both break at the capacity.\<close>

function mark_free_loop :: "frame_alloc \<Rightarrow> nat \<Rightarrow> nat \<Rightarrow> frame_alloc" where
  "mark_free_loop a i n =
     (if i < n then
        if CAPACITY a \<le> i then a
        else mark_free_loop
          (if frame_used a i
           then (clear_frame_bit a i)\<lparr>fa_total := fa_total a + 1, fa_free := fa_free a + 1\<rparr>
           else a) (Suc i) n
      else a)"
  by pat_completeness auto
termination by (relation "measure (\<lambda>(a, i, n). n - i)") auto

function mark_used_loop :: "frame_alloc \<Rightarrow> nat \<Rightarrow> nat \<Rightarrow> frame_alloc" where
  "mark_used_loop a i n =
     (if i < n then
        if CAPACITY a \<le> i then a
        else mark_used_loop
          (if \<not> frame_used a i
           then (set_frame_bit a i)\<lparr>fa_free := saturating_sub (fa_free a) 1\<rparr>
           else a) (Suc i) n
      else a)"
  by pat_completeness auto
termination by (relation "measure (\<lambda>(a, i, n). n - i)") auto

declare mark_free_loop.simps [simp del] mark_used_loop.simps [simp del]

definition mark_range_free :: "frame_alloc \<Rightarrow> phys_addr \<Rightarrow> u64 \<Rightarrow> frame_alloc" where
  "mark_range_free a start sz =
     (let aligned = phys_u64 start AND NOT (FRAME_BYTES - 1);
          first = frame_idx a aligned;
          count = sz div FRAME_BYTES
      in mark_free_loop a (unat first) (unat (saturating_add first count)))"

text \<open>\<open>u64::div_ceil\<close>: the quotient rounded up, without overflow.\<close>

definition div_ceil :: "u64 \<Rightarrow> u64 \<Rightarrow> u64" where
  "div_ceil a b = (if a mod b = 0 then a div b else a div b + 1)"

definition mark_range_used :: "frame_alloc \<Rightarrow> phys_addr \<Rightarrow> u64 \<Rightarrow> frame_alloc" where
  "mark_range_used a start sz =
     (let aligned = phys_u64 start AND NOT (FRAME_BYTES - 1);
          first = frame_idx a aligned;
          count = div_ceil sz FRAME_BYTES
      in mark_used_loop a (unat first) (unat (saturating_add first count)))"

text \<open>\<open>u64::trailing_ones\<close>, and the scan for the first word that is not all ones.\<close>

definition trailing_ones :: "u64 \<Rightarrow> nat" where
  "trailing_ones w = length (takeWhile (bit w) [0..<64])"

fun first_free_word :: "nat \<Rightarrow> u64 list \<Rightarrow> nat option" where
  "first_free_word wi [] = None"
| "first_free_word wi (w # ws) = (if w = - 1 then first_free_word (Suc wi) ws else Some wi)"

definition alloc_frame :: "frame_alloc \<Rightarrow> phys_addr option \<times> frame_alloc" where
  "alloc_frame a =
     (case first_free_word 0 (fa_bitmap a) of
        None \<Rightarrow> (None, a)
      | Some wi \<Rightarrow>
          let b = trailing_ones (fa_bitmap a ! wi);
              idx = wi * FRAMES_PER_WORD + b
          in (Some (PhysAddr (fa_base a + of_nat idx * FRAME_BYTES)),
              a\<lparr>fa_bitmap := (fa_bitmap a)[wi := fa_bitmap a ! wi OR push_bit b 1],
                fa_free := saturating_sub (fa_free a) 1\<rparr>))"

definition free_frame :: "frame_alloc \<Rightarrow> phys_addr \<Rightarrow> bool \<times> frame_alloc" where
  "free_frame a addr =
     (if phys_u64 addr mod FRAME_BYTES \<noteq> 0 then (False, a)
      else
        let idx = unat (frame_idx a (phys_u64 addr)) in
        if CAPACITY a \<le> idx then (False, a)
        else if \<not> frame_used a idx then (False, a)
        else (True, (clear_frame_bit a idx)\<lparr>fa_free := fa_free a + 1\<rparr>))"

definition total_bytes :: "frame_alloc \<Rightarrow> u64" where
  "total_bytes a = fa_total a * FRAME_BYTES"

definition free_bytes :: "frame_alloc \<Rightarrow> u64" where
  "free_bytes a = fa_free a * FRAME_BYTES"

section \<open>Specification\<close>

text \<open>
  The abstract view: the set of free frame indices. The invariant ties the free counter to it
  and bounds the window so that frame addresses do not wrap.
\<close>

definition free_set :: "frame_alloc \<Rightarrow> nat set" where
  "free_set a = {i. i < CAPACITY a \<and> \<not> frame_used a i}"

definition frame_inv :: "frame_alloc \<Rightarrow> bool" where
  "frame_inv a \<longleftrightarrow>
     unat (fa_free a) = card (free_set a) \<and>
     fa_base a mod FRAME_BYTES = 0 \<and>
     unat (fa_base a) + CAPACITY a * 4096 < 2 ^ 64"

definition frame_addr :: "frame_alloc \<Rightarrow> nat \<Rightarrow> phys_addr" where
  "frame_addr a i = PhysAddr (fa_base a + of_nat i * FRAME_BYTES)"

section \<open>Lemmas\<close>

lemma word_bit_split: "word_bit i = (i div 64, i mod 64)"
  by (simp add: word_bit_def FRAMES_PER_WORD_def)

lemma CAPACITY_alt: "CAPACITY a = length (fa_bitmap a) * 64"
  by (simp add: CAPACITY_def FRAMES_PER_WORD_def)

lemma frame_used_bit: "frame_used a i \<longleftrightarrow> bit (fa_bitmap a ! (i div 64)) (i mod 64)"
  by (simp add: frame_used_def word_bit_split bit_iff_and_push_bit_not_eq_0)

lemma div_mod_64_eq: "(i::nat) div 64 = j div 64 \<Longrightarrow> i mod 64 = j mod 64 \<Longrightarrow> i = j"
  by (metis div_mult_mod_eq)

lemma frame_used_clear:
  assumes "i < CAPACITY a" and "j < CAPACITY a"
  shows "frame_used (clear_frame_bit a i) j \<longleftrightarrow> j \<noteq> i \<and> frame_used a j"
proof (cases "j div 64 = i div 64")
  case True
  have "i div 64 < length (fa_bitmap a)"
    using assms(1) by (simp add: CAPACITY_alt less_mult_imp_div_less)
  then show ?thesis
    using True div_mod_64_eq [of j i]
    by (auto simp: frame_used_bit clear_frame_bit_def word_bit_split bit_simps)
next
  case False
  then show ?thesis by (auto simp: frame_used_bit clear_frame_bit_def word_bit_split)
qed

lemma frame_used_set:
  assumes "i < CAPACITY a" and "j < CAPACITY a"
  shows "frame_used (set_frame_bit a i) j \<longleftrightarrow> j = i \<or> frame_used a j"
proof (cases "j div 64 = i div 64")
  case True
  have "i div 64 < length (fa_bitmap a)"
    using assms(1) by (simp add: CAPACITY_alt less_mult_imp_div_less)
  then show ?thesis
    using True div_mod_64_eq [of j i]
    by (auto simp: frame_used_bit set_frame_bit_def word_bit_split bit_simps)
next
  case False
  then show ?thesis by (auto simp: frame_used_bit set_frame_bit_def word_bit_split)
qed

lemma CAPACITY_simps [simp]:
  "CAPACITY (clear_frame_bit a i) = CAPACITY a"
  "CAPACITY (set_frame_bit a i) = CAPACITY a"
  "CAPACITY (a\<lparr>fa_total := x\<rparr>) = CAPACITY a"
  "CAPACITY (a\<lparr>fa_free := y\<rparr>) = CAPACITY a"
  by (simp_all add: CAPACITY_def clear_frame_bit_def set_frame_bit_def split_def)

lemma frame_used_counters [simp]:
  "frame_used (a\<lparr>fa_total := x\<rparr>) i = frame_used a i"
  "frame_used (a\<lparr>fa_free := y\<rparr>) i = frame_used a i"
  by (simp_all add: frame_used_def)

lemma free_set_counters [simp]:
  "free_set (a\<lparr>fa_total := x\<rparr>) = free_set a"
  "free_set (a\<lparr>fa_free := y\<rparr>) = free_set a"
  by (simp_all add: free_set_def)

lemma free_set_clear: "i < CAPACITY a \<Longrightarrow> free_set (clear_frame_bit a i) = insert i (free_set a)"
  by (auto simp: free_set_def frame_used_clear)

lemma free_set_set: "i < CAPACITY a \<Longrightarrow> free_set (set_frame_bit a i) = free_set a - {i}"
  by (auto simp: free_set_def frame_used_set)

lemma finite_free_set [simp]: "finite (free_set a)"
  by (simp add: free_set_def)

lemma card_free_set_le: "card (free_set a) \<le> CAPACITY a"
proof -
  have "free_set a \<subseteq> {..<CAPACITY a}" by (auto simp: free_set_def)
  from card_mono [OF finite_lessThan this] show ?thesis by simp
qed

lemma first_free_word_None: "first_free_word n ws = None \<longleftrightarrow> (\<forall>w \<in> set ws. w = - 1)"
  by (induction ws arbitrary: n) auto

lemma first_free_word_Some:
  "first_free_word n ws = Some k \<Longrightarrow>
     n \<le> k \<and> k < n + length ws \<and> ws ! (k - n) \<noteq> - 1 \<and> (\<forall>j. n \<le> j \<and> j < k \<longrightarrow> ws ! (j - n) = - 1)"
proof (induction ws arbitrary: n)
  case (Cons w ws)
  show ?case
  proof (cases "w = - 1")
    case True
    with Cons have IH: "Suc n \<le> k" "k < Suc n + length ws" "ws ! (k - Suc n) \<noteq> - 1"
      "\<forall>j. Suc n \<le> j \<and> j < k \<longrightarrow> ws ! (j - Suc n) = - 1" by force+
    have "(w # ws) ! (j - n) = - 1" if "n \<le> j" "j < k" for j
      using that IH(4) True by (cases "j = n") (auto simp: nth_Cons')
    with IH True show ?thesis by (auto simp: nth_Cons')
  next
    case False
    with Cons.prems show ?thesis by auto
  qed
qed simp

lemma trailing_ones_spec:
  assumes "w \<noteq> - 1"
  shows "trailing_ones w < 64" and "\<not> bit w (trailing_ones w)"
    and "b < trailing_ones w \<Longrightarrow> bit w b"
proof -
  let ?xs = "[0..<64] :: nat list"
  have "\<exists>b. b < 64 \<and> \<not> bit w b"
  proof (rule ccontr)
    assume "\<not> ?thesis"
    then have "w = - 1" by (intro bit_word_eqI) (auto simp: bit_simps)
    with assms show False ..
  qed
  then obtain b where "b \<in> set ?xs" "\<not> bit w b" by auto
  then have "takeWhile (bit w) ?xs \<noteq> ?xs" by (metis set_takeWhileD)
  then have lt: "length (takeWhile (bit w) ?xs) < length ?xs"
    by (metis le_neq_implies_less length_takeWhile_le takeWhile_eq_take take_all_iff order_refl)
  show "trailing_ones w < 64" using lt by (simp add: trailing_ones_def)
  show "\<not> bit w (trailing_ones w)"
    using nth_length_takeWhile [OF lt] lt by (simp add: trailing_ones_def)
  show "bit w b" if "b < trailing_ones w" for b
  proof -
    from that have "takeWhile (bit w) ?xs ! b = ?xs ! b" "b < 64"
      using lt by (simp_all add: trailing_ones_def takeWhile_nth)
    moreover from that have "takeWhile (bit w) ?xs ! b \<in> set (takeWhile (bit w) ?xs)"
      by (simp add: trailing_ones_def)
    ultimately show ?thesis by (auto dest: set_takeWhileD)
  qed
qed

text \<open>The scan computes the least free frame.\<close>

lemma alloc_index_Min:
  assumes "first_free_word 0 (fa_bitmap a) = Some wi"
  defines "i \<equiv> wi * 64 + trailing_ones (fa_bitmap a ! wi)"
  shows "i = Min (free_set a)" and "i \<in> free_set a"
proof -
  let ?w = "fa_bitmap a ! wi"
  from first_free_word_Some [OF assms(1)] have wi: "wi < length (fa_bitmap a)" "?w \<noteq> - 1"
    and before: "\<And>j. j < wi \<Longrightarrow> fa_bitmap a ! j = - 1" by auto
  note t = trailing_ones_spec [OF wi(2)]
  have i: "i div 64 = wi" "i mod 64 = trailing_ones ?w" using t(1) by (simp_all add: i_def)
  have "i < CAPACITY a" using wi(1) t(1) by (simp add: i_def CAPACITY_alt)
  with i t(2) show mem: "i \<in> free_set a" by (simp add: free_set_def frame_used_bit)
  have "frame_used a j" if "j < i" for j
  proof (cases "j div 64 < wi")
    case True
    then show ?thesis using before by (simp add: frame_used_bit bit_simps)
  next
    case False
    have "j div 64 \<le> i div 64" using that by (intro div_le_mono) simp
    with False i have eq: "j div 64 = wi" by simp
    have "j = j div 64 * 64 + j mod 64" by simp
    with eq that have "j mod 64 < trailing_ones ?w" by (simp add: i_def)
    with eq t(3) show ?thesis by (simp add: frame_used_bit)
  qed
  then have "i \<le> j" if "j \<in> free_set a" for j
    using that by (auto simp: free_set_def not_less [symmetric])
  with mem show "i = Min (free_set a)" by (intro Min_eqI [symmetric]) auto
qed

lemma free_set_empty_iff: "free_set a = {} \<longleftrightarrow> first_free_word 0 (fa_bitmap a) = None"
proof
  assume "first_free_word 0 (fa_bitmap a) = None"
  then have "\<forall>w \<in> set (fa_bitmap a). w = - 1" by (simp add: first_free_word_None)
  then have "fa_bitmap a ! (i div 64) = - 1" if "i < length (fa_bitmap a) * 64" for i
    using that by (meson less_mult_imp_div_less nth_mem)
  then show "free_set a = {}"
    by (auto simp: free_set_def frame_used_bit CAPACITY_alt bit_simps)
next
  assume "free_set a = {}"
  then show "first_free_word 0 (fa_bitmap a) = None"
    using alloc_index_Min(2) by (cases "first_free_word 0 (fa_bitmap a)") auto
qed

lemma alloc_frame_first_fit:
  "alloc_frame a =
     (if free_set a = {} then (None, a)
      else let i = Min (free_set a) in
        (Some (frame_addr a i), (set_frame_bit a i)\<lparr>fa_free := saturating_sub (fa_free a) 1\<rparr>))"
proof (cases "first_free_word 0 (fa_bitmap a)")
  case None
  then show ?thesis by (simp add: alloc_frame_def free_set_empty_iff)
next
  case (Some wi)
  let ?i = "wi * 64 + trailing_ones (fa_bitmap a ! wi)"
  have t: "trailing_ones (fa_bitmap a ! wi) < 64"
    using first_free_word_Some [OF Some] trailing_ones_spec(1) by simp
  have bit: "(set_frame_bit a ?i)\<lparr>fa_free := f\<rparr> =
      a\<lparr>fa_bitmap := (fa_bitmap a)[wi := fa_bitmap a ! wi OR push_bit (trailing_ones (fa_bitmap a ! wi)) 1],
        fa_free := f\<rparr>" for f
    using t by (simp add: set_frame_bit_def word_bit_split)
  from Some have "free_set a \<noteq> {}" by (simp add: free_set_empty_iff)
  then show ?thesis
    using Some bit
    by (simp add: alloc_frame_def FRAMES_PER_WORD_def frame_addr_def Let_def
        flip: alloc_index_Min(1) [OF Some])
qed

lemma frame_addr_facts:
  assumes "frame_inv a" and "i < CAPACITY a"
  shows "unat (phys_u64 (frame_addr a i)) = unat (fa_base a) + i * 4096"
    and "phys_u64 (frame_addr a i) mod FRAME_BYTES = 0"
    and "unat (frame_idx a (phys_u64 (frame_addr a i))) = i"
proof -
  have lt: "unat (fa_base a) + i * 4096 < 2 ^ 64"
    using assms by (auto simp: frame_inv_def intro: le_less_trans [rotated])
  have m: "unat (of_nat i * FRAME_BYTES :: u64) = i * 4096"
    using lt by (simp add: FRAME_BYTES_def unat_word_ariths unat_of_nat)
  then show u: "unat (phys_u64 (frame_addr a i)) = unat (fa_base a) + i * 4096"
    using lt by (simp add: frame_addr_def unat_word_ariths)
  have "unat (fa_base a) mod 4096 = 0"
    using assms(1) by (auto simp: frame_inv_def FRAME_BYTES_def word_unat_eq_iff unat_mod)
  then have "unat (phys_u64 (frame_addr a i)) mod 4096 = 0"
    unfolding u by (simp add: mod_add_left_eq [symmetric])
  then show "phys_u64 (frame_addr a i) mod FRAME_BYTES = 0"
    by (simp add: FRAME_BYTES_def word_unat_eq_iff unat_mod)
  show "unat (frame_idx a (phys_u64 (frame_addr a i))) = i"
    using u by (simp add: frame_idx_def FRAME_BYTES_def unat_div unat_saturating_sub)
qed

subsection \<open>Range marking\<close>

lemma mark_free_loop_spec:
  "CAPACITY (mark_free_loop a i n) = CAPACITY a \<and>
   fa_base (mark_free_loop a i n) = fa_base a \<and>
   free_set (mark_free_loop a i n) = free_set a \<union> {j. i \<le> j \<and> j < n \<and> j < CAPACITY a}"
proof (induction a i n rule: mark_free_loop.induct)
  case (1 a i n)
  show ?case
  proof (cases "i < n \<and> i < CAPACITY a")
    case True
    define a' where "a' = (if frame_used a i
      then (clear_frame_bit a i)\<lparr>fa_total := fa_total a + 1, fa_free := fa_free a + 1\<rparr> else a)"
    have "free_set a' = insert i (free_set a)"
      using True by (auto simp: a'_def free_set_clear) (simp add: free_set_def)
    moreover have "CAPACITY a' = CAPACITY a" "fa_base a' = fa_base a"
      by (simp_all add: a'_def clear_frame_bit_def split_def CAPACITY_def)
    moreover have "mark_free_loop a i n = mark_free_loop a' (Suc i) n"
      using True by (subst mark_free_loop.simps) (simp add: a'_def)
    moreover have "CAPACITY (mark_free_loop a' (Suc i) n) = CAPACITY a' \<and>
        fa_base (mark_free_loop a' (Suc i) n) = fa_base a' \<and>
        free_set (mark_free_loop a' (Suc i) n) = free_set a' \<union> {j. Suc i \<le> j \<and> j < n \<and> j < CAPACITY a'}"
      unfolding a'_def by (rule 1) (use True in auto)
    moreover have "insert i (free_set a) \<union> {j. Suc i \<le> j \<and> j < n \<and> j < CAPACITY a} =
        free_set a \<union> {j. i \<le> j \<and> j < n \<and> j < CAPACITY a}"
      using True by (auto simp: Suc_le_eq le_less)
    ultimately show ?thesis by simp
  next
    case False
    then have "mark_free_loop a i n = a" by (subst mark_free_loop.simps) auto
    with False show ?thesis by auto
  qed
qed

lemma mark_used_loop_spec:
  "CAPACITY (mark_used_loop a i n) = CAPACITY a \<and>
   fa_base (mark_used_loop a i n) = fa_base a \<and>
   free_set (mark_used_loop a i n) = free_set a - {j. i \<le> j \<and> j < n}"
proof (induction a i n rule: mark_used_loop.induct)
  case (1 a i n)
  show ?case
  proof (cases "i < n \<and> i < CAPACITY a")
    case True
    define a' where "a' = (if \<not> frame_used a i
      then (set_frame_bit a i)\<lparr>fa_free := saturating_sub (fa_free a) 1\<rparr> else a)"
    have "free_set a' = free_set a - {i}"
      using True by (auto simp: a'_def free_set_set) (simp add: free_set_def)
    moreover have "CAPACITY a' = CAPACITY a" "fa_base a' = fa_base a"
      by (simp_all add: a'_def set_frame_bit_def split_def CAPACITY_def)
    moreover have "mark_used_loop a i n = mark_used_loop a' (Suc i) n"
      using True by (subst mark_used_loop.simps) (simp add: a'_def)
    moreover have "CAPACITY (mark_used_loop a' (Suc i) n) = CAPACITY a' \<and>
        fa_base (mark_used_loop a' (Suc i) n) = fa_base a' \<and>
        free_set (mark_used_loop a' (Suc i) n) = free_set a' - {j. Suc i \<le> j \<and> j < n}"
      unfolding a'_def by (rule 1) (use True in auto)
    moreover have "free_set a - {i} - {j. Suc i \<le> j \<and> j < n} = free_set a - {j. i \<le> j \<and> j < n}"
      using True by (auto simp: Suc_le_eq le_less)
    ultimately show ?thesis by simp
  next
    case False
    then have "mark_used_loop a i n = a" by (subst mark_used_loop.simps) auto
    moreover from False have "free_set a \<inter> {j. i \<le> j \<and> j < n} = {}" by (auto simp: free_set_def)
    ultimately show ?thesis by auto
  qed
qed

subsection \<open>The invariant is kept by every operation\<close>

lemma free_counter_lt:
  assumes "frame_inv a" and "i < CAPACITY a" and "i \<notin> free_set a"
  shows "unat (fa_free a + 1) = card (insert i (free_set a))"
proof -
  have "insert i (free_set a) \<subseteq> {..<CAPACITY a}" using assms(2) by (auto simp: free_set_def)
  from card_mono [OF _ this] have "Suc (card (free_set a)) \<le> CAPACITY a" using assms(3) by simp
  with assms show ?thesis by (simp add: frame_inv_def unat_word_ariths)
qed

lemma frame_inv_clear:
  assumes "frame_inv a" and "i < CAPACITY a" and "frame_used a i"
  shows "frame_inv ((clear_frame_bit a i)\<lparr>fa_free := fa_free a + 1\<rparr>)"
    and "frame_inv ((clear_frame_bit a i)\<lparr>fa_total := t, fa_free := fa_free a + 1\<rparr>)"
proof -
  from assms(3) have "i \<notin> free_set a" by (simp add: free_set_def)
  note free_counter_lt [OF assms(1,2) this]
  then show "frame_inv ((clear_frame_bit a i)\<lparr>fa_free := fa_free a + 1\<rparr>)"
    "frame_inv ((clear_frame_bit a i)\<lparr>fa_total := t, fa_free := fa_free a + 1\<rparr>)"
    using assms(1,2) unfolding frame_inv_def
    by (simp_all add: free_set_clear) (simp_all add: clear_frame_bit_def split_def)
qed

lemma frame_inv_set:
  assumes "frame_inv a" and "i < CAPACITY a" and "\<not> frame_used a i"
  shows "frame_inv ((set_frame_bit a i)\<lparr>fa_free := saturating_sub (fa_free a) 1\<rparr>)"
proof -
  from assms(2,3) have "i \<in> free_set a" by (simp add: free_set_def)
  then show ?thesis
    using assms(1,2) unfolding frame_inv_def
    by (simp add: free_set_set unat_saturating_sub) (simp add: set_frame_bit_def split_def)
qed

lemma frame_inv_mark_free_loop: "frame_inv a \<Longrightarrow> frame_inv (mark_free_loop a i n)"
proof (induction a i n rule: mark_free_loop.induct)
  case (1 a i n)
  then show ?case
    by (subst mark_free_loop.simps) (auto simp: not_le frame_inv_clear)
qed

lemma frame_inv_mark_used_loop: "frame_inv a \<Longrightarrow> frame_inv (mark_used_loop a i n)"
proof (induction a i n rule: mark_used_loop.induct)
  case (1 a i n)
  then show ?case
    by (subst mark_used_loop.simps) (auto simp: not_le frame_inv_set)
qed

lemma Min_free_set: "free_set a \<noteq> {} \<Longrightarrow> Min (free_set a) \<in> free_set a"
  by simp

lemma frame_inv_alloc: "frame_inv a \<Longrightarrow> frame_inv (snd (alloc_frame a))"
  using Min_free_set [of a]
  by (auto simp: alloc_frame_first_fit Let_def free_set_def intro!: frame_inv_set)

lemma frame_inv_free: "frame_inv a \<Longrightarrow> frame_inv (snd (free_frame a p))"
  by (auto simp: free_frame_def Let_def not_le frame_inv_clear)

lemma frame_inv_new:
  assumes "phys_u64 base mod FRAME_BYTES = 0" and "unat (phys_u64 base) + n * 262144 < 2 ^ 64"
  shows "frame_inv (frame_alloc_new n base)"
proof -
  have "free_set (frame_alloc_new n base) = {}"
    by (auto simp: free_set_def frame_alloc_new_def frame_used_bit CAPACITY_alt bit_simps
        less_mult_imp_div_less)
  with assms show ?thesis
    by (simp add: frame_inv_def) (simp add: frame_alloc_new_def CAPACITY_alt)
qed

section \<open>Runs\<close>

datatype frame_op =
    FAlloc
  | FFree phys_addr
  | FMarkFree phys_addr u64
  | FMarkUsed phys_addr u64

fun frame_step :: "frame_alloc \<Rightarrow> frame_op \<Rightarrow> frame_alloc" where
  "frame_step a FAlloc = snd (alloc_frame a)"
| "frame_step a (FFree p) = snd (free_frame a p)"
| "frame_step a (FMarkFree p sz) = mark_range_free a p sz"
| "frame_step a (FMarkUsed p sz) = mark_range_used a p sz"

lemma frame_inv_step: "frame_inv a \<Longrightarrow> frame_inv (frame_step a x)"
  by (cases x)
    (simp_all add: frame_inv_alloc frame_inv_free mark_range_free_def mark_range_used_def Let_def
      frame_inv_mark_free_loop frame_inv_mark_used_loop)

interpretation frame_sys: op_system frame_step frame_inv
  by unfold_locales (rule frame_inv_step)

text \<open>
  After boot the usable regions are registered and only allocation, release and reservation
  happen. The run below records the frames handed out and not released.
\<close>

datatype live_op = LAlloc | LFree phys_addr | LReserve phys_addr u64

fun live_step :: "frame_alloc \<times> phys_addr list \<Rightarrow> live_op \<Rightarrow> frame_alloc \<times> phys_addr list" where
  "live_step (a, live) LAlloc =
     (case alloc_frame a of (r, a') \<Rightarrow> (a', case r of None \<Rightarrow> live | Some f \<Rightarrow> live @ [f]))"
| "live_step (a, live) (LFree p) =
     (case free_frame a p of (ok, a') \<Rightarrow> (a', if ok then removeAll p live else live))"
| "live_step (a, live) (LReserve p sz) = (mark_range_used a p sz, live)"

definition live_inv :: "frame_alloc \<times> phys_addr list \<Rightarrow> bool" where
  "live_inv = (\<lambda>(a, live). frame_inv a \<and> fa_base a = 0 \<and> distinct live \<and>
     set live \<subseteq> frame_addr a ` ({..<CAPACITY a} - free_set a))"

lemma frame_addr_inj:
  "frame_inv a \<Longrightarrow> i < CAPACITY a \<Longrightarrow> j < CAPACITY a \<Longrightarrow> frame_addr a i = frame_addr a j \<longleftrightarrow> i = j"
  using frame_addr_facts(3) by metis

lemma frame_addr_cong: "fa_base a' = fa_base a \<Longrightarrow> frame_addr a' = frame_addr a"
  by (auto simp: frame_addr_def fun_eq_iff)

lemma fa_base_bits [simp]:
  "fa_base (clear_frame_bit a i) = fa_base a" "fa_base (set_frame_bit a i) = fa_base a"
  by (simp_all add: clear_frame_bit_def set_frame_bit_def split_def)

lemma live_inv_alloc:
  assumes "live_inv (a, live)"
  shows "live_inv (live_step (a, live) LAlloc)"
proof (cases "free_set a = {}")
  case True
  with assms show ?thesis by (simp add: alloc_frame_first_fit)
next
  case False
  let ?i = "Min (free_set a)" let ?f = "frame_addr a ?i"
  let ?a = "(set_frame_bit a ?i)\<lparr>fa_free := saturating_sub (fa_free a) 1\<rparr>"
  from False have i: "?i \<in> free_set a" "?i < CAPACITY a"
    using Min_free_set by (auto simp: free_set_def)
  from assms have inv: "frame_inv a" and sub: "set live \<subseteq> frame_addr a ` ({..<CAPACITY a} - free_set a)"
    by (simp_all add: live_inv_def)
  have "?f \<notin> set live" using sub i frame_addr_inj [OF inv] by auto
  moreover have "frame_inv ?a" using frame_inv_alloc [OF inv] False by (simp add: alloc_frame_first_fit Let_def)
  moreover have "set (live @ [?f]) \<subseteq> frame_addr a ` ({..<CAPACITY a} - (free_set a - {?i}))"
    using sub i by auto
  ultimately show ?thesis
    using assms False i
    by (simp add: alloc_frame_first_fit Let_def live_inv_def free_set_set
        frame_addr_cong [of ?a a])
qed

text \<open>With the kernel's base address 0 an index is released only by its own address.\<close>

lemma frame_idx_base0:
  assumes "fa_base a = 0" and "p mod FRAME_BYTES = 0" and "unat (frame_idx a p) = i"
  shows "frame_addr a i = PhysAddr p"
proof -
  from assms(1,3) have i: "i = unat p div 4096"
    by (auto simp: frame_idx_def saturating_sub_def FRAME_BYTES_def unat_div)
  from assms(2) have "unat p mod 4096 = 0"
    by (simp add: FRAME_BYTES_def word_unat_eq_iff unat_mod)
  then have "i * 4096 = unat p" using i by (simp add: mult.commute mod_eq_0_iff_dvd)
  then have "of_nat (i * 4096) = p" by simp
  with assms(1) show ?thesis by (simp add: frame_addr_def FRAME_BYTES_def)
qed

lemma live_inv_free:
  assumes "live_inv (a, live)"
  shows "live_inv (live_step (a, live) (LFree p))"
proof (cases "fst (free_frame a p)")
  case True
  let ?i = "unat (frame_idx a (phys_u64 p))"
  from True have i: "phys_u64 p mod FRAME_BYTES = 0" "?i < CAPACITY a" "frame_used a ?i"
    and eq: "free_frame a p = (True, (clear_frame_bit a ?i)\<lparr>fa_free := fa_free a + 1\<rparr>)"
    by (auto simp: free_frame_def Let_def not_le split: if_splits)
  let ?a = "(clear_frame_bit a ?i)\<lparr>fa_free := fa_free a + 1\<rparr>"
  from assms have inv: "frame_inv a" and b: "fa_base a = 0"
    and sub: "set live \<subseteq> frame_addr a ` ({..<CAPACITY a} - free_set a)"
    by (simp_all add: live_inv_def)
  from frame_idx_base0 [OF b i(1) refl] have p: "frame_addr a ?i = p" by simp
  have "set live - {p} \<subseteq> frame_addr a ` ({..<CAPACITY a} - insert ?i (free_set a))"
    using sub p by auto
  then show ?thesis
    using assms frame_inv_free [OF inv, of p] eq i(2)
    by (simp add: live_inv_def free_set_clear frame_addr_cong [of ?a a] distinct_removeAll)
next
  case False
  then have "free_frame a p = (False, a)"
    by (auto simp: free_frame_def Let_def split: if_splits)
  with assms show ?thesis by simp
qed

lemma mark_range_used_loop: "\<exists>i n. mark_range_used a p sz = mark_used_loop a i n"
  unfolding mark_range_used_def Let_def by blast

lemma live_inv_reserve:
  assumes "live_inv (a, live)"
  shows "live_inv (live_step (a, live) (LReserve p sz))"
proof -
  obtain i n where a: "mark_range_used a p sz = mark_used_loop a i n"
    using mark_range_used_loop by blast
  let ?a = "mark_used_loop a i n"
  from mark_used_loop_spec [of a i n] have cap: "CAPACITY ?a = CAPACITY a"
    and base: "fa_base ?a = fa_base a" and free: "free_set ?a \<subseteq> free_set a" by auto
  from assms have live: "frame_inv a" "fa_base a = 0" "distinct live"
    "set live \<subseteq> frame_addr a ` ({..<CAPACITY a} - free_set a)"
    by (simp_all add: live_inv_def)
  note live(4)
  also have "frame_addr a ` ({..<CAPACITY a} - free_set a) \<subseteq>
      frame_addr ?a ` ({..<CAPACITY ?a} - free_set ?a)"
    unfolding cap frame_addr_cong [OF base] using free by (intro image_mono) blast
  finally show ?thesis
    using live(1-3) base frame_inv_mark_used_loop by (simp add: live_inv_def a)
qed

lemma live_inv_step: "live_inv s \<Longrightarrow> live_inv (live_step s x)"
  by (cases s; cases x)
    (auto intro: live_inv_alloc live_inv_free live_inv_reserve simp del: live_step.simps)

interpretation live_sys: op_system live_step live_inv
  by unfold_locales (rule live_inv_step)

lemma live_run_inv:
  "frame_inv a \<Longrightarrow> fa_base a = 0 \<Longrightarrow> live_inv (foldl live_step (a, []) ops)"
  by (rule live_sys.inv_run) (simp add: live_inv_def)

lemma clear_set_bit: "\<not> bit w b \<Longrightarrow> (w OR push_bit b 1) AND NOT (push_bit b 1) = (w :: u64)"
  by (rule bit_word_eqI) (auto simp: bit_simps)

lemma clear_set_frame_bit:
  "\<not> frame_used a i \<Longrightarrow> clear_frame_bit ((set_frame_bit a i)\<lparr>fa_free := n\<rparr>) i = a\<lparr>fa_free := n\<rparr>"
  by (cases "i div 64 < length (fa_bitmap a)")
    (simp_all add: clear_frame_bit_def set_frame_bit_def word_bit_split frame_used_bit
      clear_set_bit [unfolded push_bit_of_1] list_update_beyond)

lemma frame_used_set_self: "i < CAPACITY a \<Longrightarrow> frame_used (set_frame_bit a i) i"
  by (simp add: frame_used_set)

section \<open>Properties\<close>

text \<open>
  C20. Allocation is first fit. \<open>alloc_frame\<close> returns \<open>None\<close>, changing nothing, exactly when no
  frame is free; otherwise it returns the address of the least free frame, removes exactly that
  frame from the free set and decrements the free counter. The word-level scan (skip words that
  are all ones, then count the trailing ones) is equivalent to this reference description.
\<close>

theorem alloc_frame_is_first_fit:
  "alloc_frame a =
     (if free_set a = {} then (None, a)
      else let i = Min (free_set a) in
        (Some (PhysAddr (fa_base a + of_nat i * 4096)),
         (set_frame_bit a i)\<lparr>fa_free := saturating_sub (fa_free a) 1\<rparr>))
   \<and> free_set (snd (alloc_frame a)) = free_set a - {Min (free_set a)}"
proof -
  have "Min (free_set a) < CAPACITY a" if "free_set a \<noteq> {}"
    using Min_free_set [OF that] by (simp add: free_set_def)
  then show ?thesis
    by (simp add: alloc_frame_first_fit Let_def frame_addr_def FRAME_BYTES_def free_set_set)
qed

text \<open>
  C21. The free counter is exact. From any allocator whose counter equals the number of clear
  bits (a new one does), after any sequence of allocations, releases and range markings the
  counter still does, so \<open>free_frames\<close> never wraps and the saturating decrement never saturates.
\<close>

theorem free_counter_exact:
  assumes "frame_inv a"
  shows "frame_inv (foldl frame_step a ops)"
  by (rule frame_sys.inv_run [OF assms])

theorem free_counter_exact_witness:
  "frame_inv (foldl frame_step (frame_alloc_new 2 (PhysAddr 0))
     [FMarkFree (PhysAddr 0x1000) 0x80000, FAlloc, FMarkUsed (PhysAddr 0x2000) 0x1001, FFree (PhysAddr 0x1000)])"
  by (rule free_counter_exact [OF frame_inv_new]) (simp_all add: FRAME_BYTES_def)

text \<open>
  Freeing what was just allocated restores the allocator exactly: the release succeeds and
  bitmap and counters are what they were before the allocation.
\<close>

lemma alloc_free_round_trip:
  assumes inv: "frame_inv a" and al: "alloc_frame a = (Some f, a')"
  shows "free_frame a' f = (True, a)"
proof -
  let ?i = "Min (free_set a)"
  from al have ne: "free_set a \<noteq> {}" and f: "f = frame_addr a ?i"
    and a': "a' = (set_frame_bit a ?i)\<lparr>fa_free := saturating_sub (fa_free a) 1\<rparr>"
    by (auto simp: alloc_frame_first_fit Let_def split: if_splits)
  have i: "?i < CAPACITY a" "\<not> frame_used a ?i"
    using Min_free_set [OF ne] by (simp_all add: free_set_def)
  have "card (free_set a) \<noteq> 0" using ne by simp
  then have "unat (fa_free a) \<noteq> 0" using inv by (simp add: frame_inv_def)
  then have "fa_free a \<ge> 1" by (simp add: word_le_nat_alt)
  then have cnt: "saturating_sub (fa_free a) 1 + 1 = fa_free a"
    by (simp add: saturating_sub_def)
  have "frame_idx a' (phys_u64 f) = frame_idx a (phys_u64 f)" by (simp add: frame_idx_def a')
  then show ?thesis
    using i frame_addr_facts [OF inv i(1)] cnt
    by (simp add: free_frame_def Let_def f a' clear_set_frame_bit frame_used_set_self)
qed

definition two_free_frames :: frame_alloc where
  "two_free_frames = mark_range_free (frame_alloc_new 1 (PhysAddr 0)) (PhysAddr 0x3000) 0x2000"

lemma frame_alloc_new_facts:
  "CAPACITY (frame_alloc_new n base) = n * 64" "fa_base (frame_alloc_new n base) = phys_u64 base"
  "free_set (frame_alloc_new n base) = {}"
  by (auto simp: frame_alloc_new_def CAPACITY_alt free_set_def frame_used_bit bit_simps
      less_mult_imp_div_less)

lemma two_free_frames_facts:
  "free_set two_free_frames = {3, 4}" "CAPACITY two_free_frames = 64"
  "fa_base two_free_frames = 0" "frame_inv two_free_frames"
proof -
  let ?n = "frame_alloc_new 1 (PhysAddr 0)"
  have eq: "two_free_frames = mark_free_loop ?n 3 5"
    by (simp add: two_free_frames_def mark_range_free_def frame_idx_def FRAME_BYTES_def
        frame_alloc_new_facts saturating_sub_def saturating_add_def checked_add_def)
  show "CAPACITY two_free_frames = 64" "fa_base two_free_frames = 0"
    by (simp_all add: eq mark_free_loop_spec frame_alloc_new_facts)
  show "free_set two_free_frames = {3, 4}"
    unfolding eq mark_free_loop_spec [THEN conjunct2, THEN conjunct2] frame_alloc_new_facts by auto
  have "frame_inv ?n" by (rule frame_inv_new) (simp_all add: FRAME_BYTES_def)
  then show "frame_inv two_free_frames" unfolding eq by (rule frame_inv_mark_free_loop)
qed

lemma two_free_frames_alloc:
  "alloc_frame two_free_frames =
     (Some (PhysAddr 0x3000), (set_frame_bit two_free_frames 3)
        \<lparr>fa_free := saturating_sub (fa_free two_free_frames) 1\<rparr>)"
  by (simp add: alloc_frame_first_fit two_free_frames_facts frame_addr_def FRAME_BYTES_def)

lemma alloc_free_round_trip_witness:
  "\<exists>a'. alloc_frame two_free_frames = (Some (PhysAddr 0x3000), a') \<and>
        free_frame a' (PhysAddr 0x3000) = (True, two_free_frames)"
  using alloc_free_round_trip [OF two_free_frames_facts(4) two_free_frames_alloc]
    two_free_frames_alloc by blast

text \<open>
  C5. A frame is never handed out twice while live. With base address 0, as the kernel's global
  allocator has, after any interleaving of allocations, releases (of any addresses, including
  wrong ones) and reservations, the frames handed out and not released are pairwise distinct and
  the next allocation returns none of them.
\<close>

theorem live_frames_disjoint:
  assumes "frame_inv a" and "fa_base a = 0" and "foldl live_step (a, []) ops = (a', live)"
  shows "distinct live \<and> fst (alloc_frame a') \<notin> Some ` set live"
proof -
  from live_run_inv [OF assms(1,2), of ops] assms(3) have inv: "live_inv (a', live)" by simp
  have "distinct (snd (live_step (a', live) LAlloc))" "distinct live"
    using live_inv_step [OF inv, of LAlloc] inv by (auto simp: live_inv_def split_def)
  then show ?thesis by (auto split: prod.splits)
qed

theorem live_frames_disjoint_witness:
  "let (a', live) = foldl live_step (two_free_frames, []) [LAlloc, LReserve (PhysAddr 0) 0, LAlloc] in
     live = [PhysAddr 0x3000, PhysAddr 0x4000] \<and> distinct live \<and> fst (alloc_frame a') \<notin> Some ` set live"
proof -
  let ?ops = "[LAlloc, LReserve (PhysAddr 0) 0, LAlloc]"
  have none: "mark_range_used a (PhysAddr 0) 0 = a" for a
    by (simp add: mark_range_used_def Let_def div_ceil_def frame_idx_def saturating_sub_def FRAME_BYTES_def
        saturating_add_def checked_add_def) (subst mark_used_loop.simps, simp)
  have "snd (foldl live_step (two_free_frames, []) ?ops) = [PhysAddr 0x3000, PhysAddr 0x4000]"
    by (simp add: alloc_frame_first_fit two_free_frames_facts frame_addr_def FRAME_BYTES_def none
        free_set_set Let_def)
  then show ?thesis
    using live_frames_disjoint [OF two_free_frames_facts(4,3), of ?ops]
    by (cases "foldl live_step (two_free_frames, []) ?ops") simp
qed

text \<open>
  Reserving an unaligned range can leave its tail free: the start is rounded down and the size up,
  separately, so a range that crosses one frame boundary more than its size suggests keeps its
  last frame allocatable, although the comment says the entire containing frame is reserved.
\<close>

lemma mark_range_used_misses_tail:
  assumes "CAPACITY a = 64" and "fa_base a = 0" and "free_set a = {0, 1}"
  shows "free_set (mark_range_used a (PhysAddr 0x800) 0x1000) = {1}"
proof -
  have "mark_range_used a (PhysAddr 0x800) 0x1000 = mark_used_loop a 0 1"
    using assms(2)
    by (simp add: mark_range_used_def Let_def div_ceil_def frame_idx_def FRAME_BYTES_def
        saturating_sub_def saturating_add_def checked_add_def)
  then show ?thesis using mark_used_loop_spec [of a 0 1] assms by auto
qed

text \<open>
  An address below the base is not ignored: the subtraction saturates, and it acts on frame 0.
\<close>

lemma free_frame_below_base:
  "free_frame (frame_alloc_new 1 (PhysAddr 0x100000)) (PhysAddr 0) =
     (True, (clear_frame_bit (frame_alloc_new 1 (PhysAddr 0x100000)) 0)\<lparr>fa_free := 1\<rparr>)"
  by code_simp

end
