(* ===== verification/Capability_Scope.thy ===== *)
theory Capability_Scope
  imports Kernel_Prelude "HOL-Library.Sublist"
begin

text \<open>
  The scope vocabulary of the capability crate: \<open>nexacore-capability/src/scope.rs\<close> (actions,
  resources, time windows, caveats, scopes and their subset tests), \<open>ttl.rs\<close> (the
  issuance-relative validity window) and the scope half of \<open>attenuation.rs\<close> (caveat application
  and resource restriction). A Rust \<open>String\<close> is its UTF-8 byte sequence, a HOL \<open>string\<close>.

  Shown here: each syntactic subset test is compared with the set of concrete accesses a value
  grants, and attenuation is monotone in that semantics; the clock checks agree with the half-open
  interval they describe, overflow included.
\<close>

section \<open>Errors, identifiers, actions and resources\<close>

datatype capability_error_kind =
    Expired | NotYetValid | InvalidSignature | ScopeViolation | AttenuationViolation
  | AttestationMismatch | Revoked | MalformedToken

text \<open>\<open>NexaCoreError::capability(kind, context)\<close>; the other error families do not occur here.\<close>

datatype nexacore_error = Capability capability_error_kind string

datatype node_id = NodeId bytes
datatype model_id = ModelId bytes
datatype agent_id = AgentId bytes
datatype capability_id = CapabilityId (capability_bytes: bytes)

datatype action =
    Read | Write | Append | Execute | Delete | Connect | Listen | ModelInfer | ModelLoad
  | AgentSpawn | AgentSend | IpcSend | IpcRecv | MmioMap | DmaMap | IrqAttach
  | PciConfigRead | PciConfigWrite | DriverLoad | DriverUnload | TeeProbe | DisplayMap

datatype resource =
    Any
  | Filesystem string
  | Network string
  | Model model_id
  | Agent agent_id
  | Node node_id
  | IpcChannel u64
  | PciDevice u16 u8 u8 u8
  | MmioRegion u64 u64
  | DmaWindow u64 u64
  | IrqLine u16
  | Framebuffer u64 u64

section \<open>Subset tests\<close>

text \<open>\<open>u128\<close> sums of two \<open>u64\<close> values do not overflow, so they are taken in \<open>nat\<close>.\<close>

definition range_is_subset :: "u64 \<Rightarrow> u64 \<Rightarrow> u64 \<Rightarrow> u64 \<Rightarrow> bool" where
  "range_is_subset child_base child_len parent_base parent_len =
     (let child_end = unat child_base + unat child_len;
          parent_end = unat parent_base + unat parent_len
      in parent_base \<le> child_base \<and> child_end \<le> parent_end)"

text \<open>The standard library's \<open>str::strip_suffix\<close> and \<open>str::rsplit_once\<close>.\<close>

definition strip_suffix :: "string \<Rightarrow> string \<Rightarrow> string option" where
  "strip_suffix s suf = (if suffix suf s then Some (take (length s - length suf) s) else None)"

definition rsplit_once :: "string \<Rightarrow> char \<Rightarrow> (string \<times> string) option" where
  "rsplit_once s c =
     (if c \<in> set s
      then Some (rev (tl (dropWhile (\<lambda>x. x \<noteq> c) (rev s))), rev (takeWhile (\<lambda>x. x \<noteq> c) (rev s)))
      else None)"

definition path_is_subset :: "string \<Rightarrow> string \<Rightarrow> bool" where
  "path_is_subset a b =
     (case strip_suffix b ''/**'' of
        Some b_prefix \<Rightarrow>
          (case strip_suffix a ''/**'' of
             Some a_prefix \<Rightarrow> a_prefix = b_prefix \<or> prefix (b_prefix @ ''/'') a_prefix
           | None \<Rightarrow> a = b_prefix \<or> prefix (b_prefix @ ''/'') a)
      | None \<Rightarrow> a = b)"

definition endpoint_is_subset :: "string \<Rightarrow> string \<Rightarrow> bool" where
  "endpoint_is_subset a b =
     (case rsplit_once a CHR '':'' of
        None \<Rightarrow> False
      | Some (a_host, a_port) \<Rightarrow>
          (case rsplit_once b CHR '':'' of
             None \<Rightarrow> False
           | Some (b_host, b_port) \<Rightarrow>
               (b_host = ''*'' \<or> a_host = b_host) \<and> (b_port = ''0'' \<or> a_port = b_port)))"

definition resource_is_subset_of :: "resource \<Rightarrow> resource \<Rightarrow> bool" where
  "resource_is_subset_of self other =
     (case other of
        Any \<Rightarrow> True
      | Filesystem b \<Rightarrow> (case self of Filesystem a \<Rightarrow> path_is_subset a b | _ \<Rightarrow> False)
      | Network b \<Rightarrow> (case self of Network a \<Rightarrow> endpoint_is_subset a b | _ \<Rightarrow> False)
      | Model b \<Rightarrow> (case self of Model a \<Rightarrow> a = b | _ \<Rightarrow> False)
      | Agent b \<Rightarrow> (case self of Agent a \<Rightarrow> a = b | _ \<Rightarrow> False)
      | Node b \<Rightarrow> (case self of Node a \<Rightarrow> a = b | _ \<Rightarrow> False)
      | IpcChannel b \<Rightarrow> (case self of IpcChannel a \<Rightarrow> a = b | _ \<Rightarrow> False)
      | PciDevice _ _ _ _ \<Rightarrow> (case self of PciDevice _ _ _ _ \<Rightarrow> self = other | _ \<Rightarrow> False)
      | MmioRegion b_base b_len \<Rightarrow>
          (case self of MmioRegion a_base a_len \<Rightarrow> range_is_subset a_base a_len b_base b_len
           | _ \<Rightarrow> False)
      | DmaWindow b_base b_len \<Rightarrow>
          (case self of DmaWindow a_base a_len \<Rightarrow> range_is_subset a_base a_len b_base b_len
           | _ \<Rightarrow> False)
      | Framebuffer b_base b_len \<Rightarrow>
          (case self of Framebuffer a_base a_len \<Rightarrow> range_is_subset a_base a_len b_base b_len
           | _ \<Rightarrow> False)
      | IrqLine b \<Rightarrow> (case self of IrqLine a \<Rightarrow> a = b | _ \<Rightarrow> False))"

section \<open>Time windows\<close>

record time_window =
  not_before :: u64
  not_after :: u64

definition time_window_new :: "u64 \<Rightarrow> u64 \<Rightarrow> time_window option" where
  "time_window_new nb na =
     (if nb \<le> na then Some \<lparr>not_before = nb, not_after = na\<rparr> else None)"

definition window_contains :: "time_window \<Rightarrow> u64 \<Rightarrow> bool" where
  "window_contains w now \<longleftrightarrow> not_before w \<le> now \<and> now < not_after w"

definition window_is_subset_of :: "time_window \<Rightarrow> time_window \<Rightarrow> bool" where
  "window_is_subset_of w v \<longleftrightarrow> not_before v \<le> not_before w \<and> not_after w \<le> not_after v"

text \<open>The workspace builds with overflow checks in every profile: the subtraction panics on an inverted window.\<close>

definition duration_secs :: "time_window \<Rightarrow> u64 option" where
  "duration_secs w = (if not_before w \<le> not_after w then Some (not_after w - not_before w) else None)"

section \<open>Caveats and scopes\<close>

datatype caveat =
    ExpiresAt u64
  | NotBefore u64
  | BoundToNode node_id
  | BoundToSession bytes
  | Custom string bytes

record scope =
  sc_action :: action
  sc_resource :: resource
  sc_window :: time_window
  sc_caveats :: "caveat list"

definition scope_is_subset_of :: "scope \<Rightarrow> scope \<Rightarrow> bool" where
  "scope_is_subset_of s t =
     (if sc_action s \<noteq> sc_action t then False
      else if \<not> resource_is_subset_of (sc_resource s) (sc_resource t) then False
      else if \<not> window_is_subset_of (sc_window s) (sc_window t) then False
      else list_all (\<lambda>c. c \<in> set (sc_caveats s)) (sc_caveats t))"

section \<open>Attenuation of scopes\<close>

definition apply_caveat :: "scope \<Rightarrow> caveat \<Rightarrow> nexacore_error + scope" where
  "apply_caveat s c =
     (let w = sc_window s;
          w' = (case c of
                  ExpiresAt t \<Rightarrow> if t < not_after w then w\<lparr>not_after := t\<rparr> else w
                | NotBefore t \<Rightarrow> if not_before w < t then w\<lparr>not_before := t\<rparr> else w
                | BoundToNode _ \<Rightarrow> w
                | BoundToSession _ \<Rightarrow> w
                | Custom _ _ \<Rightarrow> w);
          child = s\<lparr>sc_window := w'\<rparr>
      in if not_after w' < not_before w'
         then Inl (Capability AttenuationViolation ''attenuation::apply_caveat::window_inverted'')
         else
           let child = (if c \<in> set (sc_caveats child) then child
                        else child\<lparr>sc_caveats := sc_caveats child @ [c]\<rparr>)
           in if \<not> scope_is_subset_of child s
              then Inl (Capability AttenuationViolation ''attenuation::apply_caveat::invariant_broken'')
              else Inr child)"

fun apply_caveats :: "scope \<Rightarrow> caveat list \<Rightarrow> nexacore_error + scope" where
  "apply_caveats current [] = Inr current"
| "apply_caveats current (c # cs) =
     (case apply_caveat current c of Inl e \<Rightarrow> Inl e | Inr s \<Rightarrow> apply_caveats s cs)"

definition restrict_resource :: "scope \<Rightarrow> resource \<Rightarrow> nexacore_error + scope" where
  "restrict_resource s r =
     (if \<not> resource_is_subset_of r (sc_resource s)
      then Inl (Capability AttenuationViolation ''attenuation::restrict_resource::not_a_subset'')
      else Inr (s\<lparr>sc_resource := r\<rparr>))"

section \<open>Issuance-relative validity\<close>

record validity_window =
  issued_at :: u64
  ttl_secs :: u64

definition validity_window_new :: "u64 \<Rightarrow> u64 \<Rightarrow> validity_window" where
  "validity_window_new iat ttl = \<lparr>issued_at = iat, ttl_secs = ttl\<rparr>"

definition validity_not_after :: "validity_window \<Rightarrow> u64 option" where
  "validity_not_after v = checked_add (issued_at v) (ttl_secs v)"

definition is_valid_at :: "validity_window \<Rightarrow> u64 \<Rightarrow> bool" where
  "is_valid_at v now =
     (case validity_not_after v of
        Some na \<Rightarrow> issued_at v \<le> now \<and> now < na
      | None \<Rightarrow> False)"

definition check_at :: "validity_window \<Rightarrow> u64 \<Rightarrow> nexacore_error + unit" where
  "check_at v now =
     (case validity_not_after v of
        None \<Rightarrow> Inl (Capability MalformedToken ''ttl::check_at::overflow'')
      | Some na \<Rightarrow>
          if now < issued_at v then Inl (Capability NotYetValid ''ttl::check_at::not_before'')
          else if na \<le> now then Inl (Capability Expired ''ttl::check_at::expired'')
          else Inr ())"

text \<open>The \<open>Clock\<close> trait is its one reading: an error or an instant.\<close>

definition validity_check :: "validity_window \<Rightarrow> nexacore_error + u64 \<Rightarrow> nexacore_error + unit" where
  "validity_check v clock =
     (case clock of
        Inl _ \<Rightarrow> Inl (Capability Expired ''ttl::check::clock_unavailable'')
      | Inr now \<Rightarrow> check_at v now)"

definition to_time_window :: "validity_window \<Rightarrow> time_window option" where
  "to_time_window v =
     (case validity_not_after v of None \<Rightarrow> None | Some na \<Rightarrow> time_window_new (issued_at v) na)"

section \<open>What resources and scopes grant\<close>

text \<open>
  The reference semantics. An access is one concrete thing a request touches: a path, a host and
  port, a device, one byte of a physical or IOVA range. A resource grants a set of accesses.
\<close>

datatype access =
    AFile string
  | ANet string string
  | AModel model_id
  | AAgent agent_id
  | ANode node_id
  | AChannel u64
  | APci u16 u8 u8 u8
  | AMmio nat
  | ADma nat
  | AIrq u16
  | AFramebuffer nat

definition path_grants :: "string \<Rightarrow> string set" where
  "path_grants pat =
     (case strip_suffix pat ''/**'' of
        Some pre \<Rightarrow> {p. p = pre \<or> prefix (pre @ ''/'') p}
      | None \<Rightarrow> {pat})"

definition endpoint_grants :: "string \<Rightarrow> (string \<times> string) set" where
  "endpoint_grants e =
     (case rsplit_once e CHR '':'' of
        None \<Rightarrow> {}
      | Some (host, port) \<Rightarrow> {(h, p). (host = ''*'' \<or> h = host) \<and> (port = ''0'' \<or> p = port)})"

definition range_grants :: "u64 \<Rightarrow> u64 \<Rightarrow> nat set" where
  "range_grants base len = {unat base ..< unat base + unat len}"

fun resource_grants :: "resource \<Rightarrow> access set" where
  "resource_grants Any = UNIV"
| "resource_grants (Filesystem p) = AFile ` path_grants p"
| "resource_grants (Network e) = (\<lambda>(h, p). ANet h p) ` endpoint_grants e"
| "resource_grants (Model m) = {AModel m}"
| "resource_grants (Agent a) = {AAgent a}"
| "resource_grants (Node n) = {ANode n}"
| "resource_grants (IpcChannel c) = {AChannel c}"
| "resource_grants (PciDevice s b d f) = {APci s b d f}"
| "resource_grants (MmioRegion b l) = AMmio ` range_grants b l"
| "resource_grants (DmaWindow b l) = ADma ` range_grants b l"
| "resource_grants (IrqLine n) = {AIrq n}"
| "resource_grants (Framebuffer b l) = AFramebuffer ` range_grants b l"

text \<open>
  A request is an action, an access, an instant and a context in which the caveats that are
  checked at use time are evaluated; how they are evaluated is a parameter.
\<close>

fun caveat_holds :: "(caveat \<Rightarrow> 'ctx \<Rightarrow> bool) \<Rightarrow> u64 \<Rightarrow> 'ctx \<Rightarrow> caveat \<Rightarrow> bool" where
  "caveat_holds pred now ctx (ExpiresAt t) = (now < t)"
| "caveat_holds pred now ctx (NotBefore t) = (t \<le> now)"
| "caveat_holds pred now ctx c = pred c ctx"

definition satisfying ::
  "(caveat \<Rightarrow> 'ctx \<Rightarrow> bool) \<Rightarrow> caveat list \<Rightarrow> (action \<times> access \<times> u64 \<times> 'ctx) set" where
  "satisfying pred cs = {(act, acc, now, ctx). list_all (caveat_holds pred now ctx) cs}"

definition authorises ::
  "(caveat \<Rightarrow> 'ctx \<Rightarrow> bool) \<Rightarrow> scope \<Rightarrow> (action \<times> access \<times> u64 \<times> 'ctx) set" where
  "authorises pred s =
     {(act, acc, now, ctx). act = sc_action s \<and> acc \<in> resource_grants (sc_resource s) \<and>
        window_contains (sc_window s) now} \<inter> satisfying pred (sc_caveats s)"

section \<open>The restriction interface\<close>

text \<open>
  What every subset test of the crate promises: it is transitive, and passing it means granting no
  more. A chain of restrictions then grants no more than its root.
\<close>

locale restriction_order =
  fixes sub :: "'a \<Rightarrow> 'a \<Rightarrow> bool"
    and grants :: "'a \<Rightarrow> 'r set"
  assumes sound: "sub a b \<Longrightarrow> grants a \<subseteq> grants b"
    and trans: "sub a b \<Longrightarrow> sub b c \<Longrightarrow> sub a c"
begin

lemma chain_sub: "successively (\<lambda>p c. sub c p) (x # y # ys) \<Longrightarrow> sub (last (y # ys)) x"
proof (induction ys arbitrary: x y)
  case (Cons z zs)
  then have "sub z x" by (auto intro: trans)
  with Cons show ?case by simp
qed simp

lemma chain_grants: "successively (\<lambda>p c. sub c p) (x # ys) \<Longrightarrow> grants (last (x # ys)) \<subseteq> grants x"
proof (cases ys)
  case (Cons y zs)
  assume "successively (\<lambda>p c. sub c p) (x # ys)"
  with Cons have "sub (last (y # zs)) x" by (simp only: chain_sub)
  with Cons show ?thesis using sound by simp
qed simp

end

section \<open>Lemmas\<close>

lemma strip_suffix_Some: "strip_suffix s suf = Some p \<longleftrightarrow> s = p @ suf"
  by (auto simp: strip_suffix_def suffix_def)

lemma strip_suffix_None: "strip_suffix s suf = None \<longleftrightarrow> \<not> suffix suf s"
  by (simp add: strip_suffix_def)

lemma path_is_subset_iff: "path_is_subset a b \<longleftrightarrow> path_grants a \<subseteq> path_grants b"
proof (cases "strip_suffix b ''/**''")
  case None
  show ?thesis
  proof (cases "strip_suffix a ''/**''")
    case (Some ap)
    then have "ap \<in> path_grants a" "ap @ ''/'' \<in> path_grants a" by (auto simp: path_grants_def)
    moreover have "path_grants b = {b}" "a \<noteq> b" using None Some by (auto simp: path_grants_def)
    ultimately have "\<not> path_grants a \<subseteq> path_grants b" by (metis append_self_conv list.distinct(1) singletonD subsetD)
    then show ?thesis using None \<open>a \<noteq> b\<close> by (simp add: path_is_subset_def)
  qed (auto simp: path_is_subset_def path_grants_def None)
next
  case (Some bp)
  show ?thesis
  proof (cases "strip_suffix a ''/**''")
    case (Some ap)
    with \<open>strip_suffix b _ = Some bp\<close> show ?thesis
      by (auto simp: path_is_subset_def path_grants_def intro: prefix_order.order_trans prefix_prefix)
  qed (auto simp: path_is_subset_def path_grants_def Some)
qed

lemma endpoint_is_subset_iff:
  "endpoint_is_subset a b \<longleftrightarrow> endpoint_grants a \<noteq> {} \<and> endpoint_grants a \<subseteq> endpoint_grants b"
  by (auto simp: endpoint_is_subset_def endpoint_grants_def subset_iff split: option.splits)

lemma range_is_subset_grants:
  "range_is_subset a l b m \<Longrightarrow> range_grants a l \<subseteq> range_grants b m"
  "range_grants a l \<noteq> {} \<Longrightarrow> range_grants a l \<subseteq> range_grants b m \<Longrightarrow> range_is_subset a l b m"
  by (auto simp: range_is_subset_def range_grants_def word_le_nat_alt ivl_subset)

lemma resource_subset_grants:
  "resource_is_subset_of r s \<Longrightarrow> resource_grants r \<subseteq> resource_grants s"
  by (cases s; cases r)
    (auto simp: resource_is_subset_of_def path_is_subset_iff endpoint_is_subset_iff
      dest: range_is_subset_grants(1))

lemma image_sub:
  "AFile ` A \<subseteq> AFile ` B \<longleftrightarrow> A \<subseteq> B"
  "(\<lambda>(h, p). ANet h p) ` C \<subseteq> (\<lambda>(h, p). ANet h p) ` D \<longleftrightarrow> C \<subseteq> D"
  "AMmio ` E \<subseteq> AMmio ` F \<longleftrightarrow> E \<subseteq> F"
  "ADma ` E \<subseteq> ADma ` F \<longleftrightarrow> E \<subseteq> F"
  "AFramebuffer ` E \<subseteq> AFramebuffer ` F \<longleftrightarrow> E \<subseteq> F"
  by (auto simp: inj_image_subset_iff inj_on_def)

lemma grants_not_UNIV: "AFile ` A \<noteq> UNIV" "(\<lambda>(h, p). ANet h p) ` C \<noteq> UNIV" "{x} \<noteq> (UNIV :: access set)"
  "AMmio ` E \<noteq> UNIV" "ADma ` E \<noteq> UNIV" "AFramebuffer ` E \<noteq> UNIV"
proof -
  show "AFile ` A \<noteq> UNIV" using UNIV_I [of "AIrq 0"] by blast
  show "(\<lambda>(h, p). ANet h p) ` C \<noteq> UNIV" using UNIV_I [of "AIrq 0"] by fastforce
  show "AMmio ` E \<noteq> UNIV" using UNIV_I [of "AIrq 0"] by blast
  show "ADma ` E \<noteq> UNIV" using UNIV_I [of "AIrq 0"] by blast
  show "AFramebuffer ` E \<noteq> UNIV" using UNIV_I [of "AIrq 0"] by blast
  show "{x} \<noteq> (UNIV :: access set)" by (metis UNIV_I access.distinct(1) singletonD)
qed

lemma top_access_le: "(UNIV :: access set) \<subseteq> A \<longleftrightarrow> A = UNIV"
  by auto

lemma grants_subset_resource:
  assumes "resource_grants r \<noteq> {}" and "resource_grants r \<subseteq> resource_grants s"
  shows "resource_is_subset_of r s"
proof (cases s)
  case Any
  then show ?thesis by (simp add: resource_is_subset_of_def)
next
  case (Filesystem p)
  with assms show ?thesis
    by (cases r) (auto simp: resource_is_subset_of_def path_is_subset_iff image_sub top_access_le
        grants_not_UNIV)
next
  case (Network p)
  with assms show ?thesis
    by (cases r) (auto simp: resource_is_subset_of_def endpoint_is_subset_iff image_sub top_access_le
        grants_not_UNIV)
next
  case (MmioRegion b l)
  with assms show ?thesis
    by (cases r) (auto simp: resource_is_subset_of_def image_sub top_access_le grants_not_UNIV
        intro: range_is_subset_grants(2))
next
  case (DmaWindow b l)
  with assms show ?thesis
    by (cases r) (auto simp: resource_is_subset_of_def image_sub top_access_le grants_not_UNIV
        intro: range_is_subset_grants(2))
next
  case (Framebuffer b l)
  with assms show ?thesis
    by (cases r) (auto simp: resource_is_subset_of_def image_sub top_access_le grants_not_UNIV
        intro: range_is_subset_grants(2))
qed (use assms in \<open>cases r; auto simp: resource_is_subset_of_def top_access_le grants_not_UNIV\<close>)+

lemma resource_subset_trans:
  "resource_is_subset_of r s \<Longrightarrow> resource_is_subset_of s t \<Longrightarrow> resource_is_subset_of r t"
proof (cases "resource_grants r = {}")
  case False
  assume "resource_is_subset_of r s" "resource_is_subset_of s t"
  then have "resource_grants r \<subseteq> resource_grants t" by (blast dest: resource_subset_grants)
  with False show ?thesis by (rule grants_subset_resource)
next
  case True
  assume "resource_is_subset_of r s" "resource_is_subset_of s t"
  with True show ?thesis
    by (cases t; cases s; cases r)
      (auto simp: resource_is_subset_of_def endpoint_is_subset_iff path_is_subset_iff range_is_subset_def)
qed

interpretation resource_order: restriction_order resource_is_subset_of resource_grants
  by unfold_locales (fact resource_subset_grants, fact resource_subset_trans)

interpretation window_order: restriction_order window_is_subset_of "\<lambda>w. {now. window_contains w now}"
  by unfold_locales (auto simp: window_is_subset_of_def window_contains_def)

lemma scope_subset_iff:
  "scope_is_subset_of s t \<longleftrightarrow> sc_action s = sc_action t \<and>
     resource_is_subset_of (sc_resource s) (sc_resource t) \<and>
     window_is_subset_of (sc_window s) (sc_window t) \<and> set (sc_caveats t) \<subseteq> set (sc_caveats s)"
  by (auto simp: scope_is_subset_of_def list_all_iff)

lemma scope_subset_authorises: "scope_is_subset_of s t \<Longrightarrow> authorises pred s \<subseteq> authorises pred t"
  using resource_order.sound window_order.sound
  by (fastforce simp: scope_subset_iff authorises_def satisfying_def list_all_iff)

interpretation scope_order: restriction_order scope_is_subset_of "authorises pred" for pred
proof
  show "scope_is_subset_of a c" if "scope_is_subset_of a b" "scope_is_subset_of b c" for a b c
    using that by (auto simp: scope_subset_iff intro: resource_order.trans window_order.trans)
qed (rule scope_subset_authorises)

subsection \<open>Caveat application\<close>

text \<open>What a caveat does to the window, and the caveat list with the new caveat appended once.\<close>

fun narrow :: "time_window \<Rightarrow> caveat \<Rightarrow> time_window" where
  "narrow w (ExpiresAt t) = w\<lparr>not_after := min (not_after w) t\<rparr>"
| "narrow w (NotBefore t) = w\<lparr>not_before := max (not_before w) t\<rparr>"
| "narrow w c = w"

definition child_scope :: "scope \<Rightarrow> caveat \<Rightarrow> scope" where
  "child_scope s c = s\<lparr>sc_window := narrow (sc_window s) c,
     sc_caveats := (if c \<in> set (sc_caveats s) then sc_caveats s else sc_caveats s @ [c])\<rparr>"

lemma narrow_subset: "window_is_subset_of (narrow w c) w"
  by (cases c) (auto simp: window_is_subset_of_def)

lemma narrow_fold_inverted:
  "not_after w < not_before w \<Longrightarrow> not_after (foldl narrow w cs) < not_before (foldl narrow w cs)"
proof (induction cs arbitrary: w)
  case (Cons c cs)
  have "not_after (narrow w c) < not_before (narrow w c)"
    using Cons.prems by (cases c) (auto simp: min_less_iff_disj less_max_iff_disj)
  with Cons.IH show ?case by simp
qed simp

lemma apply_caveat_eq:
  "apply_caveat s c =
     (if not_after (narrow (sc_window s) c) < not_before (narrow (sc_window s) c)
      then Inl (Capability AttenuationViolation ''attenuation::apply_caveat::window_inverted'')
      else if \<not> resource_is_subset_of (sc_resource s) (sc_resource s)
      then Inl (Capability AttenuationViolation ''attenuation::apply_caveat::invariant_broken'')
      else Inr (child_scope s c))"
proof -
  have n: "(case c of
      ExpiresAt t \<Rightarrow> if t < not_after w then w\<lparr>not_after := t\<rparr> else w
    | NotBefore t \<Rightarrow> if not_before w < t then w\<lparr>not_before := t\<rparr> else w
    | BoundToNode _ \<Rightarrow> w | BoundToSession _ \<Rightarrow> w | Custom _ _ \<Rightarrow> w) = narrow w c" for w
    by (cases c) (auto simp: min_def max_def)
  have "scope_is_subset_of (child_scope s c) s \<longleftrightarrow> resource_is_subset_of (sc_resource s) (sc_resource s)"
    using narrow_subset by (auto simp: scope_subset_iff child_scope_def)
  then show ?thesis
    by (cases "c \<in> set (sc_caveats s)") (simp_all add: apply_caveat_def Let_def n child_scope_def)
qed

lemma child_scope_simps [simp]:
  "sc_window (child_scope s c) = narrow (sc_window s) c"
  "sc_resource (child_scope s c) = sc_resource s" "sc_action (child_scope s c) = sc_action s"
  "set (sc_caveats (child_scope s c)) = insert c (set (sc_caveats s))"
  by (auto simp: child_scope_def)

lemma narrow_contains:
  "window_contains (narrow w c) now \<and> caveat_holds pred now ctx c \<longleftrightarrow>
   window_contains w now \<and> caveat_holds pred now ctx c"
  by (cases c) (auto simp: window_contains_def)

lemma satisfying_Cons: "satisfying pred (c # cs) = satisfying pred [c] \<inter> satisfying pred cs"
  by (auto simp: satisfying_def)

lemma authorises_child: "authorises pred (child_scope s c) = authorises pred s \<inter> satisfying pred [c]"
  using narrow_contains by (fastforce simp: authorises_def satisfying_def list_all_iff)

lemma apply_caveats_ok:
  "apply_caveats s cs = Inr s' \<Longrightarrow>
     authorises pred s' = authorises pred s \<inter> satisfying pred cs \<and>
     sc_window s' = foldl narrow (sc_window s) cs \<and> sc_action s' = sc_action s \<and>
     sc_resource s' = sc_resource s \<and> set (sc_caveats s') = set (sc_caveats s) \<union> set cs"
proof (induction cs arbitrary: s)
  case Nil
  then show ?case by (auto simp: satisfying_def)
next
  case (Cons c cs)
  then have "apply_caveats (child_scope s c) cs = Inr s'"
    by (auto simp: apply_caveat_eq split: if_splits)
  from Cons.IH [OF this] show ?case
    by (auto simp: authorises_child satisfying_Cons [of pred c cs])
qed

lemma apply_caveats_err: "apply_caveats s cs = Inl e \<Longrightarrow> \<exists>why. e = Capability AttenuationViolation why"
  by (induction s cs rule: apply_caveats.induct)
    (auto simp: apply_caveat_def Let_def split: sum.splits if_splits)

lemma finite_caveat_bounds [simp]: "finite {t. NotBefore t \<in> set cs}" "finite {t. ExpiresAt t \<in> set cs}"
  using finite_vimageI [of "set cs" NotBefore] finite_vimageI [of "set cs" ExpiresAt]
  by (simp_all add: vimage_def inj_def)

lemma narrow_fold_bounds:
  "foldl narrow w cs = \<lparr>not_before = Max (insert (not_before w) {t. NotBefore t \<in> set cs}),
     not_after = Min (insert (not_after w) {t. ExpiresAt t \<in> set cs})\<rparr>"
proof (induction cs rule: rev_induct)
  case (snoc c cs)
  let ?B = "\<lambda>cs. insert (not_before w) {t. NotBefore t \<in> set cs}" and ?A = "\<lambda>cs. insert (not_after w) {t. ExpiresAt t \<in> set cs}"
  have sets: "?B (cs @ [c]) = (case c of NotBefore t \<Rightarrow> insert t (?B cs) | _ \<Rightarrow> ?B cs)"
    "?A (cs @ [c]) = (case c of ExpiresAt t \<Rightarrow> insert t (?A cs) | _ \<Rightarrow> ?A cs)"
    by (auto split: caveat.splits)
  have "Max (insert t (?B cs)) = max (Max (?B cs)) t" "Min (insert t (?A cs)) = min (Min (?A cs)) t" for t
    by (subst Max_insert Min_insert; simp only: max.commute min.commute finite_insert finite_caveat_bounds insert_not_empty not_False_eq_True)+
  with snoc show ?case
    unfolding sets by (cases c) (simp_all del: Max_insert Min_insert)
qed simp

lemma apply_caveats_is_ok:
  "is_ok (apply_caveats s cs) \<longleftrightarrow> cs = [] \<or>
     resource_is_subset_of (sc_resource s) (sc_resource s) \<and>
     not_before (foldl narrow (sc_window s) cs) \<le> not_after (foldl narrow (sc_window s) cs)"
proof (induction cs arbitrary: s)
  case (Cons c cs)
  show ?case
  proof (cases "not_after (narrow (sc_window s) c) < not_before (narrow (sc_window s) c)")
    case True
    then show ?thesis using narrow_fold_inverted [OF True, of cs] by (auto simp: apply_caveat_eq)
  next
    case False
    then show ?thesis using Cons.IH [of "child_scope s c"] by (auto simp: apply_caveat_eq)
  qed
qed simp

section \<open>Properties\<close>

text \<open>
  C9. The resource subset test is exact. For a resource that grants at least one access,
  \<open>is_subset_of\<close> answers yes exactly when every access it grants is granted by the other resource:
  the glob, wildcard and range comparisons neither admit an escalation nor refuse a restriction.
\<close>

theorem resource_subset_exact:
  assumes "resource_grants r \<noteq> {}"
  shows "resource_is_subset_of r s \<longleftrightarrow> resource_grants r \<subseteq> resource_grants s"
  using assms grants_subset_resource resource_subset_grants by blast

theorem resource_subset_exact_witness:
  "resource_grants (Filesystem ''/data/x/**'') \<noteq> {} \<and>
   resource_grants (Filesystem ''/data/x/**'') \<subseteq> resource_grants (Filesystem ''/data/**'') \<and>
   \<not> resource_grants (Filesystem ''/data/x/**'') \<subseteq> resource_grants (Filesystem ''/dat/**'')"
proof -
  have ne: "resource_grants (Filesystem ''/data/x/**'') \<noteq> {}"
    by (simp add: path_grants_def split: option.splits) blast
  have "resource_is_subset_of (Filesystem ''/data/x/**'') (Filesystem ''/data/**'')"
    "\<not> resource_is_subset_of (Filesystem ''/data/x/**'') (Filesystem ''/dat/**'')" by code_simp+
  with resource_subset_exact [OF ne] ne show ?thesis by blast
qed

text \<open>
  C22. Attenuation by caveats, on every branch. Let \<open>nb\<close> be the latest of the parent's start and
  the \<open>NotBefore\<close> instants, \<open>na\<close> the earliest of its end and the \<open>ExpiresAt\<close> instants. A list of caveats is
  applied successfully if and only if it is empty, or the parent's resource passes the subset
  test against itself and \<open>nb\<close> is not after \<open>na\<close>; every failure is an attenuation violation. The
  child's window, which is what the verifiers enforce, is exactly from \<open>nb\<close> to \<open>na\<close>; its caveats
  are the parent's and the new ones; action and resource are the parent's; and it authorises
  exactly the requests the parent authorises that satisfy every new caveat, whatever the
  evaluation of the caveats that are checked at use.
\<close>

theorem apply_caveats_exact:
  "let nb = Max (insert (not_before (sc_window s)) {t. NotBefore t \<in> set cs});
       na = Min (insert (not_after (sc_window s)) {t. ExpiresAt t \<in> set cs})
   in (is_ok (apply_caveats s cs) \<longleftrightarrow>
         cs = [] \<or> resource_is_subset_of (sc_resource s) (sc_resource s) \<and> nb \<le> na) \<and>
      (case apply_caveats s cs of
         Inl e \<Rightarrow> \<exists>why. e = Capability AttenuationViolation why
       | Inr child \<Rightarrow>
           sc_window child = \<lparr>not_before = nb, not_after = na\<rparr> \<and>
           set (sc_caveats child) = set (sc_caveats s) \<union> set cs \<and>
           sc_action child = sc_action s \<and> sc_resource child = sc_resource s \<and>
           authorises pred child = authorises pred s \<inter> satisfying pred cs)"
proof -
  let ?w = "foldl narrow (sc_window s) cs"
  have "case apply_caveats s cs of
         Inl e \<Rightarrow> \<exists>why. e = Capability AttenuationViolation why
       | Inr child \<Rightarrow> sc_window child = ?w \<and> set (sc_caveats child) = set (sc_caveats s) \<union> set cs \<and>
           sc_action child = sc_action s \<and> sc_resource child = sc_resource s \<and>
           authorises pred child = authorises pred s \<inter> satisfying pred cs"
  proof (cases "apply_caveats s cs")
    case (Inl e)
    with apply_caveats_err [OF Inl] show ?thesis by simp
  next
    case (Inr child)
    from apply_caveats_ok [OF Inr, of pred] show ?thesis unfolding Inr sum.case by blast
  qed
  then show ?thesis
    using apply_caveats_is_ok [of s cs] unfolding Let_def narrow_fold_bounds by (simp only: time_window.select_convs simp_thms)
qed

theorem apply_caveats_exact_witness:
  "case apply_caveats \<lparr>sc_action = Read, sc_resource = Any, sc_window = \<lparr>not_before = 0, not_after = 100\<rparr>,
      sc_caveats = []\<rparr> [ExpiresAt 50, NotBefore 20] of
     Inl _ \<Rightarrow> False
   | Inr child \<Rightarrow>
       sc_window child = \<lparr>not_before = 20, not_after = 50\<rparr> \<and>
       (Read, AChannel 7, 40, ()) \<in> authorises (\<lambda>_ _. True) child \<and>
       (Read, AChannel 7, 60, ()) \<notin> authorises (\<lambda>_ _. True) child"
proof -
  let ?s = "\<lparr>sc_action = Read, sc_resource = Any, sc_window = \<lparr>not_before = 0, not_after = 100\<rparr>, sc_caveats = []\<rparr>"
  let ?cs = "[ExpiresAt 50, NotBefore 20]"
  have sets: "{t. NotBefore t \<in> set ?cs} = {20}" "{t. ExpiresAt t \<in> set ?cs} = {50}" by auto
  note E = apply_caveats_exact [where s = ?s and cs = ?cs and pred = "\<lambda>_ (_ :: unit). True", unfolded Let_def sets]
  obtain child where child: "apply_caveats ?s ?cs = Inr child"
    using E by (cases "apply_caveats ?s ?cs") (auto simp: resource_is_subset_of_def)
  with E have w: "sc_window child = \<lparr>not_before = 20, not_after = 50\<rparr>"
    and eq: "authorises (\<lambda>_ _. True) child = authorises (\<lambda>_ _. True) ?s \<inter> satisfying (\<lambda>_ (_ :: unit). True) ?cs"
    by simp_all
  have "(Read, AChannel 7, 40, ()) \<in> authorises (\<lambda>_ _. True) child"
    "(Read, AChannel 7, 60, ()) \<notin> authorises (\<lambda>_ _. True) child"
    unfolding eq by (simp_all add: authorises_def satisfying_def window_contains_def)
  with w show ?thesis by (simp only: child sum.case) simp
qed

text \<open>
  C23. The short-TTL check. \<open>check_at\<close> refuses a window whose expiry does not fit 64 bits as
  malformed, an instant before issuance as not yet valid, an instant at or past issuance plus
  lifetime as expired, and accepts everything else; \<open>is_valid_at\<close> and the converted absolute
  window accept exactly the same instants, and an unreadable clock is refused.
\<close>

theorem ttl_check_exact:
  "check_at v now =
     (if 2 ^ 64 \<le> unat (issued_at v) + unat (ttl_secs v)
      then Inl (Capability MalformedToken ''ttl::check_at::overflow'')
      else if unat now < unat (issued_at v)
      then Inl (Capability NotYetValid ''ttl::check_at::not_before'')
      else if unat (issued_at v) + unat (ttl_secs v) \<le> unat now
      then Inl (Capability Expired ''ttl::check_at::expired'')
      else Inr ()) \<and>
   is_valid_at v now = is_ok (check_at v now) \<and>
   is_valid_at v now = (case to_time_window v of None \<Rightarrow> False | Some w \<Rightarrow> window_contains w now) \<and>
   validity_check v (Inr now) = check_at v now \<and> \<not> is_ok (validity_check v (Inl e))"
proof (cases "validity_not_after v")
  case None
  then have "2 ^ 64 \<le> unat (issued_at v) + unat (ttl_secs v)"
    by (simp add: validity_not_after_def checked_add_None_iff)
  with None show ?thesis
    by (simp add: check_at_def is_valid_at_def to_time_window_def validity_check_def)
next
  case (Some na)
  then have na: "unat na = unat (issued_at v) + unat (ttl_secs v)"
    by (simp add: validity_not_after_def checked_add_SomeD)
  then have "issued_at v \<le> na" and "\<not> 2 ^ 64 \<le> unat (issued_at v) + unat (ttl_secs v)"
    using unat_bound [of na] by (simp_all add: word_le_nat_alt)
  with Some na show ?thesis
    by (simp add: check_at_def is_valid_at_def to_time_window_def validity_check_def
        time_window_new_def window_contains_def word_less_nat_alt word_le_nat_alt not_less)
qed

text \<open>
  An endpoint without a port separator grants nothing, is not even a subset of itself, and can
  therefore not be attenuated.
\<close>

lemma malformed_endpoint_not_attenuable:
  assumes "CHR '':'' \<notin> set e" and "sc_resource s = Network e" and "cs \<noteq> []"
  shows "\<not> is_ok (apply_caveats s cs)"
  using assms
  by (simp add: apply_caveats_is_ok resource_is_subset_of_def endpoint_is_subset_def rsplit_once_def)

end
