(* ===== verification/Capability_Token.thy ===== *)
theory Capability_Token
  imports Capability_Scope
begin

text \<open>
  Capability tokens: \<open>nexacore-capability/src/token.rs\<close> (minting and verification),
  \<open>attenuation.rs\<close> (token attenuation and chain links), \<open>revocation.rs\<close> (the Bloom-filtered
  revocation list), \<open>crl.rs\<close> (signed revocation lists), \<open>enforcement.rs\<close> (the single enforcement
  point) and the hash wrapper of \<open>nexacore-crypto/src/hash.rs\<close>.

  Ed25519, BLAKE3 and the postcard encoder are third-party code and appear as parameters: the
  record \<open>crypto\<close>, a hash function and an encoding function. The one law the theorems rely on is
  that a signature made with a key verifies under it.

  Shown here: the revocation list answers exactly (its Bloom filter never changes an answer), what
  full verification and enforcement accept, that minted and attenuated tokens verify, and that a
  chain of valid links never gains authority.
\<close>

section \<open>Parameters\<close>

datatype signing_key = SigningKey bytes
datatype verifying_key = VerifyingKey bytes
datatype signature = Signature bytes

record crypto =
  verifying_key_of :: "signing_key \<Rightarrow> verifying_key"
  crypto_sign :: "signing_key \<Rightarrow> bytes \<Rightarrow> signature"
  crypto_verify :: "verifying_key \<Rightarrow> bytes \<Rightarrow> signature \<Rightarrow> bool"

definition signing_correct :: "crypto \<Rightarrow> bool" where
  "signing_correct cr \<longleftrightarrow>
     (\<forall>k m. crypto_verify cr (verifying_key_of cr k) m (crypto_sign cr k m))"

section \<open>Domain-separated hashing\<close>

definition domain_separated_hash :: "(bytes \<Rightarrow> bytes) \<Rightarrow> string \<Rightarrow> bytes \<Rightarrow> bytes" where
  "domain_separated_hash blake3 domain data =
     blake3 (str_bytes ''OMNI-DOMAIN-v1'' @ [0] @ str_bytes domain @ [0] @ data)"

section \<open>The Bloom filter and the revocation list\<close>

record micro_bloom =
  mb_bits :: bytes
  mb_num_bits :: nat
  mb_num_hashes :: nat

definition micro_bloom_new :: "nat \<Rightarrow> micro_bloom" where
  "micro_bloom_new expected =
     (let n = max expected 8;
          num_bits = (n * 10 + 7) div 8 * 8
      in \<lparr>mb_bits = replicate (num_bits div 8) 0, mb_num_bits = num_bits, mb_num_hashes = 7\<rparr>)"

text \<open>\<open>u64::from_le_bytes\<close> on the first eight bytes of a digest.\<close>

definition from_le_bytes :: "bytes \<Rightarrow> u64" where
  "from_le_bytes bs = foldr (\<lambda>b acc. ucast b + 256 * acc) bs 0"

definition base_hashes :: "(bytes \<Rightarrow> bytes) \<Rightarrow> bytes \<Rightarrow> u64 \<times> u64" where
  "base_hashes blake3 item =
     (let h0 = domain_separated_hash blake3 ''nexacore-capability::bloom::h0'' item;
          h1 = domain_separated_hash blake3 ''nexacore-capability::bloom::h1'' item
      in (from_le_bytes (take 8 h0), from_le_bytes (take 8 h1)))"

definition bloom_indices :: "(bytes \<Rightarrow> bytes) \<Rightarrow> micro_bloom \<Rightarrow> bytes \<Rightarrow> nat list" where
  "bloom_indices blake3 f item =
     (case base_hashes blake3 item of (h0, h1) \<Rightarrow>
        map (\<lambda>i. if i < mb_num_hashes f
                 then unat ((h0 + of_nat i * h1) mod of_nat (mb_num_bits f)) else 0) [0..<8])"

definition bloom_insert :: "(bytes \<Rightarrow> bytes) \<Rightarrow> micro_bloom \<Rightarrow> bytes \<Rightarrow> micro_bloom" where
  "bloom_insert blake3 f item =
     f\<lparr>mb_bits := foldl (\<lambda>bits idx. bits[idx div 8 := bits ! (idx div 8) OR push_bit (idx mod 8) 1])
         (mb_bits f) (take (mb_num_hashes f) (bloom_indices blake3 f item))\<rparr>"

definition might_contain :: "(bytes \<Rightarrow> bytes) \<Rightarrow> micro_bloom \<Rightarrow> bytes \<Rightarrow> bool" where
  "might_contain blake3 f item =
     list_all (\<lambda>idx. (mb_bits f ! (idx div 8)) AND push_bit (idx mod 8) 1 \<noteq> 0)
       (take (mb_num_hashes f) (bloom_indices blake3 f item))"

record revocation_list =
  rl_bloom :: micro_bloom
  rl_full :: "capability_id fset"

definition with_expected_capacity :: "nat \<Rightarrow> revocation_list" where
  "with_expected_capacity expected = \<lparr>rl_bloom = micro_bloom_new expected, rl_full = {||}\<rparr>"

definition revocation_list_new :: revocation_list where
  "revocation_list_new = with_expected_capacity 1024"

definition revoke :: "(bytes \<Rightarrow> bytes) \<Rightarrow> revocation_list \<Rightarrow> capability_id \<Rightarrow> revocation_list" where
  "revoke blake3 r i =
     \<lparr>rl_bloom = bloom_insert blake3 (rl_bloom r) (capability_bytes i), rl_full = finsert i (rl_full r)\<rparr>"

definition revocation_contains :: "(bytes \<Rightarrow> bytes) \<Rightarrow> revocation_list \<Rightarrow> capability_id \<Rightarrow> bool" where
  "revocation_contains blake3 r i =
     (if \<not> might_contain blake3 (rl_bloom r) (capability_bytes i) then False else i |\<in>| rl_full r)"

definition revocation_len :: "revocation_list \<Rightarrow> nat" where
  "revocation_len r = fcard (rl_full r)"

section \<open>Tokens\<close>

record token_payload =
  tp_id :: capability_id
  tp_subject :: node_id
  tp_issuer :: verifying_key
  tp_parent :: "capability_id option"
  tp_scope :: scope

record capability_token =
  ct_payload :: token_payload
  ct_signature :: signature

type_synonym payload_encoder = "token_payload \<Rightarrow> bytes option"

definition payload_canonical_bytes :: "payload_encoder \<Rightarrow> token_payload \<Rightarrow> nexacore_error + bytes" where
  "payload_canonical_bytes enc p =
     ok_or (enc p) (Capability MalformedToken ''token::canonical_bytes::encode'')"

definition sign_payload ::
  "crypto \<Rightarrow> payload_encoder \<Rightarrow> signing_key \<Rightarrow> token_payload \<Rightarrow> nexacore_error + capability_token" where
  "sign_payload cr enc issuer_key payload =
     (case payload_canonical_bytes enc payload of
        Inl e \<Rightarrow> Inl e
      | Inr bs \<Rightarrow> Inr \<lparr>ct_payload = payload, ct_signature = crypto_sign cr issuer_key bs\<rparr>)"

text \<open>\<open>CapabilityId::new()\<close> draws a random identifier; the draw is an argument.\<close>

definition mint ::
  "crypto \<Rightarrow> payload_encoder \<Rightarrow> capability_id \<Rightarrow> signing_key \<Rightarrow> node_id \<Rightarrow> scope \<Rightarrow>
     capability_id option \<Rightarrow> nexacore_error + capability_token" where
  "mint cr enc fresh issuer_key subject sc parent =
     (let payload = \<lparr>tp_id = fresh, tp_subject = subject, tp_issuer = verifying_key_of cr issuer_key,
                     tp_parent = parent, tp_scope = sc\<rparr>
      in case payload_canonical_bytes enc payload of
           Inl e \<Rightarrow> Inl e
         | Inr bs \<Rightarrow> Inr \<lparr>ct_payload = payload, ct_signature = crypto_sign cr issuer_key bs\<rparr>)"

definition verify_signature :: "crypto \<Rightarrow> payload_encoder \<Rightarrow> capability_token \<Rightarrow> nexacore_error + unit" where
  "verify_signature cr enc tok =
     (case payload_canonical_bytes enc (ct_payload tok) of
        Inl e \<Rightarrow> Inl e
      | Inr bs \<Rightarrow>
          if crypto_verify cr (tp_issuer (ct_payload tok)) bs (ct_signature tok) then Inr ()
          else Inl (Capability InvalidSignature ''token::verify_signature''))"

text \<open>The \<open>AttestationSource\<close> trait is its one reading: an error or the local node.\<close>

definition verify_full ::
  "crypto \<Rightarrow> payload_encoder \<Rightarrow> (bytes \<Rightarrow> bytes) \<Rightarrow> capability_token \<Rightarrow> u64 \<Rightarrow>
     nexacore_error + node_id \<Rightarrow> revocation_list \<Rightarrow> nexacore_error + unit" where
  "verify_full cr enc blake3 tok now attestation revocation =
     (case verify_signature cr enc tok of
        Inl e \<Rightarrow> Inl e
      | Inr _ \<Rightarrow>
          if revocation_contains blake3 revocation (tp_id (ct_payload tok))
          then Inl (Capability Revoked ''token::verify_full::revocation'')
          else if now < not_before (sc_window (tp_scope (ct_payload tok)))
          then Inl (Capability NotYetValid ''token::verify_full::not_before'')
          else if not_after (sc_window (tp_scope (ct_payload tok))) \<le> now
          then Inl (Capability Expired ''token::verify_full::not_after'')
          else case attestation of
              Inl _ \<Rightarrow> Inl (Capability AttestationMismatch ''token::verify_full::attestation_unavailable'')
            | Inr local_node \<Rightarrow>
                if local_node \<noteq> tp_subject (ct_payload tok)
                then Inl (Capability AttestationMismatch ''token::verify_full::subject_mismatch'')
                else Inr ())"

section \<open>Attenuation of tokens\<close>

definition attenuate ::
  "crypto \<Rightarrow> payload_encoder \<Rightarrow> capability_id \<Rightarrow> capability_token \<Rightarrow> signing_key \<Rightarrow> caveat list \<Rightarrow>
     nexacore_error + capability_token" where
  "attenuate cr enc fresh parent issuer_key caveats =
     (case apply_caveats (tp_scope (ct_payload parent)) caveats of
        Inl e \<Rightarrow> Inl e
      | Inr new_scope \<Rightarrow>
          if \<not> scope_is_subset_of new_scope (tp_scope (ct_payload parent))
          then Inl (Capability AttenuationViolation ''attenuation::attenuate::scope_not_subset'')
          else sign_payload cr enc issuer_key
            \<lparr>tp_id = fresh, tp_subject = tp_subject (ct_payload parent),
             tp_issuer = verifying_key_of cr issuer_key,
             tp_parent = Some (tp_id (ct_payload parent)), tp_scope = new_scope\<rparr>)"

definition verify_chain_link :: "capability_token \<Rightarrow> capability_token \<Rightarrow> nexacore_error + unit" where
  "verify_chain_link parent child =
     (if tp_parent (ct_payload child) \<noteq> Some (tp_id (ct_payload parent))
      then Inl (Capability AttenuationViolation ''attenuation::verify_chain_link::parent_id_mismatch'')
      else if \<not> scope_is_subset_of (tp_scope (ct_payload child)) (tp_scope (ct_payload parent))
      then Inl (Capability AttenuationViolation ''attenuation::verify_chain_link::scope_not_subset'')
      else Inr ())"

section \<open>Signed revocation lists\<close>

definition CRL_FORMAT_VERSION :: u32 where "CRL_FORMAT_VERSION = 1"

record crl_body =
  crl_version :: u32
  crl_issuer :: verifying_key
  crl_issued_at :: u64
  crl_next_update :: u64
  crl_revoked :: "capability_id list"

record signed_crl =
  crl_body :: crl_body
  crl_signature :: signature

type_synonym crl_encoder = "crl_body \<Rightarrow> bytes option"

definition crl_canonical_bytes :: "crl_encoder \<Rightarrow> crl_body \<Rightarrow> nexacore_error + bytes" where
  "crl_canonical_bytes enc b =
     ok_or (enc b) (Capability MalformedToken ''crl::canonical_bytes::encode'')"

definition body_is_revoked :: "crl_body \<Rightarrow> capability_id \<Rightarrow> bool" where
  "body_is_revoked b i = list_ex (\<lambda>r. r = i) (crl_revoked b)"

definition crl_sign ::
  "crypto \<Rightarrow> crl_encoder \<Rightarrow> signing_key \<Rightarrow> u64 \<Rightarrow> u64 \<Rightarrow> capability_id list \<Rightarrow>
     nexacore_error + signed_crl" where
  "crl_sign cr enc issuer_key iat next_update revoked =
     (let body = \<lparr>crl_version = CRL_FORMAT_VERSION, crl_issuer = verifying_key_of cr issuer_key,
                  crl_issued_at = iat, crl_next_update = next_update, crl_revoked = revoked\<rparr>
      in case crl_canonical_bytes enc body of
           Inl e \<Rightarrow> Inl e
         | Inr bs \<Rightarrow> Inr \<lparr>crl_body = body, crl_signature = crypto_sign cr issuer_key bs\<rparr>)"

definition crl_verify :: "crypto \<Rightarrow> crl_encoder \<Rightarrow> signed_crl \<Rightarrow> nexacore_error + unit" where
  "crl_verify cr enc c =
     (if crl_version (crl_body c) \<noteq> CRL_FORMAT_VERSION
      then Inl (Capability MalformedToken ''crl::verify::unsupported_version'')
      else case crl_canonical_bytes enc (crl_body c) of
          Inl e \<Rightarrow> Inl e
        | Inr bs \<Rightarrow>
            if crypto_verify cr (crl_issuer (crl_body c)) bs (crl_signature c) then Inr ()
            else Inl (Capability InvalidSignature ''crl::verify::signature''))"

definition crl_is_revoked :: "signed_crl \<Rightarrow> capability_id \<Rightarrow> bool" where
  "crl_is_revoked c i = body_is_revoked (crl_body c) i"

section \<open>The enforcement point\<close>

text \<open>\<open>None\<close> is the panic of \<open>duration_secs\<close>.\<close>

definition check_capability ::
  "crypto \<Rightarrow> payload_encoder \<Rightarrow> crl_encoder \<Rightarrow> capability_token \<Rightarrow> signed_crl \<Rightarrow>
     nexacore_error + u64 \<Rightarrow> (nexacore_error + unit) option" where
  "check_capability cr enc crl_enc cap crl clock =
     (case verify_signature cr enc cap of
        Inl e \<Rightarrow> Some (Inl e)
      | Inr _ \<Rightarrow>
        (case clock of
           Inl _ \<Rightarrow> Some (Inl (Capability Expired ''enforcement::check_capability::clock_unavailable''))
         | Inr now_secs \<Rightarrow>
           let window = sc_window (tp_scope (ct_payload cap)) in
           (case duration_secs window of
              None \<Rightarrow> None
            | Some duration \<Rightarrow>
              Some (case check_at (validity_window_new (not_before window) duration) now_secs of
                 Inl e \<Rightarrow> Inl e
               | Inr _ \<Rightarrow>
                 (case crl_verify cr crl_enc crl of
                    Inl e \<Rightarrow> Inl e
                  | Inr _ \<Rightarrow>
                      if crl_next_update (crl_body crl) \<le> now_secs
                      then Inl (Capability Expired ''enforcement::check_capability::crl_stale'')
                      else if crl_is_revoked crl (tp_id (ct_payload cap))
                      then Inl (Capability Revoked ''enforcement::check_capability::revoked'')
                      else Inr ())))))"

section \<open>Lemmas\<close>

subsection \<open>The revocation list is exact\<close>

definition bloom_wf :: "micro_bloom \<Rightarrow> bool" where
  "bloom_wf f \<longleftrightarrow> 0 < mb_num_bits f \<and> mb_num_bits f < 2 ^ 64 \<and> mb_num_bits f = 8 * length (mb_bits f)"

lemma bloom_wf_new: "expected * 10 + 80 < 2 ^ 64 \<Longrightarrow> bloom_wf (micro_bloom_new expected)"
  by (auto simp: bloom_wf_def micro_bloom_new_def Let_def max_def)

lemma bloom_index_lt:
  assumes "bloom_wf f" and "idx \<in> set (bloom_indices blake3 f item)"
  shows "idx div 8 < length (mb_bits f)"
proof -
  have "unat (of_nat (mb_num_bits f) :: u64) = mb_num_bits f"
    using assms(1) by (intro unat_of_nat_small) (simp add: bloom_wf_def)
  then have "unat (x mod of_nat (mb_num_bits f) :: u64) < mb_num_bits f" for x
    using assms(1) mod_less_divisor unfolding unat_mod bloom_wf_def by metis
  with assms have "idx < mb_num_bits f"
    by (auto simp: bloom_indices_def bloom_wf_def split: prod.splits)
  with assms(1) show ?thesis by (simp add: bloom_wf_def less_mult_imp_div_less)
qed

abbreviation set_idx :: "bytes \<Rightarrow> nat \<Rightarrow> bytes" where
  "set_idx bits idx \<equiv> bits[idx div 8 := bits ! (idx div 8) OR push_bit (idx mod 8) 1]"

lemma bit_set_idx:
  assumes "idx div 8 < length bits"
  shows "bit (set_idx bits idx ! (j div 8)) (j mod 8) \<longleftrightarrow> j = idx \<or> bit (bits ! (j div 8)) (j mod 8)"
proof (cases "j div 8 = idx div 8")
  case True
  then have "j mod 8 = idx mod 8 \<longleftrightarrow> j = idx" by (metis div_mult_mod_eq)
  with True assms show ?thesis by (auto simp: bit_simps)
next
  case False
  then show ?thesis by auto
qed

lemma bit_set_idxs:
  "\<forall>idx \<in> set idxs. idx div 8 < length bits \<Longrightarrow>
   bit (foldl set_idx bits idxs ! (j div 8)) (j mod 8) \<longleftrightarrow> j \<in> set idxs \<or> bit (bits ! (j div 8)) (j mod 8)"
proof (induction idxs arbitrary: bits)
  case (Cons idx idxs)
  then show ?case by (auto simp: bit_set_idx simp del: push_bit_of_1)
qed simp

lemma length_set_idxs [simp]: "length (foldl (\<lambda>bits idx. bits[g idx := h bits idx]) bits idxs) = length bits"
  by (induction idxs arbitrary: bits) auto

lemma might_contain_bits:
  "might_contain blake3 f item \<longleftrightarrow>
     (\<forall>idx \<in> set (take (mb_num_hashes f) (bloom_indices blake3 f item)).
        bit (mb_bits f ! (idx div 8)) (idx mod 8))"
  by (simp add: might_contain_def list_all_iff bit_iff_and_push_bit_not_eq_0)

lemma bloom_insert_simps [simp]:
  "mb_num_bits (bloom_insert blake3 f x) = mb_num_bits f"
  "mb_num_hashes (bloom_insert blake3 f x) = mb_num_hashes f"
  "bloom_indices blake3 (bloom_insert blake3 f x) = bloom_indices blake3 f"
  "bloom_wf (bloom_insert blake3 f x) = bloom_wf f"
  by (auto simp: bloom_insert_def bloom_indices_def bloom_wf_def fun_eq_iff split: prod.splits)

lemma might_contain_insert:
  assumes "bloom_wf f"
  shows "might_contain blake3 (bloom_insert blake3 f x) x"
    and "might_contain blake3 f y \<Longrightarrow> might_contain blake3 (bloom_insert blake3 f x) y"
proof -
  have "\<forall>idx \<in> set (take (mb_num_hashes f) (bloom_indices blake3 f x)). idx div 8 < length (mb_bits f)"
    using bloom_index_lt [OF assms] by (blast dest: in_set_takeD)
  from bit_set_idxs [OF this] have
    "bit (mb_bits (bloom_insert blake3 f x) ! (j div 8)) (j mod 8) \<longleftrightarrow>
       j \<in> set (take (mb_num_hashes f) (bloom_indices blake3 f x)) \<or> bit (mb_bits f ! (j div 8)) (j mod 8)" for j
    by (simp add: bloom_insert_def)
  then show "might_contain blake3 (bloom_insert blake3 f x) x"
    "might_contain blake3 f y \<Longrightarrow> might_contain blake3 (bloom_insert blake3 f x) y"
    by (simp_all add: might_contain_bits)
qed

definition revocation_inv :: "(bytes \<Rightarrow> bytes) \<Rightarrow> revocation_list \<Rightarrow> bool" where
  "revocation_inv blake3 r \<longleftrightarrow> bloom_wf (rl_bloom r) \<and>
     (\<forall>i. i |\<in>| rl_full r \<longrightarrow> might_contain blake3 (rl_bloom r) (capability_bytes i))"

lemma revocation_inv_revoke: "revocation_inv blake3 r \<Longrightarrow> revocation_inv blake3 (revoke blake3 r i)"
  by (auto simp: revocation_inv_def revoke_def intro: might_contain_insert)

interpretation revoke_sys: op_system "revoke blake3" "revocation_inv blake3" for blake3
  by unfold_locales (rule revocation_inv_revoke)

lemma rl_full_revokes: "fset (rl_full (foldl (revoke blake3) r ids)) = fset (rl_full r) \<union> set ids"
  by (induction ids arbitrary: r) (auto simp: revoke_def)

lemma revocation_exact:
  assumes "expected * 10 + 80 < 2 ^ 64"
  shows "revocation_contains blake3 (foldl (revoke blake3) (with_expected_capacity expected) ids) i \<longleftrightarrow>
    i \<in> set ids"
proof -
  let ?r = "foldl (revoke blake3) (with_expected_capacity expected) ids"
  have "revocation_inv blake3 ?r"
    using bloom_wf_new [OF assms]
    by (intro revoke_sys.inv_run) (simp add: revocation_inv_def with_expected_capacity_def)
  moreover have "fset (rl_full ?r) = set ids"
    by (simp add: rl_full_revokes) (simp add: with_expected_capacity_def)
  ultimately show ?thesis by (auto simp: revocation_contains_def revocation_inv_def)
qed

subsection \<open>Verification\<close>

lemma verify_signature_ok:
  "is_ok (verify_signature cr enc tok) \<longleftrightarrow>
     (case enc (ct_payload tok) of None \<Rightarrow> False
      | Some bs \<Rightarrow> crypto_verify cr (tp_issuer (ct_payload tok)) bs (ct_signature tok))"
  by (simp add: verify_signature_def payload_canonical_bytes_def split: option.splits)

lemma verify_full_ok:
  "is_ok (verify_full cr enc blake3 tok now attestation r) \<longleftrightarrow>
     is_ok (verify_signature cr enc tok) \<and>
     \<not> revocation_contains blake3 r (tp_id (ct_payload tok)) \<and>
     window_contains (sc_window (tp_scope (ct_payload tok))) now \<and>
     attestation = Inr (tp_subject (ct_payload tok))"
  by (auto simp: verify_full_def window_contains_def split: sum.splits)

text \<open>The window handed to the short-TTL check, rebuilt from its start and its length, is the token's.\<close>

lemma duration_round_trip: "duration_secs w = Some d \<Longrightarrow> checked_add (not_before w) d = Some (not_after w)"
  using unat_bound [of "not_after w"]
  by (auto simp: duration_secs_def checked_add_def unat_sub word_le_nat_alt split: if_splits)

lemma check_at_window:
  assumes "duration_secs w = Some d"
  shows "check_at (validity_window_new (not_before w) d) now =
    (if window_contains w now then Inr ()
     else if now < not_before w then Inl (Capability NotYetValid ''ttl::check_at::not_before'')
     else Inl (Capability Expired ''ttl::check_at::expired''))"
  using duration_round_trip [OF assms]
  by (auto simp: check_at_def validity_window_new_def validity_not_after_def window_contains_def)

lemma sign_payload_verifies:
  assumes "signing_correct cr" and "sign_payload cr enc k p = Inr tok"
    and "tp_issuer p = verifying_key_of cr k"
  shows "is_ok (verify_signature cr enc tok)" and "ct_payload tok = p"
  using assms
  by (cases "enc p"; auto simp: sign_payload_def payload_canonical_bytes_def verify_signature_ok
      signing_correct_def)+

lemma mint_sign_payload:
  "mint cr enc fresh k subj sc par = sign_payload cr enc k
     \<lparr>tp_id = fresh, tp_subject = subj, tp_issuer = verifying_key_of cr k, tp_parent = par, tp_scope = sc\<rparr>"
  by (simp add: mint_def sign_payload_def Let_def)

lemma attenuateD:
  assumes "attenuate cr enc fresh parent k cs = Inr child"
  shows "apply_caveats (tp_scope (ct_payload parent)) cs = Inr (tp_scope (ct_payload child)) \<and>
    scope_is_subset_of (tp_scope (ct_payload child)) (tp_scope (ct_payload parent)) \<and>
    tp_parent (ct_payload child) = Some (tp_id (ct_payload parent)) \<and>
    tp_subject (ct_payload child) = tp_subject (ct_payload parent) \<and>
    tp_issuer (ct_payload child) = verifying_key_of cr k \<and>
    sign_payload cr enc k (ct_payload child) = Inr child"
  using assms
  by (auto simp: attenuate_def sign_payload_def split: sum.splits if_splits)

lemma chain_scopes:
  "successively (\<lambda>p c. is_ok (verify_chain_link p c)) toks \<Longrightarrow>
   successively (\<lambda>p c. scope_is_subset_of c p) (map (\<lambda>t. tp_scope (ct_payload t)) toks)"
  by (auto simp: successively_map verify_chain_link_def elim!: successively_mono split: if_splits)

section \<open>Properties\<close>

text \<open>
  C24. The revocation list is exact. After revoking any identifiers, \<open>contains\<close> answers yes for
  exactly those identifiers: the Bloom filter in front of the exact set has no false negative,
  and its false positives are corrected, whatever the hash function. The size bound only says that
  the filter's bit count fits 64 bits.
\<close>

theorem revocation_list_exact:
  assumes "expected * 10 + 80 < 2 ^ 64"
  shows "revocation_contains blake3 (foldl (revoke blake3) (with_expected_capacity expected) ids) i =
    (i \<in> set ids)"
  using revocation_exact [OF assms] .

theorem revocation_list_exact_witness:
  "revocation_contains id (foldl (revoke id) (with_expected_capacity 1024) [CapabilityId [1, 2], CapabilityId [3]])
     (CapabilityId [3]) \<and>
   \<not> revocation_contains id (foldl (revoke id) (with_expected_capacity 1024) [CapabilityId [1, 2], CapabilityId [3]])
     (CapabilityId [2, 1])"
  by (subst (1 2) revocation_list_exact) simp_all

text \<open>
  What full verification accepts. \<open>verify_full\<close> succeeds exactly when the payload encodes and
  its signature verifies under the issuer key, the identifier is not among the revoked ones, the
  instant lies in the half-open window and the attested node is the subject.
\<close>

lemma verify_full_accepts:
  assumes "expected * 10 + 80 < 2 ^ 64"
  shows "is_ok (verify_full cr enc blake3 tok now attestation
      (foldl (revoke blake3) (with_expected_capacity expected) ids)) =
    ((\<exists>bs. enc (ct_payload tok) = Some bs \<and>
        crypto_verify cr (tp_issuer (ct_payload tok)) bs (ct_signature tok)) \<and>
     tp_id (ct_payload tok) \<notin> set ids \<and>
     not_before (sc_window (tp_scope (ct_payload tok))) \<le> now \<and>
     now < not_after (sc_window (tp_scope (ct_payload tok))) \<and>
     attestation = Inr (tp_subject (ct_payload tok)))"
  by (auto simp: verify_full_ok verify_signature_ok revocation_exact [OF assms] window_contains_def
      split: option.splits)

text \<open>A toy signature scheme and encoder for concrete runs: the signature is the message.\<close>

definition demo_crypto :: crypto where
  "demo_crypto = \<lparr>verifying_key_of = (\<lambda>k. case k of SigningKey b \<Rightarrow> VerifyingKey b),
     crypto_sign = (\<lambda>k m. case k of SigningKey b \<Rightarrow> Signature (b @ m)),
     crypto_verify = (\<lambda>k m s. case k of VerifyingKey b \<Rightarrow> s = Signature (b @ m))\<rparr>"

definition demo_encoder :: payload_encoder where
  "demo_encoder p = Some (capability_bytes (tp_id p))"

definition demo_scope :: scope where
  "demo_scope = \<lparr>sc_action = Read, sc_resource = Filesystem ''/data/**'',
     sc_window = \<lparr>not_before = 100, not_after = 200\<rparr>, sc_caveats = []\<rparr>"

lemma demo_signing_correct: "signing_correct demo_crypto"
  by (simp add: signing_correct_def demo_crypto_def split: signing_key.splits)

definition demo_token :: capability_token where
  "demo_token = \<lparr>ct_payload = \<lparr>tp_id = CapabilityId [7], tp_subject = NodeId [1],
     tp_issuer = VerifyingKey [9], tp_parent = None, tp_scope = demo_scope\<rparr>, ct_signature = Signature [9, 7]\<rparr>"

lemma demo_mint:
  "mint demo_crypto demo_encoder (CapabilityId [7]) (SigningKey [9]) (NodeId [1]) demo_scope None = Inr demo_token"
  by (simp add: mint_def Let_def payload_canonical_bytes_def demo_encoder_def demo_crypto_def demo_token_def)

lemma verify_full_accepts_witness:
  "is_ok (verify_full demo_crypto demo_encoder id demo_token 150 (Inr (NodeId [1]))
     (foldl (revoke id) (with_expected_capacity 1024) [CapabilityId [8]])) \<and>
   \<not> is_ok (verify_full demo_crypto demo_encoder id demo_token 150 (Inr (NodeId [1]))
     (foldl (revoke id) (with_expected_capacity 1024) [CapabilityId [7]]))"
  by (subst (1 2) verify_full_accepts)
    (simp_all add: demo_token_def demo_encoder_def demo_crypto_def demo_scope_def)

text \<open>
  C25. Minted and attenuated tokens verify. With a signature scheme in which a signature verifies
  under its own key, a minted token passes \<open>verify_full\<close> exactly when it is unrevoked, in its
  window and on its subject; a token attenuated from any parent has a valid signature, passes
  \<open>verify_chain_link\<close> against that parent, keeps its subject, and authorises exactly the parent's
  requests that satisfy the caveats.
\<close>

theorem minted_and_attenuated_verify:
  assumes sc: "signing_correct cr"
    and m: "mint cr enc fresh k subj scp par = Inr tok"
    and a: "attenuate cr enc fresh' parent k' cs = Inr child"
  shows "is_ok (verify_full cr enc blake3 tok now attestation r) =
      (\<not> revocation_contains blake3 r fresh \<and> window_contains (sc_window scp) now \<and> attestation = Inr subj) \<and>
    is_ok (verify_signature cr enc child) \<and> is_ok (verify_chain_link parent child) \<and>
    tp_subject (ct_payload child) = tp_subject (ct_payload parent) \<and>
    authorises pred (tp_scope (ct_payload child)) =
      authorises pred (tp_scope (ct_payload parent)) \<inter> satisfying pred cs"
proof -
  from sign_payload_verifies [OF sc m [unfolded mint_sign_payload]]
  have "is_ok (verify_signature cr enc tok)" and "ct_payload tok =
      \<lparr>tp_id = fresh, tp_subject = subj, tp_issuer = verifying_key_of cr k, tp_parent = par, tp_scope = scp\<rparr>"
    by simp_all
  moreover note ch = attenuateD [OF a]
  then have "is_ok (verify_signature cr enc child)" using sign_payload_verifies(1) [OF sc] by blast
  ultimately show ?thesis
    using ch apply_caveats_ok [of "tp_scope (ct_payload parent)" cs "tp_scope (ct_payload child)" pred]
    by (auto simp: verify_full_ok verify_chain_link_def)
qed

definition demo_child :: capability_token where
  "demo_child = \<lparr>ct_payload = \<lparr>tp_id = CapabilityId [8], tp_subject = NodeId [1],
     tp_issuer = VerifyingKey [5], tp_parent = Some (CapabilityId [7]),
     tp_scope = demo_scope\<lparr>sc_window := \<lparr>not_before = 100, not_after = 150\<rparr>,
       sc_caveats := [ExpiresAt 150]\<rparr>\<rparr>, ct_signature = Signature [5, 8]\<rparr>"

lemma demo_attenuate:
  "attenuate demo_crypto demo_encoder (CapabilityId [8]) demo_token (SigningKey [5]) [ExpiresAt 150] =
     Inr demo_child"
  by (simp add: attenuate_def apply_caveat_eq child_scope_def demo_token_def demo_scope_def
      scope_subset_iff resource_is_subset_of_def path_is_subset_iff window_is_subset_of_def
      sign_payload_def payload_canonical_bytes_def demo_encoder_def demo_crypto_def demo_child_def)

theorem minted_and_attenuated_verify_witness:
  "is_ok (verify_full demo_crypto demo_encoder id demo_token 100 (Inr (NodeId [1])) revocation_list_new) \<and>
   is_ok (verify_chain_link demo_token demo_child)"
proof -
  have "\<not> revocation_contains id revocation_list_new (CapabilityId [7])"
    by (simp add: revocation_contains_def revocation_list_new_def with_expected_capacity_def)
  then show ?thesis
    using minted_and_attenuated_verify [OF demo_signing_correct demo_mint demo_attenuate,
        of id 100 "Inr (NodeId [1])" revocation_list_new "\<lambda>_ _ :: unit. True"]
    by (simp add: window_contains_def demo_scope_def)
qed

text \<open>
  C7. No escalation along a chain. If every link of a sequence of tokens passes
  \<open>verify_chain_link\<close>, the last token authorises no request that the first does not, under any
  evaluation of the use-time caveats, and carries all of the first token's caveats.
\<close>

theorem chain_no_escalation:
  assumes "successively (\<lambda>p c. is_ok (verify_chain_link p c)) (root # toks)"
  shows "authorises pred (tp_scope (ct_payload (last (root # toks)))) \<subseteq>
      authorises pred (tp_scope (ct_payload root)) \<and>
    set (sc_caveats (tp_scope (ct_payload root))) \<subseteq>
      set (sc_caveats (tp_scope (ct_payload (last (root # toks)))))"
proof -
  let ?s = "\<lambda>t. tp_scope (ct_payload t)"
  from chain_scopes [OF assms]
  have ch: "successively (\<lambda>p c. scope_is_subset_of c p) (?s root # map ?s toks)" by simp
  have last: "last (?s root # map ?s toks) = ?s (last (root # toks))" by (simp add: last_map)
  have "scope_is_subset_of (?s (last (root # toks))) (?s root)" if "toks \<noteq> []"
  proof -
    from that obtain t ts where t: "toks = t # ts" by (cases toks) auto
    with ch have "scope_is_subset_of (last (?s t # map ?s ts)) (?s root)"
      using scope_order.chain_sub by (metis list.simps(9))
    with last t show ?thesis by simp
  qed
  then show ?thesis
    using scope_order.chain_grants [OF ch, of pred] last by (cases "toks = []") (auto simp: scope_subset_iff)
qed

theorem chain_no_escalation_witness:
  "authorises (\<lambda>_ _. True) (tp_scope (ct_payload demo_child)) \<subseteq>
     (authorises (\<lambda>_ _. True) (tp_scope (ct_payload demo_token)) :: (action \<times> access \<times> u64 \<times> unit) set)"
proof -
  have "is_ok (verify_chain_link demo_token demo_child)"
    using attenuateD [OF demo_attenuate] by (simp add: verify_chain_link_def)
  with chain_no_escalation [of demo_token "[demo_child]" "\<lambda>_ _ :: unit. True"] show ?thesis by simp
qed

text \<open>
  C26. What the enforcement point accepts, and where it panics. \<open>check_capability\<close> succeeds exactly
  when the token's signature verifies, the clock gives an instant inside the token's window, and
  the revocation list is of the supported version, signed, not stale at that instant, and does
  not name the token. It panics exactly when the signature verifies, the clock gives an instant and
  the window is inverted, which nothing prevents in a token that was decoded: the length of the
  window is computed by a subtraction that overflows. In every other case it returns an error.
\<close>

theorem check_capability_accepts:
  "(check_capability cr enc crl_enc cap crl clock = Some (Inr ()) \<longleftrightarrow>
      is_ok (verify_signature cr enc cap) \<and>
      (case clock of Inl _ \<Rightarrow> False
       | Inr now \<Rightarrow> window_contains (sc_window (tp_scope (ct_payload cap))) now \<and>
           now < crl_next_update (crl_body crl)) \<and>
      crl_version (crl_body crl) = 1 \<and>
      (case crl_enc (crl_body crl) of None \<Rightarrow> False
       | Some bs \<Rightarrow> crypto_verify cr (crl_issuer (crl_body crl)) bs (crl_signature crl)) \<and>
      tp_id (ct_payload cap) \<notin> set (crl_revoked (crl_body crl))) \<and>
   (check_capability cr enc crl_enc cap crl clock = None \<longleftrightarrow>
      is_ok (verify_signature cr enc cap) \<and> is_ok clock \<and>
      not_after (sc_window (tp_scope (ct_payload cap))) < not_before (sc_window (tp_scope (ct_payload cap))))"
proof -
  let ?w = "sc_window (tp_scope (ct_payload cap))"
  have crl: "is_ok (crl_verify cr crl_enc crl) \<longleftrightarrow> crl_version (crl_body crl) = 1 \<and>
      (case crl_enc (crl_body crl) of None \<Rightarrow> False
       | Some bs \<Rightarrow> crypto_verify cr (crl_issuer (crl_body crl)) bs (crl_signature crl))"
    by (simp add: crl_verify_def crl_canonical_bytes_def CRL_FORMAT_VERSION_def split: option.splits)
  have rev: "crl_is_revoked crl i \<longleftrightarrow> i \<in> set (crl_revoked (crl_body crl))" for i
    by (auto simp: crl_is_revoked_def body_is_revoked_def list_ex_iff)
  have ok: "check_capability cr enc crl_enc cap crl clock = Some (Inr ()) \<longleftrightarrow>
      is_ok (verify_signature cr enc cap) \<and>
      (case clock of Inl _ \<Rightarrow> False
       | Inr now \<Rightarrow> window_contains ?w now \<and> now < crl_next_update (crl_body crl)) \<and>
      is_ok (crl_verify cr crl_enc crl) \<and> \<not> crl_is_revoked crl (tp_id (ct_payload cap))"
  proof (cases "duration_secs ?w")
    case None
    then have "\<not> window_contains ?w now" for now by (auto simp: duration_secs_def window_contains_def split: if_splits)
    with None show ?thesis by (auto simp: check_capability_def Let_def split: sum.split)
  next
    case (Some d)
    then show ?thesis
      by (cases "verify_signature cr enc cap"; cases clock; cases "crl_verify cr crl_enc crl")
        (auto simp: check_capability_def Let_def check_at_window [OF Some] not_le)
  qed
  have "check_capability cr enc crl_enc cap crl clock = None \<longleftrightarrow>
      is_ok (verify_signature cr enc cap) \<and> is_ok clock \<and> not_after ?w < not_before ?w"
    by (auto simp: check_capability_def Let_def duration_secs_def not_le split: sum.split)
  with ok show ?thesis by (simp only: crl rev conj_assoc simp_thms)
qed


end
