(* ===== verification/Kernel_Capability.thy ===== *)
theory Kernel_Capability
  imports Capability_Token
begin

text \<open>
  The kernel's side of capabilities: \<open>nexacore-kernel/src/capabilities.rs\<close> (principals, the
  per-message token, the \<open>KernelCapabilityCheck\<close> interface and the Ed25519 provider) and the
  canonical decoder of \<open>nexacore-types/src/wire.rs\<close>. The postcard decoder is a parameter that
  returns a value and the unread tail.

  The interface is the locale \<open>capability_check\<close>: a provider authorises a token only for the
  action and resource it names. The IPC registry relies on nothing else.
\<close>

section \<open>Principals, tokens and verdicts\<close>

datatype kernel_principal = KernelPrincipal (principal_bytes: bytes)

datatype kernel_action = KIpcSend | KIpcRecv

datatype kernel_resource = KIpcChannel u64

record kernel_capability_token =
  kt_subject :: kernel_principal
  kt_action :: kernel_action
  kt_resource :: kernel_resource

datatype capability_verdict = Authorised | Denied

type_synonym capability_verifier =
  "kernel_capability_token \<Rightarrow> kernel_action \<Rightarrow> kernel_resource \<Rightarrow> capability_verdict"

section \<open>The Ed25519 provider\<close>

record ed25519_provider =
  node_id_bytes :: bytes

definition with_node_id :: "bytes \<Rightarrow> ed25519_provider" where
  "with_node_id b = \<lparr>node_id_bytes = b\<rparr>"

definition provider_placeholder :: ed25519_provider where
  "provider_placeholder = with_node_id (replicate 32 0)"

definition provider_verify :: "ed25519_provider \<Rightarrow> capability_verifier" where
  "provider_verify p tok action resource =
     (if kt_action tok = action \<and> kt_resource tok = resource then Authorised else Denied)"

definition verify_signature_only :: "crypto \<Rightarrow> payload_encoder \<Rightarrow> ed25519_provider \<Rightarrow> capability_token \<Rightarrow> capability_verdict" where
  "verify_signature_only cr enc p tok =
     (case verify_signature cr enc tok of Inr _ \<Rightarrow> Authorised | Inl _ \<Rightarrow> Denied)"

text \<open>Full verification against the provider's own node, with an empty revocation list.\<close>

definition verify_signed_token ::
  "crypto \<Rightarrow> payload_encoder \<Rightarrow> (bytes \<Rightarrow> bytes) \<Rightarrow> ed25519_provider \<Rightarrow> capability_token \<Rightarrow> u64 \<Rightarrow>
     capability_verdict" where
  "verify_signed_token cr enc blake3 p tok now =
     (case verify_full cr enc blake3 tok now (Inr (NodeId (node_id_bytes p))) revocation_list_new of
        Inr _ \<Rightarrow> Authorised
      | Inl _ \<Rightarrow> Denied)"

section \<open>Decoding and authenticating a presented token\<close>

datatype wire_error_kind = DecodeFailed | TrailingBytes

definition decode_canonical :: "(bytes \<Rightarrow> ('t \<times> bytes) option) \<Rightarrow> bytes \<Rightarrow> wire_error_kind + 't" where
  "decode_canonical take_from_bytes bs =
     (case take_from_bytes bs of
        None \<Rightarrow> Inl DecodeFailed
      | Some (value, tail) \<Rightarrow> if tail \<noteq> [] then Inl TrailingBytes else Inr value)"

text \<open>The third-party code a signed channel creation depends on.\<close>

record token_env =
  te_crypto :: crypto
  te_encode :: payload_encoder
  te_blake3 :: "bytes \<Rightarrow> bytes"
  te_take :: "bytes \<Rightarrow> (capability_token \<times> bytes) option"

fun expected_user_action :: "kernel_action \<Rightarrow> action" where
  "expected_user_action KIpcSend = IpcSend"
| "expected_user_action KIpcRecv = IpcRecv"

definition decode_and_authenticate_token ::
  "token_env \<Rightarrow> bytes \<Rightarrow> kernel_action \<Rightarrow> ed25519_provider \<Rightarrow> u64 \<Rightarrow> kernel_principal kernel_result" where
  "decode_and_authenticate_token env bs expected_action provider now =
     (case decode_canonical (te_take env) bs of
        Inl _ \<Rightarrow> Inl InvalidArgument
      | Inr tok \<Rightarrow>
          if verify_signed_token (te_crypto env) (te_encode env) (te_blake3 env) provider tok now \<noteq> Authorised
          then Inl CapabilityDenied
          else if sc_action (tp_scope (ct_payload tok)) \<noteq> expected_user_action expected_action
          then Inl CapabilityDenied
          else if (case sc_resource (tp_scope (ct_payload tok)) of IpcChannel _ \<Rightarrow> False | _ \<Rightarrow> True)
          then Inl CapabilityDenied
          else case tp_subject (ct_payload tok) of NodeId b \<Rightarrow> Inr (KernelPrincipal b))"

section \<open>The interface the registry relies on\<close>

locale capability_check =
  fixes verify :: capability_verifier
  assumes authorised_exact:
    "verify tok action resource = Authorised \<Longrightarrow> kt_action tok = action \<and> kt_resource tok = resource"
begin

lemma not_transferable:
  "verify tok a r = Authorised \<Longrightarrow> verify tok a' r' = Authorised \<Longrightarrow> a' = a \<and> r' = r"
  using authorised_exact by metis

end

interpretation ed25519: capability_check "provider_verify p" for p
  by unfold_locales (auto simp: provider_verify_def split: if_splits)

section \<open>Lemmas\<close>

lemma empty_revocation [simp]: "\<not> revocation_contains blake3 revocation_list_new i"
  by (simp add: revocation_contains_def revocation_list_new_def with_expected_capacity_def)

lemma verify_signed_token_iff:
  "verify_signed_token cr enc blake3 p tok now = Authorised \<longleftrightarrow>
     is_ok (verify_signature cr enc tok) \<and>
     window_contains (sc_window (tp_scope (ct_payload tok))) now \<and>
     tp_subject (ct_payload tok) = NodeId (node_id_bytes p)"
proof -
  have "verify_signed_token cr enc blake3 p tok now = Authorised \<longleftrightarrow>
      is_ok (verify_full cr enc blake3 tok now (Inr (NodeId (node_id_bytes p))) revocation_list_new)"
    by (simp add: verify_signed_token_def split: sum.splits)
  then show ?thesis by (auto simp: verify_full_ok)
qed

lemma decode_canonical_iff: "decode_canonical tk bs = Inr v \<longleftrightarrow> tk bs = Some (v, [])"
  by (auto simp: decode_canonical_def split: option.splits if_splits)

text \<open>
  What an authenticated principal means: the whole input is one encoded token, signed by its
  issuer, inside its window, issued to this node, for the expected action on some channel.
\<close>

definition authentic :: "token_env \<Rightarrow> bytes \<Rightarrow> kernel_action \<Rightarrow> ed25519_provider \<Rightarrow> u64 \<Rightarrow> bool" where
  "authentic env bs act p now \<longleftrightarrow>
     (\<exists>tok c. te_take env bs = Some (tok, []) \<and>
        is_ok (verify_signature (te_crypto env) (te_encode env) tok) \<and>
        window_contains (sc_window (tp_scope (ct_payload tok))) now \<and>
        tp_subject (ct_payload tok) = NodeId (node_id_bytes p) \<and>
        sc_action (tp_scope (ct_payload tok)) = expected_user_action act \<and>
        sc_resource (tp_scope (ct_payload tok)) = IpcChannel c)"

lemma decode_and_authenticate_ok:
  "decode_and_authenticate_token env bs act p now = Inr pr \<longleftrightarrow>
     authentic env bs act p now \<and> pr = KernelPrincipal (node_id_bytes p)"
proof (cases "decode_canonical (te_take env) bs")
  case (Inl e)
  then show ?thesis
    by (auto simp: decode_and_authenticate_token_def authentic_def decode_canonical_def)
next
  case (Inr tok)
  then have tk: "te_take env bs = Some (tok, [])" by (simp add: decode_canonical_iff)
  show ?thesis
    unfolding decode_and_authenticate_token_def authentic_def Inr tk
    by (auto simp: verify_signed_token_iff split: resource.splits node_id.splits)
qed

lemma decode_and_authenticate_err:
  "decode_and_authenticate_token env bs act p now = Inl e \<Longrightarrow>
     e = (if is_ok (decode_canonical (te_take env) bs) then CapabilityDenied else InvalidArgument)"
  by (auto simp: decode_and_authenticate_token_def split: sum.splits if_splits node_id.splits)

end
