(* ===== verification/Ipc.thy ===== *)
theory Ipc
  imports Kernel_Capability
begin

text \<open>
  Kernel message channels: \<open>nexacore-kernel/src/ipc.rs\<close>. The registry is a map from channel
  identifiers to channels with a monotone identifier counter; \<open>VecDeque\<close>s are lists with the
  front at the head. Every operation returns its result and the registry it leaves behind, so what
  an error path changes is visible.

  Shown here: the registry invariant (quotas, queue bounds, identity of channels and envelopes,
  no task parked twice) holds after every run; messages leave a channel in the order they were
  accepted, with the sender the kernel recorded and only from the authorised principal; the exact
  outcome of send and receive; and which errors leave the registry untouched.
\<close>

section \<open>Channels and messages\<close>

datatype channel_id = ChannelId (channel_raw: u64)

datatype message_kind = Request | Reply | Notification | CapabilityHandoff | SharedMemoryGrant

datatype backpressure_policy = BpBlock | BpDrop | BpEvictOldest

record channel_policy =
  cp_queue_depth :: nat
  cp_backpressure :: backpressure_policy
  cp_tee_bound :: bool

record message_envelope =
  env_sender :: task_id
  env_channel :: channel_id
  env_kind :: message_kind
  env_payload :: bytes

datatype wake_action = WakeNone | Wake task_id | WakeBlock task_id

record channel =
  ch_id :: channel_id
  ch_policy :: channel_policy
  ch_owner :: task_id
  ch_send_subject :: "kernel_principal option"
  ch_recv_subject :: "kernel_principal option"
  ch_queue :: "message_envelope list"
  ch_waiters_send :: "task_id list"
  ch_waiters_recv :: "task_id list"

definition channel_new ::
  "channel_id \<Rightarrow> channel_policy \<Rightarrow> task_id \<Rightarrow> kernel_principal option \<Rightarrow> kernel_principal option \<Rightarrow> channel" where
  "channel_new i policy owner send_subject recv_subject =
     \<lparr>ch_id = i, ch_policy = policy, ch_owner = owner, ch_send_subject = send_subject,
      ch_recv_subject = recv_subject, ch_queue = [], ch_waiters_send = [], ch_waiters_recv = []\<rparr>"

definition channel_depth :: "channel \<Rightarrow> nat" where
  "channel_depth c = length (ch_queue c)"

section \<open>The registry\<close>

definition MAX_CHANNELS_PER_OWNER :: nat where "MAX_CHANNELS_PER_OWNER = 256"
definition MAX_CHANNELS_TOTAL :: nat where "MAX_CHANNELS_TOTAL = 4096"

record ipc_registry =
  ipc_channels :: "(u64, channel) fmap"
  ipc_next_id :: u64

definition ipc_registry_new :: ipc_registry where
  "ipc_registry_new = \<lparr>ipc_channels = fmempty, ipc_next_id = 1\<rparr>"

definition channel_count :: "ipc_registry \<Rightarrow> nat" where
  "channel_count r = fm_len (ipc_channels r)"

definition get_channel :: "ipc_registry \<Rightarrow> channel_id \<Rightarrow> channel option" where
  "get_channel r i = fmlookup (ipc_channels r) (channel_raw i)"

definition owned_by :: "task_id \<Rightarrow> channel \<Rightarrow> bool" where
  "owned_by owner c \<longleftrightarrow> task_raw (ch_owner c) = task_raw owner"

definition enforce_channel_quota :: "ipc_registry \<Rightarrow> task_id \<Rightarrow> unit kernel_result" where
  "enforce_channel_quota r owner =
     (if MAX_CHANNELS_TOTAL \<le> fm_len (ipc_channels r) then Inl ResourceExhausted
      else if MAX_CHANNELS_PER_OWNER \<le> fm_count (owned_by owner) (ipc_channels r)
      then Inl ResourceExhausted
      else Inr ())"

text \<open>
  The common tail of both creation paths: the channel is inserted, then the counter is advanced;
  when the counter is exhausted the error is returned with the channel already inserted.
\<close>

definition insert_channel ::
  "ipc_registry \<Rightarrow> task_id \<Rightarrow> channel_policy \<Rightarrow> kernel_principal option \<Rightarrow> kernel_principal option \<Rightarrow>
     channel_id kernel_result \<times> ipc_registry" where
  "insert_channel r owner policy send_subject recv_subject =
     (let i = ipc_next_id r;
          r' = r\<lparr>ipc_channels := fmupd i (channel_new (ChannelId i) policy owner send_subject recv_subject)
                   (ipc_channels r)\<rparr>
      in case checked_add i 1 of
           None \<Rightarrow> (Inl ResourceExhausted, r')
         | Some n \<Rightarrow> (Inr (ChannelId i), r'\<lparr>ipc_next_id := n\<rparr>))"

definition check_token ::
  "capability_verifier \<Rightarrow> kernel_capability_token option \<Rightarrow> kernel_action \<Rightarrow> kernel_resource \<Rightarrow>
     kernel_principal option kernel_result" where
  "check_token verify tok action resource =
     (case tok of
        None \<Rightarrow> Inr None
      | Some t \<Rightarrow>
          if verify t action resource \<noteq> Authorised then Inl CapabilityDenied
          else Inr (Some (kt_subject t)))"

definition create_channel ::
  "ipc_registry \<Rightarrow> task_id \<Rightarrow> channel_policy \<Rightarrow> kernel_capability_token option \<Rightarrow>
     kernel_capability_token option \<Rightarrow> capability_verifier \<Rightarrow> channel_id kernel_result \<times> ipc_registry" where
  "create_channel r owner policy send_token recv_token verify =
     (if cp_queue_depth policy = 0 then (Inl InvalidArgument, r)
      else case enforce_channel_quota r owner of
          Inl e \<Rightarrow> (Inl e, r)
        | Inr _ \<Rightarrow>
            let resource = KIpcChannel (ipc_next_id r) in
            (case check_token verify send_token KIpcSend resource of
               Inl e \<Rightarrow> (Inl e, r)
             | Inr send_subject \<Rightarrow>
                 (case check_token verify recv_token KIpcRecv resource of
                    Inl e \<Rightarrow> (Inl e, r)
                  | Inr recv_subject \<Rightarrow> insert_channel r owner policy send_subject recv_subject)))"

definition authenticate_slot ::
  "token_env \<Rightarrow> bytes option \<Rightarrow> kernel_action \<Rightarrow> ed25519_provider \<Rightarrow> u64 \<Rightarrow>
     kernel_principal option kernel_result" where
  "authenticate_slot env slot action provider now =
     (case slot of
        None \<Rightarrow> Inr None
      | Some b \<Rightarrow>
          (case decode_and_authenticate_token env b action provider now of
             Inl e \<Rightarrow> Inl e
           | Inr p \<Rightarrow> Inr (Some p)))"

definition create_channel_signed ::
  "token_env \<Rightarrow> ipc_registry \<Rightarrow> task_id \<Rightarrow> channel_policy \<Rightarrow> bytes option \<Rightarrow> bytes option \<Rightarrow>
     ed25519_provider \<Rightarrow> u64 \<Rightarrow> channel_id kernel_result \<times> ipc_registry" where
  "create_channel_signed env r owner policy send_token_bytes recv_token_bytes provider now =
     (if send_token_bytes = None \<and> recv_token_bytes = None
      then create_channel r owner policy None None (provider_verify provider)
      else if cp_queue_depth policy = 0 then (Inl InvalidArgument, r)
      else case enforce_channel_quota r owner of
          Inl e \<Rightarrow> (Inl e, r)
        | Inr _ \<Rightarrow>
            (case authenticate_slot env send_token_bytes KIpcSend provider now of
               Inl e \<Rightarrow> (Inl e, r)
             | Inr send_subject \<Rightarrow>
                 (case authenticate_slot env recv_token_bytes KIpcRecv provider now of
                    Inl e \<Rightarrow> (Inl e, r)
                  | Inr recv_subject \<Rightarrow> insert_channel r owner policy send_subject recv_subject)))"

definition destroy_channel :: "ipc_registry \<Rightarrow> channel_id \<Rightarrow> task_id \<Rightarrow> unit kernel_result \<times> ipc_registry" where
  "destroy_channel r i requester =
     (case get_channel r i of
        None \<Rightarrow> (Inl InvalidArgument, r)
      | Some entry \<Rightarrow>
          if task_raw (ch_owner entry) \<noteq> task_raw requester then (Inl CapabilityDenied, r)
          else (Inr (), r\<lparr>ipc_channels := fmdrop (channel_raw i) (ipc_channels r)\<rparr>))"

text \<open>A channel updated in place through \<open>get_mut\<close>.\<close>

definition put_channel :: "ipc_registry \<Rightarrow> u64 \<Rightarrow> channel \<Rightarrow> ipc_registry" where
  "put_channel r i c = r\<lparr>ipc_channels := fmupd i c (ipc_channels r)\<rparr>"

text \<open>\<open>waiters.pop_front().map_or(None, Wake)\<close>, and the push guarded by \<open>contains\<close>.\<close>

fun pop_waiter :: "task_id list \<Rightarrow> wake_action \<times> task_id list" where
  "pop_waiter [] = (WakeNone, [])"
| "pop_waiter (t # ts) = (Wake t, ts)"

definition park :: "task_id list \<Rightarrow> task_id \<Rightarrow> task_id list" where
  "park ws t = (if t \<in> set ws then ws else ws @ [t])"

definition ipc_send ::
  "ipc_registry \<Rightarrow> message_envelope \<Rightarrow> task_id \<Rightarrow> kernel_principal \<Rightarrow> wake_action kernel_result \<times> ipc_registry" where
  "ipc_send r envelope sender_task requester =
     (case fmlookup (ipc_channels r) (channel_raw (env_channel envelope)) of
        None \<Rightarrow> (Inl InvalidArgument, r)
      | Some c \<Rightarrow>
          if (case ch_send_subject c of Some allowed \<Rightarrow> allowed \<noteq> requester | None \<Rightarrow> False)
          then (Inl CapabilityDenied, r)
          else
            let key = channel_raw (env_channel envelope);
                envelope = envelope\<lparr>env_sender := sender_task, env_channel := ch_id c\<rparr>;
                full = cp_queue_depth (ch_policy c) \<le> length (ch_queue c);
                enqueue = (\<lambda>c. case pop_waiter (ch_waiters_recv c) of (w, ws) \<Rightarrow>
                  (Inr w, put_channel r key (c\<lparr>ch_queue := ch_queue c @ [envelope], ch_waiters_recv := ws\<rparr>)))
            in if full
               then case cp_backpressure (ch_policy c) of
                   BpDrop \<Rightarrow> (Inl ResourceExhausted, r)
                 | BpEvictOldest \<Rightarrow> enqueue (c\<lparr>ch_queue := tl (ch_queue c)\<rparr>)
                 | BpBlock \<Rightarrow>
                     (Inr (WakeBlock sender_task),
                      put_channel r key (c\<lparr>ch_waiters_send := park (ch_waiters_send c) sender_task\<rparr>))
               else enqueue c)"

definition ipc_receive ::
  "ipc_registry \<Rightarrow> channel_id \<Rightarrow> task_id \<Rightarrow> kernel_principal \<Rightarrow> bool \<Rightarrow>
     (message_envelope option \<times> wake_action) kernel_result \<times> ipc_registry" where
  "ipc_receive r i requester_task requester blocking =
     (case fmlookup (ipc_channels r) (channel_raw i) of
        None \<Rightarrow> (Inl InvalidArgument, r)
      | Some c \<Rightarrow>
          if (case ch_recv_subject c of Some allowed \<Rightarrow> allowed \<noteq> requester | None \<Rightarrow> False)
          then (Inl CapabilityDenied, r)
          else case ch_queue c of
              env # rest \<Rightarrow>
                (case pop_waiter (ch_waiters_send c) of (w, ws) \<Rightarrow>
                   (Inr (Some env, w), put_channel r (channel_raw i) (c\<lparr>ch_queue := rest, ch_waiters_send := ws\<rparr>)))
            | [] \<Rightarrow>
                if blocking
                then (Inr (None, WakeBlock requester_task),
                      put_channel r (channel_raw i) (c\<lparr>ch_waiters_recv := park (ch_waiters_recv c) requester_task\<rparr>))
                else (Inr (None, WakeNone), r))"

definition queue_depth :: "ipc_registry \<Rightarrow> channel_id \<Rightarrow> nat kernel_result" where
  "queue_depth r i = ok_or (map_option channel_depth (fmlookup (ipc_channels r) (channel_raw i))) InvalidArgument"

section \<open>Outcomes\<close>

definition may_send :: "channel \<Rightarrow> kernel_principal \<Rightarrow> bool" where
  "may_send c p = (case ch_send_subject c of None \<Rightarrow> True | Some a \<Rightarrow> a = p)"

definition may_receive :: "channel \<Rightarrow> kernel_principal \<Rightarrow> bool" where
  "may_receive c p = (case ch_recv_subject c of None \<Rightarrow> True | Some a \<Rightarrow> a = p)"

definition ch_full :: "channel \<Rightarrow> bool" where
  "ch_full c \<longleftrightarrow> cp_queue_depth (ch_policy c) \<le> length (ch_queue c)"

text \<open>The envelope as the kernel stores it, and the queue it is appended to.\<close>

definition stamped :: "channel \<Rightarrow> task_id \<Rightarrow> message_envelope \<Rightarrow> message_envelope" where
  "stamped c t e = e\<lparr>env_sender := t, env_channel := ch_id c\<rparr>"

definition room :: "channel \<Rightarrow> message_envelope list" where
  "room c = (if ch_full c then tl (ch_queue c) else ch_queue c)"

lemma ipc_send_eq:
  "ipc_send r e t p =
     (let k = channel_raw (env_channel e) in
      case fmlookup (ipc_channels r) k of
        None \<Rightarrow> (Inl InvalidArgument, r)
      | Some c \<Rightarrow>
          if \<not> may_send c p then (Inl CapabilityDenied, r)
          else if ch_full c \<and> cp_backpressure (ch_policy c) = BpDrop then (Inl ResourceExhausted, r)
          else if ch_full c \<and> cp_backpressure (ch_policy c) = BpBlock
          then (Inr (WakeBlock t), put_channel r k (c\<lparr>ch_waiters_send := park (ch_waiters_send c) t\<rparr>))
          else (Inr (fst (pop_waiter (ch_waiters_recv c))),
                put_channel r k (c\<lparr>ch_queue := room c @ [stamped c t e],
                  ch_waiters_recv := snd (pop_waiter (ch_waiters_recv c))\<rparr>)))"
  by (auto simp: ipc_send_def may_send_def ch_full_def stamped_def room_def Let_def split_def
      split: option.splits backpressure_policy.splits)

lemma ipc_receive_eq:
  "ipc_receive r i t p blocking =
     (let k = channel_raw i in
      case fmlookup (ipc_channels r) k of
        None \<Rightarrow> (Inl InvalidArgument, r)
      | Some c \<Rightarrow>
          if \<not> may_receive c p then (Inl CapabilityDenied, r)
          else if ch_queue c \<noteq> []
          then (Inr (Some (hd (ch_queue c)), fst (pop_waiter (ch_waiters_send c))),
                put_channel r k (c\<lparr>ch_queue := tl (ch_queue c),
                  ch_waiters_send := snd (pop_waiter (ch_waiters_send c))\<rparr>))
          else if blocking
          then (Inr (None, WakeBlock t), put_channel r k (c\<lparr>ch_waiters_recv := park (ch_waiters_recv c) t\<rparr>))
          else (Inr (None, WakeNone), r))"
  by (auto simp: ipc_receive_def may_receive_def Let_def split_def split: option.splits list.splits)

section \<open>The registry invariant\<close>

definition channel_ok :: "u64 \<Rightarrow> channel \<Rightarrow> bool" where
  "channel_ok k c \<longleftrightarrow>
     ch_id c = ChannelId k \<and> 0 < cp_queue_depth (ch_policy c) \<and>
     length (ch_queue c) \<le> cp_queue_depth (ch_policy c) \<and>
     distinct (ch_waiters_send c) \<and> distinct (ch_waiters_recv c) \<and>
     list_all (\<lambda>e. env_channel e = ChannelId k) (ch_queue c)"

definition ipc_inv :: "ipc_registry \<Rightarrow> bool" where
  "ipc_inv r \<longleftrightarrow>
     (\<forall>k c. fmlookup (ipc_channels r) k = Some c \<longrightarrow> channel_ok k c \<and> 0 < k \<and> k \<le> ipc_next_id r) \<and>
     channel_count r \<le> MAX_CHANNELS_TOTAL \<and>
     (\<forall>t. fm_count (owned_by t) (ipc_channels r) \<le> MAX_CHANNELS_PER_OWNER) \<and>
     0 < ipc_next_id r"

lemma ipc_inv_put:
  assumes "ipc_inv r" and "fmlookup (ipc_channels r) k = Some c" and "channel_ok k c'"
    and "ch_owner c' = ch_owner c"
  shows "ipc_inv (put_channel r k c')"
proof -
  have "fm_count (owned_by t) (fmupd k c' (ipc_channels r)) = fm_count (owned_by t) (ipc_channels r)" for t
    by (rule fm_count_upd_same [OF assms(2)]) (simp add: owned_by_def assms(4))
  with assms(1-3) show ?thesis
    by (auto simp: ipc_inv_def put_channel_def channel_count_def fm_len_upd)
qed

lemma pop_waiter_distinct: "distinct ws \<Longrightarrow> distinct (snd (pop_waiter ws))"
  by (cases ws) auto

lemma park_distinct: "distinct ws \<Longrightarrow> distinct (park ws t)"
  by (simp add: park_def)

lemma list_all_tl: "list_all P xs \<Longrightarrow> list_all P (tl xs)"
  by (cases xs) auto

lemma ipc_inv_send: "ipc_inv r \<Longrightarrow> ipc_inv (snd (ipc_send r e t p))"
proof (cases "fmlookup (ipc_channels r) (channel_raw (env_channel e))")
  case (Some c)
  assume inv: "ipc_inv r"
  with Some have ok: "channel_ok (channel_raw (env_channel e)) c" by (auto simp: ipc_inv_def)
  then have "channel_ok (channel_raw (env_channel e)) (c\<lparr>ch_queue := room c @ [stamped c t e],
      ch_waiters_recv := snd (pop_waiter (ch_waiters_recv c))\<rparr>)"
    by (auto simp: channel_ok_def room_def ch_full_def stamped_def pop_waiter_distinct list_all_tl)
  moreover have "channel_ok (channel_raw (env_channel e)) (c\<lparr>ch_waiters_send := park (ch_waiters_send c) t\<rparr>)"
    using ok by (simp add: channel_ok_def park_distinct)
  ultimately show ?thesis
    using inv ipc_inv_put [OF inv Some] Some by (simp add: ipc_send_eq Let_def)
qed (simp add: ipc_send_eq)

lemma ipc_inv_receive: "ipc_inv r \<Longrightarrow> ipc_inv (snd (ipc_receive r i t p b))"
proof (cases "fmlookup (ipc_channels r) (channel_raw i)")
  case (Some c)
  assume inv: "ipc_inv r"
  with Some have ok: "channel_ok (channel_raw i) c" by (auto simp: ipc_inv_def)
  then have "channel_ok (channel_raw i) (c\<lparr>ch_queue := tl (ch_queue c),
      ch_waiters_send := snd (pop_waiter (ch_waiters_send c))\<rparr>)"
    by (auto simp: channel_ok_def pop_waiter_distinct list_all_tl)
  moreover have "channel_ok (channel_raw i) (c\<lparr>ch_waiters_recv := park (ch_waiters_recv c) t\<rparr>)"
    using ok by (simp add: channel_ok_def park_distinct)
  ultimately show ?thesis
    using inv ipc_inv_put [OF inv Some] Some by (simp add: ipc_receive_eq Let_def)
qed (simp add: ipc_receive_eq)

lemma ipc_inv_destroy: "ipc_inv r \<Longrightarrow> ipc_inv (snd (destroy_channel r i t))"
  by (auto simp: destroy_channel_def ipc_inv_def channel_count_def get_channel_def
      intro: order_trans [OF fm_len_drop_le] order_trans [OF fm_count_drop_le]
      split: option.splits if_splits)

lemma quota_ok:
  "enforce_channel_quota r owner = Inr u \<longleftrightarrow>
     channel_count r < MAX_CHANNELS_TOTAL \<and>
     fm_count (owned_by owner) (ipc_channels r) < MAX_CHANNELS_PER_OWNER"
  by (auto simp: enforce_channel_quota_def channel_count_def)

lemma ipc_inv_insert:
  assumes inv: "ipc_inv r" and q: "enforce_channel_quota r owner = Inr u"
    and d: "0 < cp_queue_depth policy"
  shows "ipc_inv (snd (insert_channel r owner policy ss rs))"
proof -
  let ?i = "ipc_next_id r"
  let ?c = "channel_new (ChannelId ?i) policy owner ss rs"
  let ?m = "fmupd ?i ?c (ipc_channels r)"
  have cnt: "fm_count (owned_by t) ?m \<le> MAX_CHANNELS_PER_OWNER" for t
  proof (cases "t = owner")
    case True
    then show ?thesis using q fm_count_upd_le [of "owned_by t" ?i ?c "ipc_channels r"] by (simp add: quota_ok)
  next
    case False
    then have "\<not> owned_by t ?c" by (simp add: owned_by_def channel_new_def)
    then have "fm_count (owned_by t) ?m \<le> fm_count (owned_by t) (ipc_channels r)" by (rule fm_count_upd_not)
    also have "\<dots> \<le> MAX_CHANNELS_PER_OWNER" using inv by (simp add: ipc_inv_def)
    finally show ?thesis .
  qed
  have len: "fm_len ?m \<le> MAX_CHANNELS_TOTAL" using q by (simp add: quota_ok fm_len_upd channel_count_def)
  have ok: "channel_ok ?i ?c" using d by (simp add: channel_ok_def channel_new_def)
  have next_le: "?i \<le> n \<and> 0 < n" if "checked_add ?i 1 = Some n" for n
  proof -
    have "unat n = Suc (unat ?i)" using checked_add_SomeD [OF that, THEN conjunct2] by simp
    then show ?thesis unfolding word_le_nat_alt word_less_nat_alt by simp
  qed
  have all: "\<forall>k c. fmlookup ?m k = Some c \<longrightarrow> channel_ok k c \<and> 0 < k \<and> k \<le> ?i"
    using inv ok by (simp add: ipc_inv_def)
  have pos: "0 < ?i" using inv by (simp add: ipc_inv_def)
  show ?thesis
  proof (cases "checked_add ?i 1")
    case None
    with all cnt len pos show ?thesis
      by (simp add: insert_channel_def Let_def ipc_inv_def channel_count_def)
  next
    case (Some n)
    from all next_le [OF Some] have "\<forall>k c. fmlookup ?m k = Some c \<longrightarrow> channel_ok k c \<and> 0 < k \<and> k \<le> n"
      by (blast intro: order_trans)
    with Some cnt len next_le [OF Some] show ?thesis
      by (simp add: insert_channel_def Let_def ipc_inv_def channel_count_def)
  qed
qed

lemma ipc_inv_create: "ipc_inv r \<Longrightarrow> ipc_inv (snd (create_channel r owner policy st rt verify))"
  by (auto simp: create_channel_def Let_def intro: ipc_inv_insert split: sum.splits)

lemma ipc_inv_create_signed:
  "ipc_inv r \<Longrightarrow> ipc_inv (snd (create_channel_signed env r owner policy sb rb prov now))"
  by (auto simp: create_channel_signed_def Let_def intro: ipc_inv_insert ipc_inv_create split: sum.splits)

section \<open>Runs with history\<close>

text \<open>
  A run records every message a channel accepted, with the task and principal that sent it, and
  every message that left a queue, either delivered to a receiver or evicted to make room.
\<close>

datatype ipc_op =
    OpCreate task_id channel_policy "kernel_capability_token option" "kernel_capability_token option"
  | OpCreateSigned task_id channel_policy "bytes option" "bytes option" u64
  | OpDestroy channel_id task_id
  | OpSend message_envelope task_id kernel_principal
  | OpReceive channel_id task_id kernel_principal bool

datatype departure = Delivered message_envelope | Evicted message_envelope

fun dep_msg :: "departure \<Rightarrow> message_envelope" where
  "dep_msg (Delivered e) = e"
| "dep_msg (Evicted e) = e"

record ipc_history =
  ih_reg :: ipc_registry
  ih_accepted :: "(u64 \<times> task_id \<times> kernel_principal \<times> message_envelope) list"
  ih_left :: "(u64 \<times> departure) list"

definition ipc_start :: ipc_history where
  "ipc_start = \<lparr>ih_reg = ipc_registry_new, ih_accepted = [], ih_left = []\<rparr>"

text \<open>What one send adds to the history, read off the state before it and its result.\<close>

definition send_accepted ::
  "ipc_registry \<Rightarrow> message_envelope \<Rightarrow> task_id \<Rightarrow> kernel_principal \<Rightarrow>
     (u64 \<times> task_id \<times> kernel_principal \<times> message_envelope) list" where
  "send_accepted r e t p =
     (case fst (ipc_send r e t p) of
        Inr (WakeBlock _) \<Rightarrow> []
      | Inr _ \<Rightarrow>
          let k = channel_raw (env_channel e) in
          [(k, t, p, last (ch_queue (the (fmlookup (ipc_channels (snd (ipc_send r e t p))) k))))]
      | Inl _ \<Rightarrow> [])"

definition send_evicted :: "ipc_registry \<Rightarrow> message_envelope \<Rightarrow> task_id \<Rightarrow> kernel_principal \<Rightarrow> (u64 \<times> departure) list" where
  "send_evicted r e t p =
     (if send_accepted r e t p = [] then []
      else let k = channel_raw (env_channel e); c = the (fmlookup (ipc_channels r) k) in
        if ch_full c then map (\<lambda>m. (k, Evicted m)) (take 1 (ch_queue c)) else [])"

definition received :: "channel_id \<Rightarrow> (message_envelope option \<times> wake_action) kernel_result \<Rightarrow> (u64 \<times> departure) list" where
  "received i res =
     (case res of Inr (Some e, _) \<Rightarrow> [(channel_raw i, Delivered e)] | _ \<Rightarrow> [])"

fun ipc_step :: "token_env \<Rightarrow> ed25519_provider \<Rightarrow> ipc_history \<Rightarrow> ipc_op \<Rightarrow> ipc_history" where
  "ipc_step env prov h (OpCreate t pol st rt) =
     h\<lparr>ih_reg := snd (create_channel (ih_reg h) t pol st rt (provider_verify prov))\<rparr>"
| "ipc_step env prov h (OpCreateSigned t pol sb rb now) =
     h\<lparr>ih_reg := snd (create_channel_signed env (ih_reg h) t pol sb rb prov now)\<rparr>"
| "ipc_step env prov h (OpDestroy i t) = h\<lparr>ih_reg := snd (destroy_channel (ih_reg h) i t)\<rparr>"
| "ipc_step env prov h (OpSend e t p) =
     h\<lparr>ih_reg := snd (ipc_send (ih_reg h) e t p),
       ih_accepted := ih_accepted h @ send_accepted (ih_reg h) e t p,
       ih_left := ih_left h @ send_evicted (ih_reg h) e t p\<rparr>"
| "ipc_step env prov h (OpReceive i t p b) =
     h\<lparr>ih_reg := snd (ipc_receive (ih_reg h) i t p b),
       ih_left := ih_left h @ received i (fst (ipc_receive (ih_reg h) i t p b))\<rparr>"

lemma ipc_inv_new: "ipc_inv ipc_registry_new"
  by (simp add: ipc_inv_def ipc_registry_new_def channel_count_def)

lemma ipc_inv_step: "ipc_inv (ih_reg h) \<Longrightarrow> ipc_inv (ih_reg (ipc_step env prov h x))"
  by (cases x)
    (simp_all add: ipc_inv_create ipc_inv_create_signed ipc_inv_destroy ipc_inv_send ipc_inv_receive)

interpretation ipc_sys: op_system "ipc_step env prov" "\<lambda>h. ipc_inv (ih_reg h)" for env prov
  by unfold_locales (rule ipc_inv_step)

subsection \<open>The history invariant\<close>

abbreviation acc_at :: "ipc_history \<Rightarrow> u64 \<Rightarrow> (task_id \<times> kernel_principal \<times> message_envelope) list" where
  "acc_at h k \<equiv> map snd (filter (\<lambda>x. fst x = k) (ih_accepted h))"

abbreviation left_at :: "ipc_history \<Rightarrow> u64 \<Rightarrow> departure list" where
  "left_at h k \<equiv> map snd (filter (\<lambda>x. fst x = k) (ih_left h))"

definition channel_hist :: "ipc_history \<Rightarrow> u64 \<Rightarrow> channel \<Rightarrow> bool" where
  "channel_hist h k c \<longleftrightarrow>
     map (\<lambda>(t, p, e). e) (acc_at h k) = map dep_msg (left_at h k) @ ch_queue c \<and>
     list_all (\<lambda>(t, p, e). env_sender e = t \<and> env_channel e = ChannelId k \<and> may_send c p) (acc_at h k)"

text \<open>Identifiers at or above the counter are unused; the claim lapses once the counter is exhausted.\<close>

definition hist_inv :: "ipc_history \<Rightarrow> bool" where
  "hist_inv h \<longleftrightarrow> ipc_inv (ih_reg h) \<and>
     (ipc_next_id (ih_reg h) = - 1 \<or>
       (\<forall>k c. fmlookup (ipc_channels (ih_reg h)) k = Some c \<longrightarrow> channel_hist h k c \<and> k < ipc_next_id (ih_reg h)) \<and>
       (\<forall>k. ipc_next_id (ih_reg h) \<le> k \<longrightarrow> acc_at h k = [] \<and> left_at h k = []))"

lemma put_channel_simps [simp]:
  "ipc_next_id (put_channel r k c) = ipc_next_id r"
  "fmlookup (ipc_channels (put_channel r k c)) j = (if j = k then Some c else fmlookup (ipc_channels r) j)"
  by (simp_all add: put_channel_def)

lemma next_id_send [simp]: "ipc_next_id (snd (ipc_send r e t p)) = ipc_next_id r"
  by (simp add: ipc_send_eq Let_def split: option.splits)

lemma next_id_receive [simp]: "ipc_next_id (snd (ipc_receive r i t p b)) = ipc_next_id r"
  by (simp add: ipc_receive_eq Let_def split: option.splits)

lemma hist_insert:
  assumes "hist_inv h" and "ipc_inv r'" and "snd (insert_channel (ih_reg h) owner policy ss rs) = r'"
  shows "hist_inv (h\<lparr>ih_reg := r'\<rparr>)"
proof (cases "ipc_next_id r' = - 1")
  case False
  let ?i = "ipc_next_id (ih_reg h)"
  obtain n where n: "checked_add ?i 1 = Some n" "ipc_next_id r' = n" and ne: "?i \<noteq> - 1"
  proof (cases "checked_add ?i 1")
    case None
    then have "ipc_next_id r' = ?i" using assms(3) by (auto simp: insert_channel_def Let_def)
    moreover have "?i = - 1" using None by (simp add: checked_succ_None_iff)
    ultimately show ?thesis using False by simp
  next
    case (Some n)
    then have "?i \<noteq> - 1" using checked_succ_None_iff [of ?i] by auto
    moreover have "ipc_next_id r' = n" using Some assms(3) by (auto simp: insert_channel_def Let_def)
    ultimately show ?thesis using Some that by blast
  qed
  have n': "unat n = Suc (unat ?i)" using checked_add_SomeD [OF n(1), THEN conjunct2] by simp
  from assms(1) ne have
    old: "\<And>k c. fmlookup (ipc_channels (ih_reg h)) k = Some c \<Longrightarrow> channel_hist h k c \<and> k < ?i"
    and fresh: "\<And>k. ?i \<le> k \<Longrightarrow> acc_at h k = [] \<and> left_at h k = []"
    by (auto simp: hist_inv_def)
  have r': "ipc_channels r' = fmupd ?i (channel_new (ChannelId ?i) policy owner ss rs) (ipc_channels (ih_reg h))"
    using assms(3) n by (auto simp: insert_channel_def Let_def)
  have lt: "?i < n" and le: "n \<le> k \<Longrightarrow> ?i \<le> k" for k
    using n' by (simp_all add: word_less_nat_alt word_le_nat_alt)
  have "channel_hist (h\<lparr>ih_reg := r'\<rparr>) k c \<and> k < n" if "fmlookup (ipc_channels r') k = Some c" for k c
  proof (cases "k = ?i")
    case True
    with that r' have c: "c = channel_new (ChannelId ?i) policy owner ss rs" by simp
    from fresh [of ?i] show ?thesis by (simp add: True c lt channel_hist_def channel_new_def)
  next
    case False
    with that r' old [of k c] lt show ?thesis by (auto simp: channel_hist_def)
  qed
  with fresh le assms(2) n(2) show ?thesis by (simp add: hist_inv_def)
qed (use assms in \<open>simp add: hist_inv_def\<close>)

lemma create_channel_cases:
  "(\<exists>e. create_channel r owner policy st rt verify = (Inl e, r)) \<or>
   (\<exists>ss rs. create_channel r owner policy st rt verify = insert_channel r owner policy ss rs)"
  by (auto simp: create_channel_def Let_def split: sum.splits)

lemma create_channel_signed_cases:
  "(\<exists>e. create_channel_signed env r owner policy sb rb prov now = (Inl e, r)) \<or>
   (\<exists>ss rs. create_channel_signed env r owner policy sb rb prov now = insert_channel r owner policy ss rs)"
  using create_channel_cases [of r owner policy None None "provider_verify prov"]
  by (auto simp: create_channel_signed_def split: sum.splits)

lemma hist_create:
  "hist_inv h \<Longrightarrow> hist_inv (h\<lparr>ih_reg := snd (create_channel (ih_reg h) owner policy st rt verify)\<rparr>)"
  using create_channel_cases [of "ih_reg h" owner policy st rt verify]
    hist_insert [of h "snd (create_channel (ih_reg h) owner policy st rt verify)"]
    ipc_inv_create [of "ih_reg h" owner policy st rt verify]
  by (auto simp: hist_inv_def)

lemma hist_create_signed:
  "hist_inv h \<Longrightarrow> hist_inv (h\<lparr>ih_reg := snd (create_channel_signed env (ih_reg h) owner policy sb rb prov now)\<rparr>)"
  using create_channel_signed_cases [of env "ih_reg h" owner policy sb rb prov now]
    hist_insert [of h "snd (create_channel_signed env (ih_reg h) owner policy sb rb prov now)"]
    ipc_inv_create_signed [of "ih_reg h" env owner policy sb rb prov now]
  by (auto simp: hist_inv_def)

lemma channel_hist_reg [simp]: "channel_hist (h\<lparr>ih_reg := r\<rparr>) k c = channel_hist h k c"
  by (simp add: channel_hist_def)

lemma hist_destroy: "hist_inv h \<Longrightarrow> hist_inv (h\<lparr>ih_reg := snd (destroy_channel (ih_reg h) i t)\<rparr>)"
  using ipc_inv_destroy [of "ih_reg h" i t]
  by (auto simp: hist_inv_def destroy_channel_def split: option.splits if_splits)

lemma pop_waiter_not_block: "fst (pop_waiter ws) \<noteq> WakeBlock t"
  by (cases ws) auto

lemma send_history:
  assumes "fmlookup (ipc_channels r) (channel_raw (env_channel e)) = Some c"
  shows "send_accepted r e t p =
      (if may_send c p \<and> (ch_full c \<longrightarrow> cp_backpressure (ch_policy c) = BpEvictOldest)
       then [(channel_raw (env_channel e), t, p, stamped c t e)] else [])"
    and "send_evicted r e t p =
      (if may_send c p \<and> ch_full c \<and> cp_backpressure (ch_policy c) = BpEvictOldest
       then map (\<lambda>m. (channel_raw (env_channel e), Evicted m)) (take 1 (ch_queue c)) else [])"
proof -
  show acc: "send_accepted r e t p =
      (if may_send c p \<and> (ch_full c \<longrightarrow> cp_backpressure (ch_policy c) = BpEvictOldest)
       then [(channel_raw (env_channel e), t, p, stamped c t e)] else [])"
    using assms pop_waiter_not_block [of "ch_waiters_recv c"]
    by (cases "cp_backpressure (ch_policy c)"; cases "pop_waiter (ch_waiters_recv c)"; cases "fst (pop_waiter (ch_waiters_recv c))")
      (auto simp: send_accepted_def ipc_send_eq Let_def)
  show "send_evicted r e t p =
      (if may_send c p \<and> ch_full c \<and> cp_backpressure (ch_policy c) = BpEvictOldest
       then map (\<lambda>m. (channel_raw (env_channel e), Evicted m)) (take 1 (ch_queue c)) else [])"
    using assms by (auto simp: send_evicted_def acc Let_def)
qed

lemma send_history_None:
  assumes "fmlookup (ipc_channels r) (channel_raw (env_channel e)) = None"
  shows "send_accepted r e t p = []" "send_evicted r e t p = []"
  using assms by (simp_all add: send_evicted_def send_accepted_def ipc_send_eq)

lemma take1_tl: "map f (take 1 xs) @ map f (tl xs) = map f xs"
  by (cases xs) auto

lemma channel_hist_enqueue:
  assumes ch: "channel_hist h k c" and "ch_id c = ChannelId k" and "may_send c p"
    and c': "ch_send_subject c' = ch_send_subject c" "ch_queue c' = room c @ [stamped c t e]"
    and h': "ih_accepted h' = ih_accepted h @ [(k, t, p, stamped c t e)]"
      "ih_left h' = ih_left h @ (if ch_full c then map (\<lambda>m. (k, Evicted m)) (take 1 (ch_queue c)) else [])"
  shows "channel_hist h' k c'"
proof -
  have ms: "may_send c' q = may_send c q" for q using c'(1) by (simp add: may_send_def)
  have acc: "acc_at h' k = acc_at h k @ [(t, p, stamped c t e)]" by (simp add: h')
  have "left_at h' k = left_at h k @ (if ch_full c then map Evicted (take 1 (ch_queue c)) else [])"
    by (simp add: h' comp_def filter_map)
  then have "map dep_msg (left_at h' k) @ room c = map dep_msg (left_at h k) @ ch_queue c"
    using take1_tl [of "\<lambda>m. m" "ch_queue c"] by (simp add: room_def comp_def)
  then show ?thesis
    using ch assms(2,3) unfolding channel_hist_def acc c'(2)
    by (simp add: ms stamped_def)
qed

lemma channel_hist_other:
  assumes "acc_at h' k = acc_at h k" and "left_at h' k = left_at h k"
  shows "channel_hist h' k c = channel_hist h k c"
  using assms by (simp add: channel_hist_def)

text \<open>A step that touches one live channel and appends to that channel's history only.\<close>

lemma hist_update:
  assumes inv: "hist_inv h" and reg: "ipc_inv (ih_reg h')"
    and nid: "ipc_next_id (ih_reg h') = ipc_next_id (ih_reg h)"
    and k: "fmlookup (ipc_channels (ih_reg h)) k = Some c"
    and lk: "\<And>j. fmlookup (ipc_channels (ih_reg h')) j =
      (if j = k then Some c' else fmlookup (ipc_channels (ih_reg h)) j)"
    and other: "\<And>j. j \<noteq> k \<Longrightarrow> acc_at h' j = acc_at h j \<and> left_at h' j = left_at h j"
    and here: "channel_hist h k c \<Longrightarrow> channel_hist h' k c'"
  shows "hist_inv h'"
proof (cases "ipc_next_id (ih_reg h) = - 1")
  case True
  with reg nid show ?thesis by (simp add: hist_inv_def)
next
  case False
  let ?n = "ipc_next_id (ih_reg h)"
  from False inv have old: "\<And>j c. fmlookup (ipc_channels (ih_reg h)) j = Some c \<Longrightarrow> channel_hist h j c \<and> j < ?n"
    and fresh: "\<And>j. ?n \<le> j \<Longrightarrow> acc_at h j = [] \<and> left_at h j = []"
    unfolding hist_inv_def by blast+
  have "channel_hist h' j d \<and> j < ?n" if "fmlookup (ipc_channels (ih_reg h')) j = Some d" for j d
  proof (cases "j = k")
    case True
    with that lk [of j] old [OF k] here show ?thesis by simp
  next
    case False
    with that lk [of j] old [of j d] other [OF False] channel_hist_other [of j h' h d]
    show ?thesis by simp
  qed
  moreover have "acc_at h' j = [] \<and> left_at h' j = []" if "?n \<le> j" for j
  proof -
    have "j \<noteq> k" using old [OF k] that by auto
    with other fresh [OF that] show ?thesis by simp
  qed
  ultimately show ?thesis unfolding hist_inv_def nid using reg by blast
qed

lemma step_send_accepted:
  assumes "fmlookup (ipc_channels (ih_reg h)) (channel_raw (env_channel e)) = Some c"
    and "may_send c p" and "ch_full c \<longrightarrow> cp_backpressure (ch_policy c) = BpEvictOldest"
  shows "ipc_step env prov h (OpSend e t p) = (let k = channel_raw (env_channel e) in
    h\<lparr>ih_reg := put_channel (ih_reg h) k (c\<lparr>ch_queue := room c @ [stamped c t e],
         ch_waiters_recv := snd (pop_waiter (ch_waiters_recv c))\<rparr>),
      ih_accepted := ih_accepted h @ [(k, t, p, stamped c t e)],
      ih_left := ih_left h @ (if ch_full c then map (\<lambda>m. (k, Evicted m)) (take 1 (ch_queue c)) else [])\<rparr>)"
  using assms by (auto simp: send_history [OF assms(1)] ipc_send_eq Let_def)

lemma step_send_blocked:
  assumes "fmlookup (ipc_channels (ih_reg h)) (channel_raw (env_channel e)) = Some c"
    and "may_send c p" and "ch_full c" and "cp_backpressure (ch_policy c) = BpBlock"
  shows "ipc_step env prov h (OpSend e t p) =
    h\<lparr>ih_reg := put_channel (ih_reg h) (channel_raw (env_channel e))
        (c\<lparr>ch_waiters_send := park (ch_waiters_send c) t\<rparr>)\<rparr>"
  using assms by (auto simp: send_history [OF assms(1)] ipc_send_eq Let_def)

lemma step_send_refused:
  assumes "fmlookup (ipc_channels (ih_reg h)) (channel_raw (env_channel e)) = Some c"
    and "\<not> may_send c p \<or> ch_full c \<and> cp_backpressure (ch_policy c) = BpDrop"
  shows "ipc_step env prov h (OpSend e t p) = h"
  using assms by (auto simp: send_history [OF assms(1)] ipc_send_eq Let_def)

lemma hist_send:
  assumes inv: "hist_inv h"
  shows "hist_inv (ipc_step env prov h (OpSend e t p))"
proof (cases "fmlookup (ipc_channels (ih_reg h)) (channel_raw (env_channel e))")
  case None
  then show ?thesis using inv by (simp add: send_history_None ipc_send_eq)
next
  case (Some c)
  let ?k = "channel_raw (env_channel e)" and ?h = "ipc_step env prov h (OpSend e t p)"
  have reg: "ipc_inv (ih_reg ?h)" using inv by (simp add: hist_inv_def ipc_inv_send)
  have id: "ch_id c = ChannelId ?k" using inv Some by (auto simp: hist_inv_def ipc_inv_def channel_ok_def)
  consider (refused) "\<not> may_send c p \<or> ch_full c \<and> cp_backpressure (ch_policy c) = BpDrop"
    | (blocked) "may_send c p" "ch_full c" "cp_backpressure (ch_policy c) = BpBlock"
    | (accepted) "may_send c p" "ch_full c \<longrightarrow> cp_backpressure (ch_policy c) = BpEvictOldest"
    by (cases "cp_backpressure (ch_policy c)") auto
  then show ?thesis
  proof cases
    case refused
    then show ?thesis using inv step_send_refused [OF Some] by simp
  next
    case blocked
    note eq = step_send_blocked [OF Some blocked, of env prov t]
    show ?thesis unfolding eq
      by (rule hist_update [OF inv reg [unfolded eq] _ Some,
            where c' = "c\<lparr>ch_waiters_send := park (ch_waiters_send c) t\<rparr>"])
        (simp_all add: channel_hist_def may_send_def)
  next
    case accepted
    note eq = step_send_accepted [OF Some accepted, of env prov t, unfolded Let_def]
    show ?thesis unfolding eq
      by (rule hist_update [OF inv reg [unfolded eq] _ Some,
            where c' = "c\<lparr>ch_queue := room c @ [stamped c t e],
            ch_waiters_recv := snd (pop_waiter (ch_waiters_recv c))\<rparr>"])
        (simp_all add: filter_map comp_def channel_hist_enqueue [OF _ id accepted(1)])
  qed
qed

lemma step_receive_msg:
  assumes "fmlookup (ipc_channels (ih_reg h)) (channel_raw i) = Some c" and "may_receive c p"
    and "ch_queue c = m # q"
  shows "ipc_step env prov h (OpReceive i t p b) =
    h\<lparr>ih_reg := put_channel (ih_reg h) (channel_raw i)
         (c\<lparr>ch_queue := q, ch_waiters_send := snd (pop_waiter (ch_waiters_send c))\<rparr>),
      ih_left := ih_left h @ [(channel_raw i, Delivered m)]\<rparr>"
  using assms by (simp add: ipc_receive_eq Let_def received_def)

lemma hist_receive:
  assumes inv: "hist_inv h"
  shows "hist_inv (ipc_step env prov h (OpReceive i t p b))"
proof (cases "fmlookup (ipc_channels (ih_reg h)) (channel_raw i)")
  case None
  then show ?thesis using inv by (simp add: ipc_receive_eq received_def)
next
  case (Some c)
  let ?h = "ipc_step env prov h (OpReceive i t p b)"
  have reg: "ipc_inv (ih_reg ?h)" using inv by (simp add: hist_inv_def ipc_inv_receive)
  show ?thesis
  proof (cases "may_receive c p")
    case False
    then show ?thesis using inv Some by (simp add: ipc_receive_eq Let_def received_def)
  next
    case may: True
    show ?thesis
    proof (cases "ch_queue c")
      case Nil
      show ?thesis
      proof (cases b)
        case True
        with Some may Nil have eq: "?h = h\<lparr>ih_reg := put_channel (ih_reg h) (channel_raw i)
            (c\<lparr>ch_waiters_recv := park (ch_waiters_recv c) t\<rparr>)\<rparr>"
          by (simp add: ipc_receive_eq Let_def received_def)
        show ?thesis unfolding eq
          by (rule hist_update [OF inv reg [unfolded eq] _ Some,
                where c' = "c\<lparr>ch_waiters_recv := park (ch_waiters_recv c) t\<rparr>"])
            (simp_all add: channel_hist_def may_send_def)
      qed (use inv Some may Nil in \<open>simp add: ipc_receive_eq Let_def received_def\<close>)
    next
      case (Cons m q)
      note eq = step_receive_msg [OF Some may Cons, of env prov t b]
      show ?thesis unfolding eq
        by (rule hist_update [OF inv reg [unfolded eq] _ Some, where c' =
              "c\<lparr>ch_queue := q, ch_waiters_send := snd (pop_waiter (ch_waiters_send c))\<rparr>"])
          (simp_all add: channel_hist_def may_send_def Cons)
    qed
  qed
qed

lemma hist_inv_step: "hist_inv h \<Longrightarrow> hist_inv (ipc_step env prov h x)"
proof (cases x)
  case (OpSend e t p)
  assume "hist_inv h"
  then show ?thesis unfolding OpSend by (rule hist_send)
next
  case (OpReceive i t p b)
  assume "hist_inv h"
  then show ?thesis unfolding OpReceive by (rule hist_receive)
qed (simp_all add: hist_create hist_create_signed hist_destroy)

interpretation ipc_hist: op_system "ipc_step env prov" hist_inv for env prov
  by unfold_locales (rule hist_inv_step)

lemma hist_run: "hist_inv (foldl (ipc_step env prov) ipc_start ops)"
  by (rule ipc_hist.inv_run) (simp add: hist_inv_def ipc_start_def ipc_inv_new, simp add: ipc_registry_new_def)

section \<open>Gated creation\<close>

text \<open>What the registry's creation path guarantees from the checker's contract alone.\<close>

context capability_check
begin

lemma check_token_ok:
  "check_token verify tok a res = Inr subj \<longleftrightarrow>
     subj = map_option kt_subject tok \<and>
     (case tok of None \<Rightarrow> True | Some t \<Rightarrow> verify t a res = Authorised)"
  by (auto simp: check_token_def split: option.splits)

lemma create_gated:
  assumes "create_channel r owner policy st rt verify = (Inr i, r')"
  shows "get_channel r' i = Some (channel_new i policy owner (map_option kt_subject st) (map_option kt_subject rt)) \<and>
    (case st of None \<Rightarrow> True | Some t \<Rightarrow> kt_action t = KIpcSend \<and> kt_resource t = KIpcChannel (channel_raw i)) \<and>
    (case rt of None \<Rightarrow> True | Some t \<Rightarrow> kt_action t = KIpcRecv \<and> kt_resource t = KIpcChannel (channel_raw i))"
proof -
  from assms obtain ss rs where
    c: "check_token verify st KIpcSend (KIpcChannel (ipc_next_id r)) = Inr ss"
       "check_token verify rt KIpcRecv (KIpcChannel (ipc_next_id r)) = Inr rs"
       "insert_channel r owner policy ss rs = (Inr i, r')"
    by (auto simp: create_channel_def Let_def split: if_splits sum.splits)
  from c(3) have "i = ChannelId (ipc_next_id r)" "get_channel r' i = Some (channel_new i policy owner ss rs)"
    by (auto simp: insert_channel_def Let_def get_channel_def split: option.splits)
  with c(1,2) show ?thesis
    using authorised_exact by (auto simp: check_token_ok split: option.splits)
qed

end

lemma authenticate_slot_ok:
  "authenticate_slot env slot act p now = Inr subj \<longleftrightarrow>
     subj = map_option (\<lambda>_. KernelPrincipal (node_id_bytes p)) slot \<and>
     (case slot of None \<Rightarrow> True | Some b \<Rightarrow> authentic env b act p now)"
  by (cases slot)
    (auto simp: authenticate_slot_def decode_and_authenticate_ok split: sum.splits
      dest: decode_and_authenticate_ok [THEN iffD2, OF conjI [OF _ refl]])

lemma denied_iff:
  assumes "get_channel r i = Some (channel_new i policy owner ss rs)"
  shows "fst (ipc_send r (e\<lparr>env_channel := i\<rparr>) t q) = Inl CapabilityDenied \<longleftrightarrow> (\<exists>a. ss = Some a \<and> a \<noteq> q)"
    and "fst (ipc_receive r i t q blk) = Inl CapabilityDenied \<longleftrightarrow> (\<exists>a. rs = Some a \<and> a \<noteq> q)"
  using assms
  by (auto simp: get_channel_def ipc_send_eq ipc_receive_eq may_send_def may_receive_def channel_new_def Let_def
      split: option.splits)

lemma create_signed_gated:
  assumes "create_channel_signed env r owner policy sb rb p now = (Inr i, r')"
  shows "get_channel r' i = Some (channel_new i policy owner
      (map_option (\<lambda>_. KernelPrincipal (node_id_bytes p)) sb) (map_option (\<lambda>_. KernelPrincipal (node_id_bytes p)) rb)) \<and>
    (case sb of None \<Rightarrow> True | Some b \<Rightarrow> authentic env b KIpcSend p now) \<and>
    (case rb of None \<Rightarrow> True | Some b \<Rightarrow> authentic env b KIpcRecv p now)"
proof (cases "sb = None \<and> rb = None")
  case True
  with assms have "create_channel r owner policy None None (provider_verify p) = (Inr i, r')"
    by (simp add: create_channel_signed_def)
  from ed25519.create_gated [OF this] True show ?thesis by simp
next
  case False
  with assms obtain ss rs where
    c: "authenticate_slot env sb KIpcSend p now = Inr ss" "authenticate_slot env rb KIpcRecv p now = Inr rs"
       "insert_channel r owner policy ss rs = (Inr i, r')"
    by (auto simp: create_channel_signed_def split: if_splits sum.splits)
  from c(3) have "get_channel r' i = Some (channel_new i policy owner ss rs)"
    by (auto simp: insert_channel_def Let_def get_channel_def split: option.splits)
  with c(1,2) show ?thesis by (simp add: authenticate_slot_ok)
qed

section \<open>Properties\<close>

text \<open>
  C27. The registry invariant. After any sequence of creations (open, gated or signed),
  destructions, sends and receives from an empty registry, for any token environment and provider:
  every channel is stored under its own nonzero identifier, its queue is within its policy depth
  and holds only envelopes stamped with that channel, no task is parked twice on one side, at most
  4096 channels exist and no task owns more than 256.
\<close>

theorem ipc_registry_invariant:
  "ipc_inv (ih_reg (foldl (ipc_step env prov) ipc_start ops))"
  using hist_run by (simp add: hist_inv_def)

text \<open>
  C4. Ordered, authenticated delivery. For every live channel after any run (before the 64-bit
  identifier counter is exhausted), the messages it accepted, in order, are the messages that left
  it, in order, followed by its queue: nothing is lost, duplicated or reordered, and only eviction
  and delivery remove messages. Every accepted message carries the task that sent it and the
  channel it was sent on, and came from the principal the channel authorises.
\<close>

theorem ipc_ordered_authenticated:
  assumes h: "h = foldl (ipc_step env prov) ipc_start ops"
    and "ipc_next_id (ih_reg h) \<noteq> - 1" and "fmlookup (ipc_channels (ih_reg h)) k = Some c"
  shows "map (\<lambda>(t, p, e). e) (acc_at h k) = map dep_msg (left_at h k) @ ch_queue c \<and>
    list_all (\<lambda>(t, p, e). env_sender e = t \<and> env_channel e = ChannelId k \<and>
      (case ch_send_subject c of None \<Rightarrow> True | Some a \<Rightarrow> a = p)) (acc_at h k)"
proof -
  from hist_run [of env prov ops] assms have "channel_hist h k c" by (auto simp: hist_inv_def)
  then show ?thesis by (simp add: channel_hist_def may_send_def)
qed

definition demo_env :: token_env where
  "demo_env = \<lparr>te_crypto = demo_crypto, te_encode = demo_encoder, te_blake3 = id,
     te_take = (\<lambda>bs. Some (demo_token\<lparr>ct_payload := (ct_payload demo_token)\<lparr>tp_scope :=
       demo_scope\<lparr>sc_action := IpcSend, sc_resource := IpcChannel 1\<rparr>\<rparr>\<rparr>, []))\<rparr>"

definition demo_policy :: channel_policy where
  "demo_policy = \<lparr>cp_queue_depth = 1, cp_backpressure = BpEvictOldest, cp_tee_bound = False\<rparr>"

definition demo_msg :: "u8 \<Rightarrow> message_envelope" where
  "demo_msg b = \<lparr>env_sender = TaskId 0, env_channel = ChannelId 1, env_kind = Request, env_payload = [b]\<rparr>"

definition demo_ops :: "ipc_op list" where
  "demo_ops = [OpCreate (TaskId 5) demo_policy None None,
     OpSend (demo_msg 1) (TaskId 7) (KernelPrincipal []), OpSend (demo_msg 2) (TaskId 8) (KernelPrincipal [])]"

lemmas demo_defs = demo_ops_def demo_policy_def demo_msg_def ipc_start_def ipc_registry_new_def
  create_channel_def enforce_channel_quota_def MAX_CHANNELS_TOTAL_def MAX_CHANNELS_PER_OWNER_def
  check_token_def insert_channel_def channel_new_def ipc_send_eq may_send_def ch_full_def
  stamped_def room_def put_channel_def send_accepted_def send_evicted_def checked_add_def

theorem ipc_ordered_authenticated_witness:
  "let h = foldl (ipc_step demo_env provider_placeholder) ipc_start demo_ops;
       c = the (fmlookup (ipc_channels (ih_reg h)) 1) in
   left_at h 1 = [Evicted ((demo_msg 1)\<lparr>env_sender := TaskId 7\<rparr>)] \<and>
   map (\<lambda>(t, p, e). e) (acc_at h 1) = map dep_msg (left_at h 1) @ ch_queue c"
proof -
  let ?h = "foldl (ipc_step demo_env provider_placeholder) ipc_start demo_ops"
  have c: "fmlookup (ipc_channels (ih_reg ?h)) 1 \<noteq> None" and n: "ipc_next_id (ih_reg ?h) \<noteq> - 1"
    and l: "left_at ?h 1 = [Evicted ((demo_msg 1)\<lparr>env_sender := TaskId 7\<rparr>)]"
    by (simp_all add: demo_defs Let_def)
  from c obtain ch where ch: "fmlookup (ipc_channels (ih_reg ?h)) 1 = Some ch" by auto
  from ipc_ordered_authenticated [OF refl n ch] l show ?thesis unfolding Let_def ch option.sel by blast
qed

text \<open>
  C28. Errors change nothing, with one exception. A failed send, receive or destruction leaves the
  registry exactly as it was, and so does a failed creation unless the identifier counter is at its
  maximum; in that case the only change a failed creation may make is to add the channel
  with the last identifier.
\<close>

theorem ipc_errors_atomic:
  "(case ipc_send r e t p of (Inl _, r') \<Rightarrow> r' = r | (Inr _, _) \<Rightarrow> True) \<and>
   (case ipc_receive r i t p b of (Inl _, r') \<Rightarrow> r' = r | (Inr _, _) \<Rightarrow> True) \<and>
   (case destroy_channel r i t of (Inl _, r') \<Rightarrow> r' = r | (Inr _, _) \<Rightarrow> True) \<and>
   (case create_channel r t pol st rt verify of
      (Inl _, r') \<Rightarrow> r' = r \<or> ipc_next_id r = - 1 \<and> (\<exists>c. r' = put_channel r (- 1) c) | (Inr _, _) \<Rightarrow> True) \<and>
   (case create_channel_signed env r t pol sb rb prov now of
      (Inl _, r') \<Rightarrow> r' = r \<or> ipc_next_id r = - 1 \<and> (\<exists>c. r' = put_channel r (- 1) c) | (Inr _, _) \<Rightarrow> True)"
proof -
  have ins: "case insert_channel r t pol ss rs of
      (Inl _, r') \<Rightarrow> r' = r \<or> ipc_next_id r = - 1 \<and> (\<exists>c. r' = put_channel r (- 1) c) | (Inr _, _) \<Rightarrow> True"
    for ss rs
    using checked_succ_None_iff [of "ipc_next_id r"]
    by (auto simp: insert_channel_def Let_def put_channel_def split: option.splits)
  have send: "case ipc_send r e t p of (Inl _, r') \<Rightarrow> r' = r | (Inr _, _) \<Rightarrow> True"
    by (simp add: ipc_send_eq Let_def split: option.split)
  have recv: "case ipc_receive r i t p b of (Inl _, r') \<Rightarrow> r' = r | (Inr _, _) \<Rightarrow> True"
    by (simp add: ipc_receive_eq Let_def split: option.split)
  have destroy: "case destroy_channel r i t of (Inl _, r') \<Rightarrow> r' = r | (Inr _, _) \<Rightarrow> True"
    by (simp add: destroy_channel_def split: option.split)
  have create: "case create_channel r t pol st rt verify of
      (Inl _, r') \<Rightarrow> r' = r \<or> ipc_next_id r = - 1 \<and> (\<exists>c. r' = put_channel r (- 1) c) | (Inr _, _) \<Rightarrow> True"
    using create_channel_cases [of r t pol st rt verify] by (elim disjE exE) (simp, simp only: ins)
  have signed: "case create_channel_signed env r t pol sb rb prov now of
      (Inl _, r') \<Rightarrow> r' = r \<or> ipc_next_id r = - 1 \<and> (\<exists>c. r' = put_channel r (- 1) c) | (Inr _, _) \<Rightarrow> True"
    using create_channel_signed_cases [of env r t pol sb rb prov now] by (elim disjE exE) (simp, simp only: ins)
  show ?thesis by (intro conjI) (fact send recv destroy create signed)+
qed

text \<open>
  C29. A token presented at creation gates its direction of the new channel; a direction for which
  none is presented is open, as the source intends. When a channel is created with
  kernel tokens through the Ed25519 provider, each token names the new channel and the
  direction it is presented for. When it is created from signed tokens, each is authentic: the
  whole input decodes, the signature verifies, the instant is in its window, it is issued to
  this node, and its scope is the expected IPC action on some channel, which need not be
  the new one. Sending on the new channel is then denied exactly when a send token was presented and
  the requester is not its subject, and receiving likewise; for signed tokens the subject is this
  node. The owner is recorded and has no right of its own to send or receive.
\<close>

theorem channel_creation_gated:
  assumes "create_channel r owner policy st rt (provider_verify p) = (Inr i, r1)"
    and "create_channel_signed env r owner policy sb rb p now = (Inr j, r2)"
  shows "get_channel r1 i = Some (channel_new i policy owner (map_option kt_subject st) (map_option kt_subject rt)) \<and>
    (case st of None \<Rightarrow> True | Some tk \<Rightarrow> kt_action tk = KIpcSend \<and> kt_resource tk = KIpcChannel (channel_raw i)) \<and>
    (case rt of None \<Rightarrow> True | Some tk \<Rightarrow> kt_action tk = KIpcRecv \<and> kt_resource tk = KIpcChannel (channel_raw i)) \<and>
    (fst (ipc_send r1 (e\<lparr>env_channel := i\<rparr>) t q) = Inl CapabilityDenied \<longleftrightarrow> (\<exists>tk. st = Some tk \<and> kt_subject tk \<noteq> q)) \<and>
    (fst (ipc_receive r1 i t q blk) = Inl CapabilityDenied \<longleftrightarrow> (\<exists>tk. rt = Some tk \<and> kt_subject tk \<noteq> q)) \<and>
    get_channel r2 j = Some (channel_new j policy owner
      (map_option (\<lambda>_. KernelPrincipal (node_id_bytes p)) sb) (map_option (\<lambda>_. KernelPrincipal (node_id_bytes p)) rb)) \<and>
    (case sb of None \<Rightarrow> True | Some b \<Rightarrow> authentic env b KIpcSend p now) \<and>
    (case rb of None \<Rightarrow> True | Some b \<Rightarrow> authentic env b KIpcRecv p now) \<and>
    (fst (ipc_send r2 (e\<lparr>env_channel := j\<rparr>) t q) = Inl CapabilityDenied \<longleftrightarrow>
       sb \<noteq> None \<and> q \<noteq> KernelPrincipal (node_id_bytes p)) \<and>
    (fst (ipc_receive r2 j t q blk) = Inl CapabilityDenied \<longleftrightarrow>
       rb \<noteq> None \<and> q \<noteq> KernelPrincipal (node_id_bytes p))"
proof -
  note A = ed25519.create_gated [OF assms(1)] and B = create_signed_gated [OF assms(2)]
  from A have "get_channel r1 i = Some (channel_new i policy owner (map_option kt_subject st) (map_option kt_subject rt))"
    by blast
  note denied1 = denied_iff [OF this]
  from B have "get_channel r2 j = Some (channel_new j policy owner
      (map_option (\<lambda>_. KernelPrincipal (node_id_bytes p)) sb) (map_option (\<lambda>_. KernelPrincipal (node_id_bytes p)) rb))"
    by blast
  note denied2 = denied_iff [OF this]
  have opt: "(\<exists>a. map_option f x = Some a \<and> a \<noteq> q) \<longleftrightarrow> (\<exists>y. x = Some y \<and> f y \<noteq> q)" for f and x :: "'x option" by auto
  show ?thesis
    unfolding denied1 denied2 opt using A B by auto
qed

definition demo_send_token :: kernel_capability_token where
  "demo_send_token = \<lparr>kt_subject = KernelPrincipal [4], kt_action = KIpcSend, kt_resource = KIpcChannel 1\<rparr>"

theorem channel_creation_gated_witness:
  "\<exists>r1 r2. create_channel ipc_registry_new (TaskId 5) demo_policy (Some demo_send_token) None
       (provider_verify (with_node_id [1])) = (Inr (ChannelId 1), r1) \<and>
     create_channel_signed demo_env ipc_registry_new (TaskId 5) demo_policy (Some []) None
       (with_node_id [1]) 150 = (Inr (ChannelId 1), r2) \<and>
     map_option ch_send_subject (get_channel r1 (ChannelId 1)) = Some (Some (KernelPrincipal [4])) \<and>
     fst (ipc_send r1 \<lparr>env_sender = TaskId 9, env_channel = ChannelId 1, env_kind = Notification, env_payload = []\<rparr> (TaskId 9) (KernelPrincipal [5])) = Inl CapabilityDenied \<and>
     authentic demo_env [] KIpcSend (with_node_id [1]) 150"
proof -
  let ?p = "with_node_id [1]"
  have "fst (create_channel ipc_registry_new (TaskId 5) demo_policy (Some demo_send_token) None
      (provider_verify ?p)) = Inr (ChannelId 1)"
    by (simp add: demo_defs Let_def provider_verify_def demo_send_token_def)
  then obtain r1 where r1: "create_channel ipc_registry_new (TaskId 5) demo_policy (Some demo_send_token) None
      (provider_verify ?p) = (Inr (ChannelId 1), r1)" by (metis prod.collapse)
  have "authentic demo_env [] KIpcSend ?p 150"
    by (simp add: authentic_def demo_env_def demo_token_def demo_scope_def with_node_id_def verify_signature_ok
        demo_encoder_def demo_crypto_def window_contains_def)
  then have "authenticate_slot demo_env (Some []) KIpcSend ?p 150 = Inr (Some (KernelPrincipal [1]))"
    by (simp add: authenticate_slot_ok) (simp add: with_node_id_def)
  then have "fst (create_channel_signed demo_env ipc_registry_new (TaskId 5) demo_policy (Some []) None ?p 150) =
      Inr (ChannelId 1)"
    by (simp add: create_channel_signed_def demo_defs Let_def authenticate_slot_def [of _ None])
  then obtain r2 where r2: "create_channel_signed demo_env ipc_registry_new (TaskId 5) demo_policy (Some []) None
      ?p 150 = (Inr (ChannelId 1), r2)" by (metis prod.collapse)
  from channel_creation_gated [OF r1 r2, where q = "KernelPrincipal [5]" and e = "\<lparr>env_sender = TaskId 9, env_channel = ChannelId 1, env_kind = Notification, env_payload = []\<rparr>" and t = "TaskId 9"] r1 r2 show ?thesis
    by (auto simp: channel_new_def demo_send_token_def)
qed

text \<open>
  C30. The exhausted counter. With the counter at its maximum and the quota not reached, a
  creation reports \<open>ResourceExhausted\<close> and yet leaves a live channel under the maximal identifier,
  replacing the one an earlier failed creation left there.
\<close>

theorem create_channel_exhausted_inserts:
  assumes "ipc_next_id r = - 1" and "0 < cp_queue_depth policy"
    and "channel_count r < 4096" and "fm_count (owned_by owner) (ipc_channels r) < 256"
  shows "create_channel r owner policy None None verify =
    (Inl ResourceExhausted,
     r\<lparr>ipc_channels := fmupd (- 1) (channel_new (ChannelId (- 1)) policy owner None None) (ipc_channels r)\<rparr>)"
proof -
  have "checked_add (- 1 :: u64) 1 = None" by (simp only: checked_succ_None_iff)
  moreover have "enforce_channel_quota r owner = Inr ()"
    using assms(3,4) by (simp add: quota_ok MAX_CHANNELS_TOTAL_def MAX_CHANNELS_PER_OWNER_def)
  ultimately show ?thesis
    using assms(1,2) by (simp add: create_channel_def check_token_def insert_channel_def Let_def)
qed

theorem create_channel_exhausted_inserts_witness:
  "create_channel \<lparr>ipc_channels = fmempty, ipc_next_id = - 1\<rparr> (TaskId 5) demo_policy None None
     (provider_verify provider_placeholder) =
   (Inl ResourceExhausted,
    \<lparr>ipc_channels = fmupd (- 1) (channel_new (ChannelId (- 1)) demo_policy (TaskId 5) None None) fmempty,
     ipc_next_id = - 1\<rparr>)"
  by (subst create_channel_exhausted_inserts) (simp_all add: demo_policy_def channel_count_def)

end
