(* ===== verification/Scheduler.thy ===== *)
theory Scheduler
  imports Kernel_Prelude
begin

text \<open>
  The round-robin scheduler of \<open>nexacore-kernel/src/scheduling.rs\<close>, the thermal policy of
  \<open>thermal.rs\<close>. The model is of the bare-metal build: \<open>yield_current\<close> returns, with its result and
  state, the hardware actions it performs (stack pointers, page table root, register switch), in
  order.

  Shown here: picking is work conserving, first in first out within a class and strict for the
  real-time class; a waiting task of a class with a fairness slot is picked within eight picks per
  queue position; kernel stacks never overlap; the thermal cycles keep the interactive floor.
\<close>

section \<open>Classes, states and control blocks\<close>

datatype priority_class = System | RealTime | Interactive | AiInference | Background | Idle

text \<open>\<open>priority as usize\<close>: the \<open>repr(u8)\<close> discriminant.\<close>

fun prio :: "priority_class \<Rightarrow> nat" where
  "prio System = 0"
| "prio RealTime = 1"
| "prio Interactive = 2"
| "prio AiInference = 3"
| "prio Background = 4"
| "prio Idle = 5"

datatype task_state = Runnable | Running | BlockedOnIpc | BlockedOnSyscall | Sleeping | Terminated

record cpu_context =
  rsp :: u64

record task_control_block =
  tcb_id :: task_id
  tcb_state :: task_state
  tcb_priority :: priority_class
  tcb_context :: cpu_context
  kernel_stack_phys :: u64
  kernel_stack_va :: u64

definition KERNEL_STACK_VA_BASE :: u64 where "KERNEL_STACK_VA_BASE = 0xFFFFC00000000000"
definition KERNEL_STACK_VA_END :: u64 where "KERNEL_STACK_VA_END = 0xFFFFC80000000000"
definition KERNEL_STACK_SIZE :: u64 where "KERNEL_STACK_SIZE = 0x4000"
definition KERNEL_STACK_STRIDE :: u64 where "KERNEL_STACK_STRIDE = 0x8000"
definition NUM_PRIORITY_CLASSES :: nat where "NUM_PRIORITY_CLASSES = 6"

section \<open>Thermal policy\<close>

datatype thermal_level = Normal | Warm | Hot | Critical

definition WARM_MC :: u32 where "WARM_MC = 70000"
definition HOT_MC :: u32 where "HOT_MC = 85000"
definition CRITICAL_MC :: u32 where "CRITICAL_MC = 95000"

definition thermal_level_of :: "u32 \<Rightarrow> thermal_level" where
  "thermal_level_of t =
     (if CRITICAL_MC \<le> t then Critical
      else if HOT_MC \<le> t then Hot
      else if WARM_MC \<le> t then Warm
      else Normal)"

definition INTERACTIVE_FLOOR :: nat where "INTERACTIVE_FLOOR = 2"

definition FAIRNESS_CYCLE :: "priority_class option list" where
  "FAIRNESS_CYCLE = [None, None, Some Interactive, None, Some AiInference, Some Interactive, None, Some Background]"

definition FAIRNESS_LEN :: u64 where
  "FAIRNESS_LEN = of_nat (length FAIRNESS_CYCLE)"

fun fairness_cycle_for :: "thermal_level \<Rightarrow> priority_class option list" where
  "fairness_cycle_for Normal = FAIRNESS_CYCLE"
| "fairness_cycle_for Warm =
     [None, None, Some Interactive, None, Some AiInference, Some Interactive, None, Some AiInference]"
| "fairness_cycle_for Hot =
     [None, Some AiInference, Some Interactive, None, Some AiInference, Some Interactive, None, Some AiInference]"
| "fairness_cycle_for Critical =
     [None, Some AiInference, Some Interactive, None, Some AiInference, Some Interactive, None, Some AiInference]"

definition slot_count :: "priority_class option list \<Rightarrow> priority_class \<Rightarrow> nat" where
  "slot_count cycle class = length (filter (\<lambda>s. s = Some class) cycle)"

definition should_favour_ai :: "thermal_level \<Rightarrow> priority_class \<Rightarrow> bool" where
  "should_favour_ai level dominant_load \<longleftrightarrow> level \<noteq> Normal \<and> dominant_load = AiInference"

section \<open>The scheduler state\<close>

text \<open>What dispatch reads of a \<open>ProcessControlBlock\<close>.\<close>

record process_control_block =
  pcb_task :: task_control_block
  pml4_phys :: u64
  user_entry :: u64
  user_stack_top :: u64

record scheduler =
  sc_tasks :: "task_control_block list"
  sc_processes :: "process_control_block list"
  run_queues :: "u64 list list"
  sc_current :: "u64 option"
  sc_next_id :: u64
  next_kernel_stack_slot :: nat
  pick_counter :: u64
  sc_thermal :: thermal_level
  cpu_load_class :: priority_class

definition scheduler_new :: scheduler where
  "scheduler_new = \<lparr>sc_tasks = [], sc_processes = [], run_queues = replicate 6 [], sc_current = None,
     sc_next_id = 1, next_kernel_stack_slot = 0, pick_counter = 0, sc_thermal = Normal,
     cpu_load_class = Interactive\<rparr>"

definition set_cpu_temperature :: "scheduler \<Rightarrow> u32 \<Rightarrow> scheduler" where
  "set_cpu_temperature s t = s\<lparr>sc_thermal := thermal_level_of t\<rparr>"

definition set_cpu_load_class :: "scheduler \<Rightarrow> priority_class \<Rightarrow> scheduler" where
  "set_cpu_load_class s c = s\<lparr>cpu_load_class := c\<rparr>"

definition push_queue :: "u64 list list \<Rightarrow> priority_class \<Rightarrow> u64 \<Rightarrow> u64 list list" where
  "push_queue qs p t = qs[prio p := qs ! prio p @ [t]]"

definition allocate_task_id :: "scheduler \<Rightarrow> task_id \<times> scheduler" where
  "allocate_task_id s = (TaskId (sc_next_id s), s\<lparr>sc_next_id := sc_next_id s + 1\<rparr>)"

definition register_process :: "scheduler \<Rightarrow> task_control_block \<Rightarrow> priority_class \<Rightarrow> scheduler" where
  "register_process s tcb p =
     s\<lparr>sc_tasks := sc_tasks s @ [tcb], run_queues := push_queue (run_queues s) p (task_raw (tcb_id tcb))\<rparr>"

definition attach_process :: "scheduler \<Rightarrow> task_id \<Rightarrow> process_control_block \<Rightarrow> scheduler" where
  "attach_process s i pcb = s\<lparr>sc_processes := sc_processes s @ [pcb]\<rparr>"

definition find_process :: "scheduler \<Rightarrow> task_id \<Rightarrow> process_control_block option" where
  "find_process s i = find (\<lambda>p. task_raw (tcb_id (pcb_task p)) = task_raw i) (sc_processes s)"

definition resolve_priority :: "scheduler \<Rightarrow> task_id \<Rightarrow> priority_class" where
  "resolve_priority s i =
     (case find (\<lambda>t. task_raw (tcb_id t) = task_raw i) (sc_tasks s) of
        Some tcb \<Rightarrow> tcb_priority tcb
      | None \<Rightarrow> (case find_process s i of Some pcb \<Rightarrow> tcb_priority (pcb_task pcb) | None \<Rightarrow> Interactive))"

definition allocate_stack_slot :: "scheduler \<Rightarrow> u64 option \<times> scheduler" where
  "allocate_stack_slot s =
     (case checked_mul (of_nat (next_kernel_stack_slot s)) KERNEL_STACK_STRIDE of
        None \<Rightarrow> (None, s)
      | Some off \<Rightarrow>
          (case checked_add KERNEL_STACK_VA_BASE off of
             None \<Rightarrow> (None, s)
           | Some slot_base \<Rightarrow>
               (case checked_add slot_base KERNEL_STACK_STRIDE of
                  None \<Rightarrow> (None, s)
                | Some stack_top \<Rightarrow>
                    if KERNEL_STACK_VA_END < stack_top then (None, s)
                    else (Some (slot_base + KERNEL_STACK_SIZE),
                          s\<lparr>next_kernel_stack_slot := next_kernel_stack_slot s + 1\<rparr>))))"

definition current_task_id :: "scheduler \<Rightarrow> task_id option" where
  "current_task_id s = map_option TaskId (sc_current s)"

definition spawn_bootstrap_task :: "scheduler \<Rightarrow> priority_class \<Rightarrow> task_id kernel_result \<times> scheduler" where
  "spawn_bootstrap_task s p =
     (let i = TaskId (sc_next_id s)
      in (Inr i, s\<lparr>sc_next_id := sc_next_id s + 1,
            sc_tasks := sc_tasks s @ [\<lparr>tcb_id = i, tcb_state = Running, tcb_priority = p,
              tcb_context = \<lparr>rsp = 0\<rparr>, kernel_stack_phys = 0, kernel_stack_va = 0\<rparr>],
            sc_current := Some (task_raw i)\<rparr>))"

section \<open>Scheduling operations\<close>

abbreviation has_id :: "u64 \<Rightarrow> task_control_block \<Rightarrow> bool" where
  "has_id i t \<equiv> task_raw (tcb_id t) = i"

definition sched_enqueue :: "scheduler \<Rightarrow> task_id \<Rightarrow> priority_class \<Rightarrow> unit kernel_result \<times> scheduler" where
  "sched_enqueue s task p =
     (case position (has_id (task_raw task)) (sc_tasks s) of
        None \<Rightarrow> (Inl InvalidArgument, s)
      | Some i \<Rightarrow>
          (Inr (), s\<lparr>sc_tasks := (sc_tasks s)[i := (sc_tasks s ! i)\<lparr>tcb_state := Runnable, tcb_priority := p\<rparr>],
             run_queues := push_queue (run_queues s) p (task_raw task)\<rparr>))"

definition sched_dequeue :: "scheduler \<Rightarrow> task_id \<Rightarrow> unit kernel_result \<times> scheduler" where
  "sched_dequeue s task =
     (let s1 = s\<lparr>run_queues := map (filter (\<lambda>i. i \<noteq> task_raw task)) (run_queues s)\<rparr>;
          s2 = (case position (has_id (task_raw task)) (sc_tasks s1) of
                  None \<Rightarrow> s1
                | Some i \<Rightarrow> s1\<lparr>sc_tasks := (sc_tasks s1)[i := (sc_tasks s1 ! i)\<lparr>tcb_state := Terminated\<rparr>]\<rparr>);
          s3 = (if sc_current s2 = Some (task_raw task) then s2\<lparr>sc_current := None\<rparr> else s2)
      in (Inr (), s3))"

text \<open>\<open>queue.remove(0)\<close> on one queue, and the strict scan over all of them.\<close>

definition pop_class :: "u64 list list \<Rightarrow> priority_class \<Rightarrow> (u64 \<times> u64 list list) option" where
  "pop_class qs c =
     (case qs ! prio c of [] \<Rightarrow> None | t # ts \<Rightarrow> Some (t, qs[prio c := ts]))"

fun pop_strict :: "u64 list list \<Rightarrow> (u64 \<times> u64 list list) option" where
  "pop_strict [] = None"
| "pop_strict ([] # qs) = map_option (\<lambda>(t, qs'). (t, [] # qs')) (pop_strict qs)"
| "pop_strict ((t # ts) # qs) = Some (t, ts # qs)"

definition pick_next :: "scheduler \<Rightarrow> task_id option \<times> scheduler" where
  "pick_next s =
     (case pop_class (run_queues s) RealTime of
        Some (t, qs) \<Rightarrow> (Some (TaskId t), s\<lparr>run_queues := qs\<rparr>)
      | None \<Rightarrow>
          let slot = unat (pick_counter s mod FAIRNESS_LEN);
              s' = s\<lparr>pick_counter := pick_counter s + 1\<rparr>;
              cycle = fairness_cycle_for (sc_thermal s);
              preferred = (case cycle ! slot of
                  Some c \<Rightarrow> pop_class (run_queues s) c
                | None \<Rightarrow> None)
          in case preferred of
               Some (t, qs) \<Rightarrow> (Some (TaskId t), s'\<lparr>run_queues := qs\<rparr>)
             | None \<Rightarrow>
                 (case pop_strict (run_queues s) of
                    Some (t, qs) \<Rightarrow> (Some (TaskId t), s'\<lparr>run_queues := qs\<rparr>)
                  | None \<Rightarrow> (None, s')))"

text \<open>
  What dispatch asks of the hardware, in order. \<open>SaveAndEnterUser\<close> and \<open>ContextSwitch\<close> store the
  outgoing task's stack pointer; its value is decided by the assembly and is an argument of
  \<open>yield_current\<close>.
\<close>

datatype hw_action =
    SetRsp0 u64
  | SetSyscallKernelRsp u64
  | SaveAndEnterUser u64 u64 u64 u64
  | LoadCr3 u64
  | ContextSwitch u64

abbreviation set_state :: "task_control_block list \<Rightarrow> nat \<Rightarrow> task_state \<Rightarrow> task_control_block list" where
  "set_state ts i st \<equiv> ts[i := (ts ! i)\<lparr>tcb_state := st\<rparr>]"

abbreviation save_rsp :: "task_control_block list \<Rightarrow> nat \<Rightarrow> u64 \<Rightarrow> task_control_block list" where
  "save_rsp ts i v \<equiv> ts[i := (ts ! i)\<lparr>tcb_context := \<lparr>rsp = v\<rparr>\<rparr>]"

text \<open>The dispatch half of \<open>yield_current\<close>: from the outgoing to the incoming index.\<close>

definition dispatch :: "scheduler \<Rightarrow> u64 \<Rightarrow> nat \<Rightarrow> nat \<Rightarrow> u64 \<Rightarrow> hw_action list \<times> scheduler" where
  "dispatch s next cur_idx next_idx saved =
     (let to_rsp = rsp (tcb_context (sc_tasks s ! next_idx));
          s' = s\<lparr>sc_tasks := save_rsp (sc_tasks s) cur_idx saved\<rparr>
      in case find (\<lambda>p. has_id next (pcb_task p)) (sc_processes s) of
           Some p \<Rightarrow>
             let top = kernel_stack_va (pcb_task p) + KERNEL_STACK_SIZE;
                 pre = [SetRsp0 top, SetSyscallKernelRsp top]
             in if to_rsp = 0
                then (pre @ [SaveAndEnterUser (user_entry p) (user_stack_top p) (pml4_phys p) top], s')
                else (pre @ [LoadCr3 (pml4_phys p), ContextSwitch to_rsp], s')
         | None \<Rightarrow> if to_rsp = 0 then ([], s) else ([ContextSwitch to_rsp], s'))"

definition yield_current ::
  "scheduler \<Rightarrow> task_id \<Rightarrow> task_state \<Rightarrow> u64 \<Rightarrow> unit kernel_result \<times> hw_action list \<times> scheduler" where
  "yield_current s current new_state saved =
     (case position (has_id (task_raw current)) (sc_tasks s) of
        None \<Rightarrow> (Inl InvalidArgument, [], s)
      | Some cur_idx \<Rightarrow>
          let p = tcb_priority (sc_tasks s ! cur_idx);
              s1 = s\<lparr>sc_tasks := set_state (sc_tasks s) cur_idx new_state\<rparr>;
              s2 = (if new_state = Runnable
                    then s1\<lparr>run_queues := push_queue (run_queues s1) p (task_raw current)\<rparr> else s1)
          in case pick_next s2 of
               (None, s3) \<Rightarrow> (Inr (), [], s3)
             | (Some next, s3) \<Rightarrow>
                 if task_raw next = task_raw current
                 then (Inr (), [], s3\<lparr>sc_tasks := set_state (sc_tasks s3) cur_idx Running,
                         sc_current := Some (task_raw next)\<rparr>)
                 else case position (has_id (task_raw next)) (sc_tasks s3) of
                     None \<Rightarrow> (Inl Internal, [], s3)
                   | Some next_idx \<Rightarrow>
                       (Inr (), dispatch (s3\<lparr>sc_tasks := set_state (sc_tasks s3) next_idx Running,
                          sc_current := Some (task_raw next)\<rparr>) (task_raw next) cur_idx next_idx saved))"

definition preempt :: "scheduler \<Rightarrow> task_id \<Rightarrow> u64 \<Rightarrow> unit kernel_result \<times> hw_action list \<times> scheduler" where
  "preempt s current saved = yield_current s current Runnable saved"

section \<open>Which queue is served\<close>

abbreviation slot_of :: "scheduler \<Rightarrow> nat" where
  "slot_of s \<equiv> unat (pick_counter s) mod 8"

definition first_nonempty :: "u64 list list \<Rightarrow> nat option" where
  "first_nonempty qs = find (\<lambda>i. qs ! i \<noteq> []) [0..<length qs]"

definition served :: "scheduler \<Rightarrow> nat option" where
  "served s =
     (if run_queues s ! 1 \<noteq> [] then Some 1
      else case fairness_cycle_for (sc_thermal s) ! slot_of s of
          Some c \<Rightarrow> if run_queues s ! prio c \<noteq> [] then Some (prio c) else first_nonempty (run_queues s)
        | None \<Rightarrow> first_nonempty (run_queues s))"

lemma prio_lt: "prio c < 6"
  by (cases c) auto

lemma prio_inj: "prio c = prio d \<longleftrightarrow> c = d"
  by (cases c; cases d) auto

lemma find_map_eq: "find P (map f xs) = map_option f (find (\<lambda>x. P (f x)) xs)"
  by (induction xs) auto

lemma first_nonempty_Cons:
  "first_nonempty (q # qs) = (if q \<noteq> [] then Some 0 else map_option Suc (first_nonempty qs))"
  unfolding first_nonempty_def length_Cons upt_conv_Cons [OF zero_less_Suc] map_Suc_upt [symmetric]
  by (simp add: find_map_eq)

lemma pop_strict_eq:
  "pop_strict qs =
     (case first_nonempty qs of None \<Rightarrow> None | Some i \<Rightarrow> Some (hd (qs ! i), qs[i := tl (qs ! i)]))"
proof (induction qs rule: pop_strict.induct)
  case 1
  then show ?case by (simp add: first_nonempty_def)
qed (simp_all add: first_nonempty_Cons split: option.splits)

lemma pop_class_eq:
  "pop_class qs c =
     (if qs ! prio c = [] then None else Some (hd (qs ! prio c), qs[prio c := tl (qs ! prio c)]))"
  by (simp add: pop_class_def split: list.splits)

lemma FAIRNESS_LEN_8: "FAIRNESS_LEN = 8"
  by (simp add: FAIRNESS_LEN_def FAIRNESS_CYCLE_def)

lemma slot_eq: "unat (c mod FAIRNESS_LEN) = unat c mod 8"
  by (simp add: FAIRNESS_LEN_8 unat_mod)

lemma first_nonempty_SomeD:
  "first_nonempty qs = Some i \<Longrightarrow> i < length qs \<and> qs ! i \<noteq> [] \<and> (\<forall>j<i. qs ! j = [])"
proof (induction qs arbitrary: i)
  case (Cons q qs)
  then show ?case by (auto simp: first_nonempty_Cons nth_Cons' split: if_splits)
qed (simp add: first_nonempty_def)

lemma first_nonempty_None: "first_nonempty qs = None \<longleftrightarrow> concat qs = []"
  by (induction qs) (auto simp: first_nonempty_Cons, simp add: first_nonempty_def)

lemma served_SomeD:
  assumes "length (run_queues s) = 6" and "served s = Some i"
  shows "i < 6 \<and> run_queues s ! i \<noteq> [] \<and> (i = 1 \<longleftrightarrow> run_queues s ! 1 \<noteq> [])"
proof (cases "run_queues s ! 1 = []")
  case True
  with assms show ?thesis
    using first_nonempty_SomeD [of "run_queues s" i] prio_lt
    by (auto simp: served_def split: option.splits if_splits)
qed (use assms in \<open>auto simp: served_def\<close>)

lemma served_None:
  assumes "length (run_queues s) = 6"
  shows "served s = None \<longleftrightarrow> concat (run_queues s) = []"
proof
  assume "concat (run_queues s) = []"
  then have "run_queues s ! i = []" if "i < 6" for i using assms that by (metis concat_eq_Nil_conv nth_mem)
  then have "run_queues s ! 1 = []" "\<And>c. run_queues s ! prio c = []" using prio_lt by auto
  moreover have "first_nonempty (run_queues s) = None" using \<open>concat _ = []\<close> by (simp add: first_nonempty_None)
  ultimately show "served s = None" by (simp add: served_def split: option.splits)
qed (auto simp: served_def first_nonempty_None split: if_splits option.splits)

lemma pick_next_eq:
  assumes "length (run_queues s) = 6"
  shows "pick_next s =
    (case served s of
       None \<Rightarrow> (None, s\<lparr>pick_counter := pick_counter s + 1\<rparr>)
     | Some i \<Rightarrow> (Some (TaskId (hd (run_queues s ! i))),
         s\<lparr>run_queues := (run_queues s)[i := tl (run_queues s ! i)],
           pick_counter := (if i = 1 then pick_counter s else pick_counter s + 1)\<rparr>))"
proof (cases "run_queues s ! 1 = []")
  case False
  then show ?thesis by (simp add: pick_next_def served_def pop_class_eq)
next
  case True
  have ne: "i \<noteq> 1" if "served s = Some i" for i using served_SomeD [OF assms that] True by simp
  have i: "first_nonempty (run_queues s) \<noteq> Some 1"
    using first_nonempty_SomeD [of "run_queues s" 1] True by auto
  show ?thesis
    using True ne i
    by (auto simp: pick_next_def served_def pop_class_eq pop_strict_eq slot_eq Let_def
        split: option.splits if_splits)
qed

lemma mset_concat_update:
  "i < length qs \<Longrightarrow> mset (concat (qs[i := ys])) + mset (qs ! i) = mset (concat qs) + mset ys"
proof (induction qs arbitrary: i)
  case (Cons q qs)
  then show ?case by (cases i) (auto simp: ac_simps)
qed simp

lemma mset_concat_pop:
  assumes "i < length qs" and "qs ! i \<noteq> []"
  shows "mset (concat qs) = add_mset (hd (qs ! i)) (mset (concat (qs[i := tl (qs ! i)])))"
proof -
  have "mset (qs ! i) = add_mset (hd (qs ! i)) (mset (tl (qs ! i)))"
    using assms(2) by (cases "qs ! i") auto
  then show ?thesis using mset_concat_update [OF assms(1), of "tl (qs ! i)"] by simp
qed

lemma first_nonempty_Least:
  assumes "first_nonempty qs = Some j"
  shows "j = (LEAST j. qs ! j \<noteq> [])"
  using first_nonempty_SomeD [OF assms]
  by (intro Least_equality [symmetric]) (auto simp: not_less [symmetric])

lemma served_policy:
  assumes "length (run_queues s) = 6" and "served s = Some i"
  shows "if run_queues s ! prio RealTime \<noteq> [] then i = prio RealTime
    else case fairness_cycle_for (sc_thermal s) ! slot_of s of
        Some c \<Rightarrow> i = (if run_queues s ! prio c \<noteq> [] then prio c else (LEAST j. run_queues s ! j \<noteq> []))
      | None \<Rightarrow> i = (LEAST j. run_queues s ! j \<noteq> [])"
  using assms(2) first_nonempty_Least [of "run_queues s" i]
  by (auto simp: served_def split: option.splits if_splits)

section \<open>Fairness\<close>

text \<open>
  Runs of picks with enqueues and registrations by any task in between; the picked tasks are
  collected. A slot favours the class it names, and an unnamed slot favours \<open>System\<close>.
\<close>

datatype sched_op = PickOp | EnqOp task_id priority_class | RegOp task_control_block priority_class

fun sched_run :: "scheduler \<Rightarrow> sched_op list \<Rightarrow> task_id list \<times> scheduler" where
  "sched_run s [] = ([], s)"
| "sched_run s (PickOp # ops) =
     (case pick_next s of (r, s') \<Rightarrow>
        (case sched_run s' ops of (ts, s'') \<Rightarrow> ((case r of None \<Rightarrow> ts | Some t \<Rightarrow> t # ts), s'')))"
| "sched_run s (EnqOp t p # ops) = sched_run (snd (sched_enqueue s t p)) ops"
| "sched_run s (RegOp tcb p # ops) = sched_run (register_process s tcb p) ops"

fun adds_realtime :: "sched_op \<Rightarrow> bool" where
  "adds_realtime PickOp = False"
| "adds_realtime (EnqOp t p) = (p = RealTime)"
| "adds_realtime (RegOp tcb p) = (p = RealTime)"

definition favours :: "priority_class option \<Rightarrow> priority_class \<Rightarrow> bool" where
  "favours slot c \<longleftrightarrow> slot = Some c \<or> slot = None \<and> c = System"

text \<open>Picks until the next slot that favours a class, counted from a slot number.\<close>

definition slot_wait :: "priority_class option list \<Rightarrow> priority_class \<Rightarrow> nat \<Rightarrow> nat" where
  "slot_wait cyc c k = (LEAST d. favours (cyc ! ((k + d) mod 8)) c)"

lemma cycle_length [simp]: "length (fairness_cycle_for t) = 8"
  by (cases t) (simp_all add: FAIRNESS_CYCLE_def)

lemma cycle_no_realtime: "favours v c \<Longrightarrow> v \<in> set (fairness_cycle_for t) \<Longrightarrow> c \<noteq> RealTime"
  by (cases t) (auto simp: FAIRNESS_CYCLE_def favours_def)

lemma slot_reachable: "i < 8 \<Longrightarrow> \<exists>d<8. (k + d) mod 8 = (i :: nat)"
proof -
  assume i: "i < 8"
  let ?d = "(8 - k mod 8 + i) mod 8"
  have "(k + ?d) mod 8 = (k mod 8 + (8 - k mod 8 + i)) mod 8"
    by (simp only: mod_add_left_eq mod_add_right_eq)
  also have "k mod 8 + (8 - k mod 8 + i) = 8 + i" using mod_less_divisor [of 8 k] by linarith
  finally show ?thesis using i by (intro exI [of _ ?d]) simp
qed

lemma slot_wait_exists:
  assumes "length cyc = 8" and "v \<in> set cyc" and "favours v c"
  shows "\<exists>d<8. favours (cyc ! ((k + d) mod 8)) c"
proof -
  obtain i where i: "i < 8" "cyc ! i = v" using assms(1,2) by (metis in_set_conv_nth)
  with slot_reachable [OF i(1), of k] assms(3) show ?thesis by auto
qed

lemma slot_wait_lt:
  assumes "length cyc = 8" and "v \<in> set cyc" and "favours v c"
  shows "slot_wait cyc c k < 8"
proof -
  obtain d where d: "d < 8" "favours (cyc ! ((k + d) mod 8)) c" using slot_wait_exists [OF assms] by blast
  then have "slot_wait cyc c k \<le> d" unfolding slot_wait_def by (intro Least_le)
  with d show ?thesis by simp
qed

lemma slot_wait_step:
  assumes "length cyc = 8" and "v \<in> set cyc" and "favours v c" and "\<not> favours (cyc ! (k mod 8)) c"
  shows "slot_wait cyc c k = Suc (slot_wait cyc c (Suc k))"
proof -
  obtain d where "favours (cyc ! ((k + d) mod 8)) c" using slot_wait_exists [OF assms(1-3)] by blast
  then show ?thesis
    unfolding slot_wait_def using assms(4) by (subst Least_Suc [of _ d]) simp_all
qed

lemma slot_wait_mod: "slot_wait cyc c (k mod 8) = slot_wait cyc c k"
  by (simp add: slot_wait_def mod_add_left_eq)

lemma slot_succ: "unat (c + 1 :: u64) mod 8 = Suc (unat c) mod 8"
proof -
  have "unat (c + 1) = Suc (unat c) mod 2 ^ 64" by (simp add: unat_word_ariths)
  moreover have "Suc (unat c) mod 2 ^ 64 mod 8 = Suc (unat c) mod 8"
    by (rule mod_mod_cancel) simp
  ultimately show ?thesis by simp
qed

lemma served_favoured:
  assumes "length (run_queues s) = 6" and "run_queues s ! 1 = []" and "run_queues s ! prio c \<noteq> []"
    and "favours (fairness_cycle_for (sc_thermal s) ! slot_of s) c"
  shows "served s = Some (prio c)"
proof (cases "fairness_cycle_for (sc_thermal s) ! slot_of s")
  case None
  with assms(4) have c: "c = System" by (simp add: favours_def)
  obtain q qs where "run_queues s = q # qs" using assms(1) by (cases "run_queues s") auto
  with None assms(2,3) c show ?thesis by (simp add: served_def first_nonempty_Cons)
next
  case (Some d)
  with assms show ?thesis by (simp add: served_def favours_def)
qed

text \<open>The bound, by induction over the run, with the wait as the decreasing measure.\<close>

abbreviation picks :: "sched_op list \<Rightarrow> nat" where
  "picks ops \<equiv> length (filter (\<lambda>x. x = PickOp) ops)"

lemma push_queue_other:
  "p \<noteq> c \<Longrightarrow> push_queue qs p t ! prio c = qs ! prio c"
  by (simp add: push_queue_def prio_inj)

lemma push_queue_nth:
  assumes "length qs = 6" and "n < length (qs ! prio c)"
  shows "n < length (push_queue qs p t ! prio c)" and "push_queue qs p t ! prio c ! n = qs ! prio c ! n"
  using assms prio_lt [of c] by (cases "p = c"; simp add: push_queue_def prio_inj nth_append)+

lemma push_queue_length [simp]: "length (push_queue qs p t) = length qs"
  by (simp add: push_queue_def)

lemma push_queue_realtime: "p \<noteq> RealTime \<Longrightarrow> push_queue qs p t ! 1 = qs ! 1"
  using push_queue_other [of p RealTime qs t] by simp

text \<open>A task waiting at a queue position of a class that some slot favours, and its wait bound.\<close>

definition waiting :: "scheduler \<Rightarrow> priority_class \<Rightarrow> nat \<Rightarrow> u64 \<Rightarrow> bool" where
  "waiting s c n x \<longleftrightarrow>
     length (run_queues s) = 6 \<and> run_queues s ! 1 = [] \<and>
     (\<exists>v \<in> set (fairness_cycle_for (sc_thermal s)). favours v c) \<and>
     n < length (run_queues s ! prio c) \<and> run_queues s ! prio c ! n = x"

definition wait_bound :: "scheduler \<Rightarrow> priority_class \<Rightarrow> nat \<Rightarrow> nat" where
  "wait_bound s c n = 8 * n + slot_wait (fairness_cycle_for (sc_thermal s)) c (slot_of s)"

lemma waiting_push:
  assumes "waiting s c n x" and "p \<noteq> RealTime"
    and "run_queues s' = push_queue (run_queues s) p t" and "sc_thermal s' = sc_thermal s"
    and "pick_counter s' = pick_counter s"
  shows "waiting s' c n x \<and> wait_bound s' c n = wait_bound s c n"
  using assms push_queue_nth [of "run_queues s" n c p t]
  by (simp add: waiting_def wait_bound_def push_queue_realtime [simplified])

lemma waiting_served:
  assumes w: "waiting s c n x"
  obtains i where "served s = Some i" "i \<noteq> 1" "i < 6"
proof -
  from w have l: "length (run_queues s) = 6" and rt: "run_queues s ! 1 = []"
    and ne: "run_queues s ! prio c \<noteq> []" by (auto simp: waiting_def)
  from ne have "concat (run_queues s) \<noteq> []" using l prio_lt [of c] by (metis concat_eq_Nil_conv nth_mem)
  with served_None [OF l] obtain i where "served s = Some i" by auto
  with served_SomeD [OF l this] rt that show ?thesis by auto
qed

lemma pick_progress:
  assumes w: "waiting s c n x"
  shows "\<exists>t s'. pick_next s = (Some t, s') \<and>
    (t = TaskId x \<or> (\<exists>m. waiting s' c m x \<and> wait_bound s' c m < wait_bound s c n))"
proof -
  let ?cyc = "fairness_cycle_for (sc_thermal s)" and ?q = "run_queues s ! prio c"
  obtain i where i: "served s = Some i" "i \<noteq> 1" "i < 6" using waiting_served [OF w] .
  obtain v where v: "v \<in> set ?cyc" "favours v c" using w by (auto simp: waiting_def)
  from w have l: "length (run_queues s) = 6" and rt: "run_queues s ! 1 = []"
    and n: "n < length ?q" "?q ! n = x" by (simp_all add: waiting_def)
  define s' where "s' = s\<lparr>run_queues := (run_queues s)[i := tl (run_queues s ! i)],
    pick_counter := pick_counter s + 1\<rparr>"
  have pick: "pick_next s = (Some (TaskId (hd (run_queues s ! i))), s')"
    using pick_next_eq [OF l] i by (simp add: s'_def)
  have slot: "slot_wait ?cyc c (slot_of s') = slot_wait ?cyc c (Suc (unat (pick_counter s)))"
    unfolding s'_def using slot_wait_mod [of ?cyc c "Suc (unat (pick_counter s))"] by (simp add: slot_succ)
  have small: "slot_wait ?cyc c k < 8" for k by (rule slot_wait_lt [OF cycle_length v])
  show ?thesis
  proof (cases "i = prio c")
    case True
    have q': "run_queues s' ! prio c = tl ?q" using True i l by (simp add: s'_def)
    have "TaskId (hd ?q) = TaskId x \<or> (\<exists>m. waiting s' c m x \<and> wait_bound s' c m < wait_bound s c n)"
    proof (cases n)
      case 0
      with n show ?thesis by (cases ?q) auto
    next
      case (Suc m)
      have "waiting s' c m x"
        using n Suc q' l rt i v by (auto simp: waiting_def nth_tl s'_def)
      moreover have "wait_bound s' c m < wait_bound s c n"
        using small [of "slot_of s'"] Suc by (simp add: wait_bound_def s'_def)
      ultimately show ?thesis by blast
    qed
    with pick True show ?thesis by simp
  next
    case False
    have "?q \<noteq> []" using n by auto
    with i False served_favoured [OF l rt] have nf: "\<not> favours (?cyc ! slot_of s) c" by auto
    have "slot_wait ?cyc c (unat (pick_counter s)) = Suc (slot_wait ?cyc c (slot_of s'))"
      using slot_wait_step [OF cycle_length v nf] slot by simp
    then have "wait_bound s' c n < wait_bound s c n"
      by (simp add: wait_bound_def slot_wait_mod) (simp add: s'_def)
    moreover have "waiting s' c n x" using False n l rt i v by (auto simp: waiting_def s'_def)
    ultimately show ?thesis using pick by blast
  qed
qed

lemma waiting_task_picked:
  "waiting s c n x \<Longrightarrow> wait_bound s c n < picks ops \<Longrightarrow> list_all (\<lambda>y. \<not> adds_realtime y) ops \<Longrightarrow>
   TaskId x \<in> set (fst (sched_run s ops))"
proof (induction s ops arbitrary: n rule: sched_run.induct)
  case (2 s ops)
  from pick_progress [OF "2.prems"(1)] obtain t s' where p: "pick_next s = (Some t, s')"
    and pr: "t = TaskId x \<or> (\<exists>m. waiting s' c m x \<and> wait_bound s' c m < wait_bound s c n)" by blast
  from pr have "t = TaskId x \<or> TaskId x \<in> set (fst (sched_run s' ops))"
    using "2.IH" [OF p [symmetric]] "2.prems"(2,3) by fastforce
  then show ?case by (auto simp: p split: prod.splits)
next
  case (3 s t p ops)
  have "waiting (snd (sched_enqueue s t p)) c n x \<and>
      wait_bound (snd (sched_enqueue s t p)) c n = wait_bound s c n"
    using "3.prems"(1,3) waiting_push [OF "3.prems"(1), of p]
    by (auto simp: sched_enqueue_def split: option.splits)
  with "3.IH" [of n] "3.prems" show ?case by auto
next
  case (4 s tcb p ops)
  have "waiting (register_process s tcb p) c n x \<and>
      wait_bound (register_process s tcb p) c n = wait_bound s c n"
    using "4.prems"(3) by (intro waiting_push [OF "4.prems"(1), of p]) (simp_all add: register_process_def)
  with "4.IH" [of n] "4.prems" show ?case by auto
qed simp

section \<open>Kernel stacks\<close>

lemma allocate_stack_slot_eq:
  assumes "next_kernel_stack_slot s = k" and "k < 2 ^ 64"
  shows "allocate_stack_slot s =
    (if k < 2 ^ 28
     then (Some (0xFFFFC00000000000 + of_nat k * 0x8000 + 0x4000), s\<lparr>next_kernel_stack_slot := k + 1\<rparr>)
     else (None, s))"
proof -
  have u: "unat (of_nat k :: u64) = k" using assms(2) by (intro unat_of_nat_small) simp
  show ?thesis
  proof (cases "k < 2 ^ 28")
    case True
    have m: "checked_mul (of_nat k :: u64) KERNEL_STACK_STRIDE = Some (of_nat k * 0x8000)"
      using True u by (simp add: checked_mul_def KERNEL_STACK_STRIDE_def)
    have um: "unat (of_nat k * 0x8000 :: u64) = k * 0x8000"
      using True u by (simp add: unat_word_ariths)
    have a: "checked_add KERNEL_STACK_VA_BASE (of_nat k * 0x8000 :: u64) =
        Some (0xFFFFC00000000000 + of_nat k * 0x8000)"
      using True um by (simp add: checked_add_def KERNEL_STACK_VA_BASE_def)
    have ua: "unat (0xFFFFC00000000000 + of_nat k * 0x8000 :: u64) = 0xFFFFC00000000000 + k * 0x8000"
      using True um by (simp add: unat_word_ariths)
    have t: "checked_add (0xFFFFC00000000000 + of_nat k * 0x8000 :: u64) KERNEL_STACK_STRIDE =
        Some (0xFFFFC00000000000 + of_nat k * 0x8000 + 0x8000)"
      using True ua by (simp add: checked_add_def KERNEL_STACK_STRIDE_def)
    have "unat (0xFFFFC00000000000 + of_nat k * 0x8000 + 0x8000 :: u64) = 0xFFFFC00000000000 + k * 0x8000 + 0x8000"
      using True u by (simp add: unat_word_ariths)
    then have "\<not> KERNEL_STACK_VA_END < 0xFFFFC00000000000 + of_nat k * 0x8000 + 0x8000"
      using True by (simp add: word_less_nat_alt KERNEL_STACK_VA_END_def)
    with True m a t show ?thesis by (simp add: allocate_stack_slot_def assms(1) KERNEL_STACK_SIZE_def)
  next
    case False
    have "KERNEL_STACK_VA_END < top"
      if "checked_mul (of_nat k :: u64) KERNEL_STACK_STRIDE = Some off"
        "checked_add KERNEL_STACK_VA_BASE off = Some b" "checked_add b KERNEL_STACK_STRIDE = Some top" for off b top
    proof -
      have "unat off = k * 0x8000"
        using that(1) u by (auto simp: checked_mul_def KERNEL_STACK_STRIDE_def unat_word_ariths split: if_splits)
      moreover have "unat b = 0xFFFFC00000000000 + unat off"
        using checked_add_SomeD [OF that(2), THEN conjunct2] by (simp add: KERNEL_STACK_VA_BASE_def)
      moreover have "unat top = unat b + 0x8000"
        using checked_add_SomeD [OF that(3), THEN conjunct2] by (simp add: KERNEL_STACK_STRIDE_def)
      ultimately show ?thesis using False by (simp add: word_less_nat_alt KERNEL_STACK_VA_END_def)
    qed
    with False show ?thesis by (auto simp: allocate_stack_slot_def assms(1) split: option.splits)
  qed
qed

section \<open>Properties\<close>

text \<open>
  C31. What a pick does. With six run queues, \<open>pick_next\<close> returns \<open>None\<close> exactly when every queue is
  empty; otherwise it takes the head of one queue, leaves every other queue alone and neither
  loses nor duplicates a task. A nonempty real-time queue is always served and does not advance
  the rotation; else the class the current slot names is served if it has a task, and else the
  first nonempty class in priority order.
\<close>

theorem pick_next_policy:
  assumes "length (run_queues s) = 6"
  shows "case pick_next s of
      (None, s') \<Rightarrow> concat (run_queues s) = [] \<and> run_queues s' = run_queues s
    | (Some t, s') \<Rightarrow> \<exists>i<6. served s = Some i \<and> run_queues s ! i = task_raw t # run_queues s' ! i \<and>
        run_queues s' = (run_queues s)[i := run_queues s' ! i] \<and>
        mset (concat (run_queues s)) = add_mset (task_raw t) (mset (concat (run_queues s'))) \<and>
        pick_counter s' = (if i = prio RealTime then pick_counter s else pick_counter s + 1) \<and>
        (if run_queues s ! prio RealTime \<noteq> [] then i = prio RealTime
         else case fairness_cycle_for (sc_thermal s) ! (unat (pick_counter s) mod 8) of
             Some c \<Rightarrow> i = (if run_queues s ! prio c \<noteq> [] then prio c else (LEAST j. run_queues s ! j \<noteq> []))
           | None \<Rightarrow> i = (LEAST j. run_queues s ! j \<noteq> []))"
proof (cases "served s")
  case None
  with served_None [OF assms] pick_next_eq [OF assms] show ?thesis by simp
next
  case (Some i)
  note i = served_SomeD [OF assms Some]
  have hd: "run_queues s ! i = hd (run_queues s ! i) # tl (run_queues s ! i)" using i by simp
  note ms = mset_concat_pop [of i "run_queues s"]
  have pick: "pick_next s = (Some (TaskId (hd (run_queues s ! i))), s\<lparr>run_queues := (run_queues s)[i := tl (run_queues s ! i)],
      pick_counter := (if i = 1 then pick_counter s else pick_counter s + 1)\<rparr>)"
    using Some pick_next_eq [OF assms] by simp
  show ?thesis
    unfolding pick prod.case option.case
    by (rule exI [of _ i]) (use i assms hd Some ms served_policy [OF assms Some] in simp)
qed

definition demo_sched :: scheduler where
  "demo_sched = scheduler_new\<lparr>run_queues := [[1, 2], [], [], [3], [7, 8], []], pick_counter := - 1\<rparr>"

theorem pick_next_policy_witness:
  "\<exists>s'. pick_next demo_sched = (Some (TaskId 7), s') \<and> pick_counter s' = 0 \<and>
     mset (concat (run_queues demo_sched)) = add_mset 7 (mset (concat (run_queues s')))"
proof -
  have l: "length (run_queues demo_sched) = 6" by (simp add: demo_sched_def)
  have "fst (pick_next demo_sched) = Some (TaskId 7)" "pick_counter (snd (pick_next demo_sched)) = 0"
    by (simp_all add: pick_next_def demo_sched_def scheduler_new_def pop_class_def FAIRNESS_CYCLE_def
        FAIRNESS_LEN_8 Let_def)
  then obtain s' where eq: "pick_next demo_sched = (Some (TaskId 7), s')" "pick_counter s' = 0"
    by (cases "pick_next demo_sched") auto
  from pick_next_policy [OF l] eq show ?thesis by auto
qed

text \<open>
  C6. No starvation. While no real-time task is queued or added, a task waiting at position
  \<open>n\<close> of the queue of \<open>System\<close>, \<open>Interactive\<close> or \<open>AiInference\<close>, or of \<open>Background\<close> while the CPU is
  cool, is picked within \<open>8 * (n + 1)\<close> picks, whatever tasks are enqueued or registered in between
  and wherever the rotation stands, the wrap of its 64-bit counter included.
\<close>

theorem no_starvation:
  assumes "length (run_queues s) = 6" and "run_queues s ! prio RealTime = []"
    and "c \<in> {System, Interactive, AiInference} \<or> c = Background \<and> sc_thermal s = Normal"
    and "n < length (run_queues s ! prio c)" and "8 * (n + 1) \<le> picks ops"
    and "list_all (\<lambda>x. \<not> adds_realtime x) ops"
  shows "TaskId (run_queues s ! prio c ! n) \<in> set (fst (sched_run s ops))"
proof -
  have v: "\<exists>v \<in> set (fairness_cycle_for (sc_thermal s)). favours v c"
    using assms(3) by (cases "sc_thermal s") (auto simp: favours_def FAIRNESS_CYCLE_def)
  then have "waiting s c n (run_queues s ! prio c ! n)"
    using assms(1,2,4) by (simp add: waiting_def)
  moreover from v have "slot_wait (fairness_cycle_for (sc_thermal s)) c (slot_of s) < 8"
    by (blast intro: slot_wait_lt [OF cycle_length])
  then have "wait_bound s c n < picks ops" using assms(5) by (simp add: wait_bound_def)
  ultimately show ?thesis using assms(6) by (rule waiting_task_picked)
qed

theorem no_starvation_witness:
  "TaskId 8 \<in> set (fst (sched_run demo_sched (EnqOp (TaskId 1) System # replicate 16 PickOp)))"
proof -
  have "TaskId (run_queues demo_sched ! prio Background ! 1) \<in>
      set (fst (sched_run demo_sched (EnqOp (TaskId 1) System # replicate 16 PickOp)))"
    by (rule no_starvation) (simp_all add: demo_sched_def scheduler_new_def list_all_iff)
  then show ?thesis by (simp add: demo_sched_def)
qed

text \<open>
  C32. Kernel stacks. The slot counter being \<open>k\<close>, an allocation succeeds exactly for the first
  2^28 slots and then returns the address \<open>base + k * 32 KiB + 16 KiB\<close>: the 16 KiB stack that
  starts there lies inside the reserved window, in the upper half of its own 32 KiB slot, so
  stacks of different slots are disjoint with at least 16 KiB unmapped below each. An exhausted
  window leaves the scheduler unchanged.
\<close>

theorem kernel_stacks_disjoint:
  assumes "next_kernel_stack_slot s = k" and "k < 2 ^ 64"
  shows "case allocate_stack_slot s of
      (None, s') \<Rightarrow> 2 ^ 28 \<le> k \<and> s' = s
    | (Some va, s') \<Rightarrow> k < 2 ^ 28 \<and> s' = s\<lparr>next_kernel_stack_slot := k + 1\<rparr> \<and>
        unat va = unat KERNEL_STACK_VA_BASE + k * 0x8000 + 0x4000 \<and>
        unat va + unat KERNEL_STACK_SIZE = unat KERNEL_STACK_VA_BASE + (k + 1) * 0x8000 \<and>
        unat va + unat KERNEL_STACK_SIZE \<le> unat KERNEL_STACK_VA_END"
proof (cases "k < 2 ^ 28")
  case True
  have "unat (of_nat k :: u64) = k" using assms(2) by (intro unat_of_nat_small) simp
  then have "unat (0xFFFFC00000000000 + of_nat k * 0x8000 + 0x4000 :: u64) =
      0xFFFFC00000000000 + k * 0x8000 + 0x4000"
    using True by (simp add: unat_word_ariths)
  with True show ?thesis
    unfolding allocate_stack_slot_eq [OF assms]
    by (simp add: KERNEL_STACK_VA_BASE_def KERNEL_STACK_VA_END_def KERNEL_STACK_SIZE_def)
next
  case False
  then show ?thesis unfolding allocate_stack_slot_eq [OF assms] by simp
qed

theorem kernel_stacks_disjoint_witness:
  "allocate_stack_slot scheduler_new = (Some 0xFFFFC00000004000, scheduler_new\<lparr>next_kernel_stack_slot := 1\<rparr>) \<and>
   allocate_stack_slot (scheduler_new\<lparr>next_kernel_stack_slot := 2 ^ 28\<rparr>) =
     (None, scheduler_new\<lparr>next_kernel_stack_slot := 2 ^ 28\<rparr>)"
proof -
  let ?s = "scheduler_new\<lparr>next_kernel_stack_slot := 2 ^ 28\<rparr>"
  have "fst (allocate_stack_slot scheduler_new) = Some 0xFFFFC00000004000"
    by (simp add: allocate_stack_slot_def scheduler_new_def checked_mul_def checked_add_def
        KERNEL_STACK_VA_BASE_def KERNEL_STACK_STRIDE_def KERNEL_STACK_SIZE_def KERNEL_STACK_VA_END_def)
  with kernel_stacks_disjoint [of scheduler_new 0]
  have "allocate_stack_slot scheduler_new = (Some 0xFFFFC00000004000, scheduler_new\<lparr>next_kernel_stack_slot := 1\<rparr>)"
    by (simp add: scheduler_new_def split: prod.splits)
  moreover have "allocate_stack_slot ?s = (None, ?s)"
    using kernel_stacks_disjoint [of ?s "2 ^ 28"] by (auto split: prod.splits option.splits)
  ultimately show ?thesis ..
qed

text \<open>
  The thermal boost ignores the reported load: what is picked does not depend on the load class,
  although the comments call the boost workload-aware.
\<close>

lemma pick_next_ignores_load_class:
  "pick_next (set_cpu_load_class s c) = apsnd (\<lambda>s'. set_cpu_load_class s' c) (pick_next s)"
  by (auto simp: pick_next_def set_cpu_load_class_def Let_def split: option.splits prod.splits)

end
