(* ===== verification/Cpu_Queues.thy ===== *)
theory Cpu_Queues
  imports Scheduler
begin

text \<open>
  The per-CPU run queues of \<open>nexacore-kernel/src/bare_metal/per_cpu_run_queue.rs\<close> and the two
  scheduler operations that use them (\<open>enqueue_for_cpu\<close>, \<open>pick_next_for_cpu\<close>). The spin locks are
  not modelled: each operation on a slot is one critical section, so a state is a table between
  critical sections.

  Shown here: a CPU serves its own queues first, steals the newest task of another CPU's lowest
  class otherwise, and no task is lost or duplicated.
\<close>

section \<open>Per-CPU run queues\<close>

definition NUM_CPU_SLOTS :: nat where "NUM_CPU_SLOTS = 32"

type_synonym cpu_queues = "u64 list list"
type_synonym cpu_table = "cpu_queues list"

definition cpu_table_new :: cpu_table where
  "cpu_table_new = replicate NUM_CPU_SLOTS (replicate NUM_PRIORITY_CLASSES [])"

definition push_back :: "cpu_queues \<Rightarrow> u64 \<Rightarrow> priority_class \<Rightarrow> cpu_queues" where
  "push_back q task p = push_queue q p task"

definition pop_front :: "cpu_queues \<Rightarrow> u64 option \<times> cpu_queues" where
  "pop_front q = (case pop_strict q of None \<Rightarrow> (None, q) | Some (t, q') \<Rightarrow> (Some t, q'))"

text \<open>From the lowest class up, the newest task of the first nonempty queue.\<close>

fun steal_scan :: "u64 list list \<Rightarrow> (u64 \<times> u64 list list) option" where
  "steal_scan [] = None"
| "steal_scan (q # qs) =
     (case steal_scan qs of
        Some (t, qs') \<Rightarrow> Some (t, q # qs')
      | None \<Rightarrow> if q = [] then None else Some (last q, butlast q # qs))"

definition steal_back :: "cpu_queues \<Rightarrow> u64 option \<times> cpu_queues" where
  "steal_back q = (case steal_scan q of None \<Rightarrow> (None, q) | Some (t, q') \<Rightarrow> (Some t, q'))"

definition total_len :: "cpu_queues \<Rightarrow> nat" where
  "total_len q = sum_list (map length q)"

definition enqueue_on_cpu :: "cpu_table \<Rightarrow> u32 \<Rightarrow> u64 \<Rightarrow> priority_class \<Rightarrow> bool \<times> cpu_table" where
  "enqueue_on_cpu tb cpu task p =
     (if unat cpu < length tb
      then (True, tb[unat cpu := push_back (tb ! unat cpu) task p]) else (False, tb))"

text \<open>\<open>pop_for_cpu\<close> and \<open>steal_from\<close>: one slot of the table, from the front or the back.\<close>

definition pop_for_cpu :: "cpu_table \<Rightarrow> u32 \<Rightarrow> u64 option \<times> cpu_table" where
  "pop_for_cpu tb cpu =
     (if unat cpu < length tb
      then case pop_front (tb ! unat cpu) of (r, q) \<Rightarrow> (r, tb[unat cpu := q]) else (None, tb))"

definition steal_from :: "cpu_table \<Rightarrow> u32 \<Rightarrow> u64 option \<times> cpu_table" where
  "steal_from tb victim =
     (if unat victim < length tb
      then case steal_back (tb ! unat victim) of (r, q) \<Rightarrow> (r, tb[unat victim := q]) else (None, tb))"

fun steal_loop :: "cpu_table \<Rightarrow> u32 \<Rightarrow> u32 list \<Rightarrow> u64 option \<times> cpu_table" where
  "steal_loop tb cpu [] = (None, tb)"
| "steal_loop tb cpu (v # vs) =
     (if v = cpu then steal_loop tb cpu vs
      else case steal_from tb v of
          (Some t, tb') \<Rightarrow> (Some t, tb')
        | (None, tb') \<Rightarrow> steal_loop tb' cpu vs)"

definition pop_for_cpu_with_stealing :: "cpu_table \<Rightarrow> u32 \<Rightarrow> u64 option \<times> cpu_table" where
  "pop_for_cpu_with_stealing tb cpu =
     (case pop_for_cpu tb cpu of
        (Some t, tb') \<Rightarrow> (Some t, tb')
      | (None, tb') \<Rightarrow> steal_loop tb' cpu (map of_nat [0..<NUM_CPU_SLOTS]))"

definition local_len :: "cpu_table \<Rightarrow> u32 \<Rightarrow> nat" where
  "local_len tb cpu = (if unat cpu < length tb then total_len (tb ! unat cpu) else 0)"

section \<open>The two queue sets together\<close>

definition enqueue_for_cpu ::
  "scheduler \<times> cpu_table \<Rightarrow> u32 \<Rightarrow> task_id \<Rightarrow> priority_class \<Rightarrow> bool \<times> scheduler \<times> cpu_table" where
  "enqueue_for_cpu = (\<lambda>(s, tb) cpu task p.
     let s' = s\<lparr>run_queues := push_queue (run_queues s) p (task_raw task)\<rparr>;
         (ok, tb') = enqueue_on_cpu tb cpu (task_raw task) p
     in (ok, s', tb'))"

definition pick_next_for_cpu :: "scheduler \<times> cpu_table \<Rightarrow> u32 \<Rightarrow> task_id option \<times> scheduler \<times> cpu_table" where
  "pick_next_for_cpu = (\<lambda>(s, tb) cpu.
     case pop_for_cpu_with_stealing tb cpu of
       (None, tb') \<Rightarrow> (None, s, tb')
     | (Some picked, tb') \<Rightarrow>
         (Some (TaskId picked), s\<lparr>run_queues := map (filter (\<lambda>i. i \<noteq> picked)) (run_queues s)\<rparr>, tb'))"

section \<open>Conservation\<close>

definition cpu_wf :: "cpu_table \<Rightarrow> bool" where
  "cpu_wf tb \<longleftrightarrow> length tb = NUM_CPU_SLOTS \<and> (\<forall>q \<in> set tb. length q = NUM_PRIORITY_CLASSES)"

definition all_tasks :: "cpu_table \<Rightarrow> u64 multiset" where
  "all_tasks tb = mset (concat (map concat tb))"

lemma all_tasks_update:
  "i < length tb \<Longrightarrow> all_tasks (tb[i := q]) + mset (concat (tb ! i)) = all_tasks tb + mset (concat q)"
proof (induction tb arbitrary: i)
  case (Cons x tb)
  then show ?case by (cases i) (auto simp: all_tasks_def ac_simps)
qed simp

lemma pop_front_spec:
  "case pop_front q of
     (None, q') \<Rightarrow> concat q = [] \<and> q' = q
   | (Some t, q') \<Rightarrow> mset (concat q) = add_mset t (mset (concat q')) \<and> length q' = length q"
proof (cases "first_nonempty q")
  case None
  then have "concat q = []" by (simp only: first_nonempty_None)
  with None show ?thesis by (simp add: pop_front_def pop_strict_eq)
next
  case (Some i)
  with first_nonempty_SomeD [OF Some] mset_concat_pop [of i q] show ?thesis
    by (simp add: pop_front_def pop_strict_eq)
qed

lemma steal_scan_None: "steal_scan qs = None \<longleftrightarrow> concat qs = []"
  by (induction qs) (auto split: option.splits prod.splits)

lemma steal_scan_Some:
  "steal_scan qs = Some (t, qs') \<Longrightarrow>
     mset (concat qs) = add_mset t (mset (concat qs')) \<and> length qs' = length qs"
proof (induction qs arbitrary: qs')
  case (Cons q qs)
  show ?case
  proof (cases "steal_scan qs")
    case None
    then have "concat qs = []" by (simp add: steal_scan_None)
    moreover have "mset q = add_mset (last q) (mset (butlast q))" if "q \<noteq> []"
      using that by (metis append_butlast_last_id mset.simps(2) mset_append union_code union_commute mset.simps(1) add_mset_add_single)
    ultimately show ?thesis using Cons.prems None by (auto split: if_splits)
  next
    case (Some p)
    then show ?thesis using Cons by (cases p) auto
  qed
qed simp

lemma steal_back_spec:
  "case steal_back q of
     (None, q') \<Rightarrow> concat q = [] \<and> q' = q
   | (Some t, q') \<Rightarrow> mset (concat q) = add_mset t (mset (concat q')) \<and> length q' = length q"
  using steal_scan_None [of q] steal_scan_Some [of q]
  by (cases "steal_scan q") (auto simp: steal_back_def)

lemma cpu_wf_update: "cpu_wf tb \<Longrightarrow> length q = NUM_PRIORITY_CLASSES \<Longrightarrow> cpu_wf (tb[i := q])"
  using set_update_subset_insert [of tb i q] by (auto simp: cpu_wf_def)

text \<open>The contract of taking one task from one slot, for both ends.\<close>

definition takes_from :: "cpu_table \<Rightarrow> nat \<Rightarrow> u64 option \<times> cpu_table \<Rightarrow> bool" where
  "takes_from tb i r =
     (case r of
        (None, tb') \<Rightarrow> tb' = tb \<and> (i < length tb \<longrightarrow> concat (tb ! i) = [])
      | (Some t, tb') \<Rightarrow> all_tasks tb = add_mset t (all_tasks tb') \<and> cpu_wf tb')"

lemma takes_fromI:
  assumes "cpu_wf tb" and "i < length tb"
    and "case (r, q) of (None, q') \<Rightarrow> concat (tb ! i) = [] \<and> q' = tb ! i
      | (Some t, q') \<Rightarrow> mset (concat (tb ! i)) = add_mset t (mset (concat q')) \<and> length q' = length (tb ! i)"
  shows "takes_from tb i (r, tb[i := q])"
proof (cases r)
  case None
  with assms(3) show ?thesis by (simp add: takes_from_def)
next
  case (Some t)
  have "all_tasks (tb[i := q]) + mset (concat (tb ! i)) = all_tasks tb + mset (concat q)"
    by (rule all_tasks_update [OF assms(2)])
  with Some assms have "all_tasks tb = add_mset t (all_tasks (tb[i := q]))" by simp
  moreover have "length q = NUM_PRIORITY_CLASSES" using Some assms by (simp add: cpu_wf_def)
  ultimately show ?thesis using Some cpu_wf_update [OF assms(1)] by (simp add: takes_from_def)
qed

lemma pop_for_cpu_takes: "cpu_wf tb \<Longrightarrow> takes_from tb (unat cpu) (pop_for_cpu tb cpu)"
  using takes_fromI [of tb "unat cpu"] pop_front_spec [of "tb ! unat cpu"]
  by (cases "pop_front (tb ! unat cpu)") (simp add: pop_for_cpu_def, simp add: takes_from_def)

lemma steal_from_takes: "cpu_wf tb \<Longrightarrow> takes_from tb (unat cpu) (steal_from tb cpu)"
  using takes_fromI [of tb "unat cpu"] steal_back_spec [of "tb ! unat cpu"]
  by (cases "steal_back (tb ! unat cpu)") (simp add: steal_from_def, simp add: takes_from_def)

lemma steal_loop_spec:
  assumes "cpu_wf tb"
  shows "case steal_loop tb cpu vs of
      (None, tb') \<Rightarrow> tb' = tb \<and> (\<forall>v \<in> set vs. v \<noteq> cpu \<and> unat v < length tb \<longrightarrow> concat (tb ! unat v) = [])
    | (Some t, tb') \<Rightarrow> all_tasks tb = add_mset t (all_tasks tb') \<and> cpu_wf tb'"
proof (induction vs)
  case (Cons v vs)
  show ?case
  proof (cases "v = cpu")
    case False
    obtain r tb' where st: "steal_from tb v = (r, tb')" by (cases "steal_from tb v")
    with steal_from_takes [OF assms, of v] Cons False show ?thesis
      by (cases r) (auto simp: takes_from_def split: prod.splits option.splits)
  qed (use Cons in \<open>auto split: prod.splits option.splits\<close>)
qed simp

lemma all_tasks_empty: "all_tasks tb = {#} \<longleftrightarrow> (\<forall>q \<in> set tb. concat q = [])"
  by (auto simp: all_tasks_def)

lemma cpu_wf_enqueue: "cpu_wf tb \<Longrightarrow> cpu_wf (snd (enqueue_on_cpu tb cpu t p))"
  using cpu_wf_update [of tb "push_back (tb ! unat cpu) t p" "unat cpu"]
  by (auto simp: enqueue_on_cpu_def push_back_def cpu_wf_def)

section \<open>Properties\<close>

text \<open>
  C33. Work stealing conserves tasks. On a well-formed table, picking for any CPU number (one
  outside the table included) returns \<open>None\<close>, changing nothing, exactly when no CPU has a task;
  otherwise it removes exactly one occurrence of the task it returns and keeps the table well
  formed. A CPU with work of its own takes from its own queues.
\<close>

theorem stealing_conserves:
  assumes "cpu_wf tb"
  shows "case pop_for_cpu_with_stealing tb cpu of
      (None, tb') \<Rightarrow> all_tasks tb = {#} \<and> tb' = tb
    | (Some t, tb') \<Rightarrow> all_tasks tb = add_mset t (all_tasks tb') \<and> cpu_wf tb' \<and>
        (if unat cpu < NUM_CPU_SLOTS \<and> concat (tb ! unat cpu) \<noteq> []
         then tb' = tb[unat cpu := tb' ! unat cpu] else True)"
proof -
  obtain r tb1 where p: "pop_for_cpu tb cpu = (r, tb1)" by (cases "pop_for_cpu tb cpu")
  note own = pop_for_cpu_takes [OF assms, of cpu, unfolded p]
  have len: "length tb = NUM_CPU_SLOTS" using assms by (simp add: cpu_wf_def)
  show ?thesis
  proof (cases r)
    case (Some t)
    then have "tb1 = tb[unat cpu := tb1 ! unat cpu]"
      using p by (auto simp: pop_for_cpu_def split: if_splits prod.splits)
    with Some own p show ?thesis by (simp add: pop_for_cpu_with_stealing_def takes_from_def)
  next
    case None
    with own have tb1: "tb1 = tb" and empty: "unat cpu < length tb \<longrightarrow> concat (tb ! unat cpu) = []"
      by (simp_all add: takes_from_def)
    let ?vs = "map of_nat [0..<NUM_CPU_SLOTS] :: u32 list"
    obtain r2 tb2 where l: "steal_loop tb cpu ?vs = (r2, tb2)" by (cases "steal_loop tb cpu ?vs")
    note loop = steal_loop_spec [OF assms, where cpu = cpu and vs = ?vs, unfolded l]
    have "concat (tb ! j) = []" if "r2 = None" "j < length tb" for j
    proof -
      have "unat (of_nat j :: u32) = j" using that(2) len by (simp add: NUM_CPU_SLOTS_def unat_of_nat_small)
      with loop empty that len show ?thesis by (cases "(of_nat j :: u32) = cpu") auto
    qed
    then have "r2 = None \<Longrightarrow> all_tasks tb = {#}" unfolding all_tasks_empty by (metis in_set_conv_nth)
    with loop None p tb1 l empty len show ?thesis
      by (cases r2) (auto simp: pop_for_cpu_with_stealing_def)
  qed
qed

theorem stealing_conserves_witness:
  "let tb = snd (enqueue_on_cpu (snd (enqueue_on_cpu cpu_table_new 3 11 Background)) 3 12 Background) in
   \<exists>tb'. pop_for_cpu_with_stealing tb 0 = (Some 12, tb') \<and> all_tasks tb = add_mset 12 (all_tasks tb')"
proof -
  let ?tb = "snd (enqueue_on_cpu (snd (enqueue_on_cpu cpu_table_new 3 11 Background)) 3 12 Background)"
  have "cpu_wf cpu_table_new" by (simp add: cpu_wf_def cpu_table_new_def)
  then have wf: "cpu_wf ?tb" by (intro cpu_wf_enqueue)
  have "fst (pop_for_cpu_with_stealing ?tb 0) = Some 12" by code_simp
  then obtain tb' where "pop_for_cpu_with_stealing ?tb 0 = (Some 12, tb')"
    by (cases "pop_for_cpu_with_stealing ?tb 0") auto
  with stealing_conserves [OF wf, of 0] show ?thesis by (auto simp: Let_def)
qed

end
