(* ===== verification/Vfs.thy ===== *)
theory Vfs
  imports Kernel_Prelude "HOL-Library.Char_ord" "HOL-Library.List_Lexorder" "HOL-Library.Sublist"
begin

text \<open>
  The in-memory virtual file system, \<open>nexacore-kernel/src/vfs.rs\<close>: path normalisation, the flat
  inode table with its child maps and parent links, creation, deletion, queries and file I/O.
  Path strings are lists of UTF-8 bytes; the separator and the dot are single bytes, so splitting
  at a byte is splitting at a character. \<open>Vec::resize\<close> panics beyond \<open>isize::MAX\<close> bytes; a write
  that does is the value \<open>None\<close>.

  Shown here: normal forms of paths; that every run of operations keeps the inode table a tree
  with no orphans; that the operations implement an abstract file system, a partial map from
  paths to nodes, errors included; and what reads return after writes.
\<close>

section \<open>Types\<close>

datatype file_type = RegularFile | Directory

record file_stat =
  st_inode :: u64
  st_size :: u64
  st_file_type :: file_type

record dir_entry =
  de_name :: string
  de_inode :: u64
  de_file_type :: file_type

datatype vfs_error = NotFound | AlreadyExists | NotADirectory | IsADirectory | NotEmpty | InvalidPath

record inode =
  ino_id :: u64
  ino_name :: string
  ino_type :: file_type
  ino_data :: bytes
  ino_children :: "(string, u64) fmap"
  ino_parent :: "u64 option"

record vfs =
  vfs_inodes :: "(u64, inode) fmap"
  next_inode :: u64

definition vfs_new :: vfs where
  "vfs_new =
     \<lparr>vfs_inodes = fmupd 1 \<lparr>ino_id = 1, ino_name = ''/'', ino_type = Directory, ino_data = [],
                            ino_children = fmempty, ino_parent = None\<rparr> fmempty,
      next_inode = 2\<rparr>"

section \<open>Paths\<close>

text \<open>\<open>str::split\<close> at a character: one more part than there are separators.\<close>

fun split_on :: "'a \<Rightarrow> 'a list \<Rightarrow> 'a list list" where
  "split_on d [] = [[]]"
| "split_on d (x # xs) =
     (if x = d then [] # split_on d xs
      else case split_on d xs of [] \<Rightarrow> [[x]] | p # ps \<Rightarrow> (x # p) # ps)"

text \<open>\<open>str::rfind\<close>: the position of the last occurrence.\<close>

fun rfind :: "'a \<Rightarrow> 'a list \<Rightarrow> nat option" where
  "rfind d [] = None"
| "rfind d (x # xs) =
     (case rfind d xs of Some i \<Rightarrow> Some (Suc i) | None \<Rightarrow> if x = d then Some 0 else None)"

definition push_component :: "string list \<Rightarrow> string \<Rightarrow> string list" where
  "push_component stack c =
     (if c = [] \<or> c = ''.'' then stack else if c = ''..'' then butlast stack else stack @ [c])"

definition normalize_path :: "string \<Rightarrow> string \<Rightarrow> string" where
  "normalize_path base path =
     (let raw = (if take 1 path = ''/'' then path
                 else (if base \<noteq> [] \<and> last base = CHR ''/'' then base else base @ ''/'') @ path);
          stack = foldl push_component [] (split_on CHR ''/'' raw)
      in if stack = [] then ''/'' else concat (map (\<lambda>c. CHR ''/'' # c) stack))"

fun walk :: "vfs \<Rightarrow> u64 \<Rightarrow> string list \<Rightarrow> vfs_error + u64" where
  "walk v cur [] = Inr cur"
| "walk v cur (c # cs) =
     (if c = [] then walk v cur cs
      else case fmlookup (vfs_inodes v) cur of
          None \<Rightarrow> Inl NotFound
        | Some n \<Rightarrow>
            if ino_type n \<noteq> Directory then Inl NotADirectory
            else (case fmlookup (ino_children n) c of
                    None \<Rightarrow> Inl NotFound
                  | Some j \<Rightarrow> walk v j cs))"

definition resolve_path :: "vfs \<Rightarrow> string \<Rightarrow> vfs_error + u64" where
  "resolve_path v path =
     (let normalized = normalize_path ''/'' path
      in if normalized = ''/'' then Inr 1 else walk v 1 (tl (split_on CHR ''/'' normalized)))"

text \<open>
  The source \<open>expect\<close>s the position of the last separator; \<open>normalize_path_rfind\<close> below shows that
  it is always there.
\<close>

definition resolve_parent :: "vfs \<Rightarrow> string \<Rightarrow> vfs_error + (u64 \<times> string)" where
  "resolve_parent v path =
     (let normalized = normalize_path ''/'' path
      in if normalized = ''/'' then Inl InvalidPath
         else
           let last_slash = the (rfind CHR ''/'' normalized);
               child_name = drop (last_slash + 1) normalized
           in if child_name = [] then Inl InvalidPath
              else
                let parent_path = (if last_slash = 0 then ''/'' else take last_slash normalized)
                in case resolve_path v parent_path of
                     Inl e \<Rightarrow> Inl e
                   | Inr parent_id \<Rightarrow>
                       (case fmlookup (vfs_inodes v) parent_id of
                          None \<Rightarrow> Inl NotFound
                        | Some p \<Rightarrow>
                            if ino_type p \<noteq> Directory then Inl NotADirectory
                            else Inr (parent_id, child_name)))"

section \<open>Creation and deletion\<close>

definition link_child :: "vfs \<Rightarrow> u64 \<Rightarrow> (string \<times> u64) \<Rightarrow> vfs" where
  "link_child v parent_id e =
     (case fmlookup (vfs_inodes v) parent_id of
        None \<Rightarrow> v
      | Some p \<Rightarrow>
          v\<lparr>vfs_inodes := fmupd parent_id (p\<lparr>ino_children := fmupd (fst e) (snd e) (ino_children p)\<rparr>)
              (vfs_inodes v)\<rparr>)"

definition create_entry :: "vfs \<Rightarrow> string \<Rightarrow> file_type \<Rightarrow> (vfs_error + u64) \<times> vfs" where
  "create_entry v path ft =
     (case resolve_parent v path of
        Inl e \<Rightarrow> (Inl e, v)
      | Inr (parent_id, child_name) \<Rightarrow>
          (case fmlookup (vfs_inodes v) parent_id of
             None \<Rightarrow> (Inl NotFound, v)
           | Some p \<Rightarrow>
               if fmlookup (ino_children p) child_name \<noteq> None then (Inl AlreadyExists, v)
               else
                 let new_id = next_inode v;
                     v1 = v\<lparr>next_inode := saturating_add (next_inode v) 1,
                            vfs_inodes := fmupd new_id
                              \<lparr>ino_id = new_id, ino_name = child_name, ino_type = ft, ino_data = [],
                               ino_children = fmempty, ino_parent = Some parent_id\<rparr> (vfs_inodes v)\<rparr>
                 in (Inr new_id, link_child v1 parent_id (child_name, new_id))))"

definition create_file :: "vfs \<Rightarrow> string \<Rightarrow> (vfs_error + u64) \<times> vfs" where
  "create_file v path = create_entry v path RegularFile"

definition create_directory :: "vfs \<Rightarrow> string \<Rightarrow> (vfs_error + u64) \<times> vfs" where
  "create_directory v path = create_entry v path Directory"

definition unlink_child :: "vfs \<Rightarrow> u64 \<Rightarrow> string \<Rightarrow> vfs" where
  "unlink_child v parent_id child_name =
     (case fmlookup (vfs_inodes v) parent_id of
        None \<Rightarrow> v
      | Some p \<Rightarrow>
          v\<lparr>vfs_inodes := fmupd parent_id (p\<lparr>ino_children := fmdrop child_name (ino_children p)\<rparr>)
              (vfs_inodes v)\<rparr>)"

definition vfs_delete :: "vfs \<Rightarrow> string \<Rightarrow> (vfs_error + unit) \<times> vfs" where
  "vfs_delete v path =
     (let normalized = normalize_path ''/'' path
      in if normalized = ''/'' then (Inl InvalidPath, v)
         else case resolve_path v normalized of
             Inl e \<Rightarrow> (Inl e, v)
           | Inr target_id \<Rightarrow>
               (case fmlookup (vfs_inodes v) target_id of
                  None \<Rightarrow> (Inl NotFound, v)
                | Some target \<Rightarrow>
                    if ino_type target = Directory \<and> ino_children target \<noteq> fmempty
                    then (Inl NotEmpty, v)
                    else (case ino_parent target of
                            None \<Rightarrow> (Inl InvalidPath, v)
                          | Some parent_id \<Rightarrow>
                              let child_name = drop (the (rfind CHR ''/'' normalized) + 1) normalized;
                                  v1 = unlink_child v parent_id child_name
                              in (Inr (), v1\<lparr>vfs_inodes := fmdrop target_id (vfs_inodes v1)\<rparr>))))"

section \<open>Queries and file I/O\<close>

definition vfs_stat :: "vfs \<Rightarrow> string \<Rightarrow> vfs_error + file_stat" where
  "vfs_stat v path =
     (case resolve_path v path of
        Inl e \<Rightarrow> Inl e
      | Inr i \<Rightarrow>
          (case fmlookup (vfs_inodes v) i of
             None \<Rightarrow> Inl NotFound
           | Some n \<Rightarrow> Inr \<lparr>st_inode = ino_id n, st_size = of_nat (length (ino_data n)),
                             st_file_type = ino_type n\<rparr>))"

fun dir_entries :: "vfs \<Rightarrow> (string \<times> u64) list \<Rightarrow> vfs_error + dir_entry list" where
  "dir_entries v [] = Inr []"
| "dir_entries v ((name, child_id) # rest) =
     (case fmlookup (vfs_inodes v) child_id of
        None \<Rightarrow> Inl NotFound
      | Some child \<Rightarrow>
          (case dir_entries v rest of
             Inl e \<Rightarrow> Inl e
           | Inr es \<Rightarrow>
               Inr (\<lparr>de_name = name, de_inode = child_id, de_file_type = ino_type child\<rparr> # es)))"

definition list_directory :: "vfs \<Rightarrow> string \<Rightarrow> vfs_error + dir_entry list" where
  "list_directory v path =
     (case resolve_path v path of
        Inl e \<Rightarrow> Inl e
      | Inr i \<Rightarrow>
          (case fmlookup (vfs_inodes v) i of
             None \<Rightarrow> Inl NotFound
           | Some n \<Rightarrow>
               if ino_type n \<noteq> Directory then Inl NotADirectory
               else dir_entries v (fm_iter (ino_children n))))"

definition vfs_exists :: "vfs \<Rightarrow> string \<Rightarrow> bool" where
  "vfs_exists v path = is_ok (resolve_path v path)"

definition USIZE_MAX :: nat where "USIZE_MAX = 2 ^ 64 - 1"
definition ISIZE_MAX :: nat where "ISIZE_MAX = 2 ^ 63 - 1"

definition read_file :: "vfs \<Rightarrow> u64 \<Rightarrow> u64 \<Rightarrow> nat \<Rightarrow> vfs_error + bytes" where
  "read_file v i offset len =
     (case fmlookup (vfs_inodes v) i of
        None \<Rightarrow> Inl NotFound
      | Some n \<Rightarrow>
          if ino_type n = Directory then Inl IsADirectory
          else if length (ino_data n) \<le> unat offset \<or> len = 0 then Inr []
          else
            let start = unat offset;
                end_pos = min (min (start + len) USIZE_MAX) (length (ino_data n))
            in Inr (take (end_pos - start) (drop start (ino_data n))))"

text \<open>\<open>Vec::resize(n, 0)\<close> for a larger \<open>n\<close>, and \<open>copy_from_slice\<close> into \<open>start..end\<close>.\<close>

definition grow :: "bytes \<Rightarrow> nat \<Rightarrow> bytes" where
  "grow d n = (if length d < n then d @ replicate (n - length d) 0 else d)"

definition overwrite :: "bytes \<Rightarrow> nat \<Rightarrow> bytes \<Rightarrow> bytes" where
  "overwrite d start data = take start d @ data @ drop (start + length data) d"

definition write_file :: "vfs \<Rightarrow> u64 \<Rightarrow> u64 \<Rightarrow> bytes \<Rightarrow> ((vfs_error + nat) \<times> vfs) option" where
  "write_file v i offset data =
     (case fmlookup (vfs_inodes v) i of
        None \<Rightarrow> Some (Inl NotFound, v)
      | Some n \<Rightarrow>
          if ino_type n = Directory then Some (Inl IsADirectory, v)
          else if data = [] then Some (Inr 0, v)
          else
            let start = unat offset;
                end_pos = min (start + length data) USIZE_MAX
            in if length (ino_data n) < end_pos \<and> ISIZE_MAX < end_pos then None
               else Some (Inr (length data),
                      v\<lparr>vfs_inodes := fmupd i (n\<lparr>ino_data := overwrite (grow (ino_data n) end_pos) start data\<rparr>)
                          (vfs_inodes v)\<rparr>))"

definition file_size :: "vfs \<Rightarrow> u64 \<Rightarrow> vfs_error + u64" where
  "file_size v i =
     (case fmlookup (vfs_inodes v) i of
        None \<Rightarrow> Inl NotFound
      | Some n \<Rightarrow> if ino_type n = Directory then Inl IsADirectory else Inr (of_nat (length (ino_data n))))"

section \<open>Splitting and joining\<close>

lemma split_on_nonempty [simp]: "split_on d xs \<noteq> []"
  by (cases xs) (auto split: list.splits)

lemma split_on_append: "split_on d (xs @ d # ys) = split_on d xs @ split_on d ys"
  by (induction xs) (auto split: list.splits)

lemma split_on_none: "d \<notin> set xs \<Longrightarrow> split_on d xs = [xs]"
  by (induction xs) auto

lemma split_on_free: "p \<in> set (split_on d xs) \<Longrightarrow> d \<notin> set p"
  by (induction xs arbitrary: p) (auto split: if_splits list.splits)

text \<open>The rendering of a component list, and components that survive normalisation.\<close>

definition render :: "string list \<Rightarrow> string" where
  "render cs = concat (map (\<lambda>c. CHR ''/'' # c) cs)"

definition valid_name :: "string \<Rightarrow> bool" where
  "valid_name c \<longleftrightarrow> c \<noteq> [] \<and> c \<noteq> ''.'' \<and> c \<noteq> ''..'' \<and> CHR ''/'' \<notin> set c"

lemma split_render:
  "\<forall>c \<in> set cs. CHR ''/'' \<notin> set c \<Longrightarrow> cs \<noteq> [] \<Longrightarrow> split_on CHR ''/'' (render cs) = [] # cs"
proof (induction cs)
  case (Cons c cs)
  show ?case
  proof (cases cs)
    case Nil
    with Cons.prems show ?thesis by (simp add: render_def split_on_none)
  next
    case (Cons d ds)
    then have "split_on CHR ''/'' (render cs) = [] # cs" using Cons.IH Cons.prems by simp
    then have "split_on CHR ''/'' (c @ render cs) = c # cs"
      using Cons Cons.prems by (simp add: render_def split_on_append split_on_none)
    then show ?thesis by (simp add: render_def)
  qed
qed simp

lemma foldl_push_valid:
  "\<forall>c \<in> set cs. valid_name c \<Longrightarrow> foldl push_component st cs = st @ cs"
  by (induction cs arbitrary: st) (auto simp: push_component_def valid_name_def)

lemma foldl_push_valid_names:
  "\<forall>c \<in> set st. valid_name c \<Longrightarrow> \<forall>c \<in> set cs. CHR ''/'' \<notin> set c \<Longrightarrow>
     \<forall>c \<in> set (foldl push_component st cs). valid_name c"
proof (induction cs arbitrary: st)
  case (Cons c cs)
  have "\<forall>x \<in> set (push_component st c). valid_name x"
    using Cons.prems by (auto simp: push_component_def valid_name_def dest: in_set_butlastD)
  then show ?case using Cons by simp
qed simp

definition components :: "string \<Rightarrow> string list" where
  "components s = foldl push_component [] (split_on CHR ''/'' s)"

lemma components_valid: "c \<in> set (components s) \<Longrightarrow> valid_name c"
proof -
  have "\<forall>c \<in> set (split_on CHR ''/'' s). CHR ''/'' \<notin> set c"
    by (auto dest: split_on_free)
  from foldl_push_valid_names [OF _ this, of "[]"]
  show "c \<in> set (components s) \<Longrightarrow> valid_name c" by (simp add: components_def)
qed

lemma components_render: "\<forall>c \<in> set cs. valid_name c \<Longrightarrow> components (render cs) = cs"
proof (cases "cs = []")
  case True
  then show ?thesis by (simp add: components_def render_def push_component_def)
next
  case False
  assume valid: "\<forall>c \<in> set cs. valid_name c"
  then have "split_on CHR ''/'' (render cs) = [] # cs"
    using False by (intro split_render) (auto simp: valid_name_def)
  with valid show ?thesis
    by (simp add: components_def foldl_push_valid push_component_def)
qed

lemma components_root [simp]: "components ''/'' = []" "components [] = []"
  by (simp_all add: components_def push_component_def)

lemma components_app:
  "components (a @ CHR ''/'' # s) = foldl push_component (components a) (split_on CHR ''/'' s)"
  by (simp add: components_def split_on_append)

lemma components_step:
  "CHR ''/'' \<notin> set c \<Longrightarrow> components (a @ CHR ''/'' # c) = push_component (components a) c"
  by (simp add: components_app split_on_none)

definition path_string :: "string list \<Rightarrow> string" where
  "path_string cs = (if cs = [] then ''/'' else render cs)"

lemma components_path_string: "\<forall>c \<in> set cs. valid_name c \<Longrightarrow> components (path_string cs) = cs"
  by (simp add: path_string_def components_render)

lemma path_string_Cons: "\<exists>s. path_string cs = CHR ''/'' # s"
  by (cases cs) (auto simp: path_string_def render_def)

text \<open>A path is resolved from the components of its base, or from the root when it is absolute.\<close>

definition resolved :: "string \<Rightarrow> string \<Rightarrow> string list" where
  "resolved base path =
     (if take 1 path = ''/'' then components path
      else foldl push_component (components base) (split_on CHR ''/'' path))"

lemma components_slash_end:
  assumes "base \<noteq> []" "last base = CHR ''/''"
  shows "components (base @ path) = foldl push_component (components base) (split_on CHR ''/'' path)"
proof -
  obtain b where b: "base = b @ ''/''" using assms by (metis append_butlast_last_id)
  have "components base = components b"
    unfolding b using components_app [of b "[]"] by (simp add: push_component_def)
  with b show ?thesis using components_app [of b path] by simp
qed

lemma normalize_path_eq: "normalize_path base path = path_string (resolved base path)"
proof -
  have "components ((if base \<noteq> [] \<and> last base = CHR ''/'' then base else base @ ''/'') @ path) =
      foldl push_component (components base) (split_on CHR ''/'' path)"
    using components_slash_end [of base path] components_app [of base path] by auto
  then show ?thesis
    by (auto simp: normalize_path_def resolved_def path_string_def render_def Let_def
        components_def [symmetric])
qed

lemma resolved_valid: "c \<in> set (resolved base path) \<Longrightarrow> valid_name c"
proof (cases "take 1 path = ''/''")
  case False
  have "\<forall>c \<in> set (foldl push_component (components base) (split_on CHR ''/'' path)). valid_name c"
    by (rule foldl_push_valid_names) (auto dest: components_valid split_on_free)
  with False show "c \<in> set (resolved base path) \<Longrightarrow> ?thesis" by (simp add: resolved_def)
qed (simp add: resolved_def components_valid)

lemma resolved_root [simp]: "resolved ''/'' path = components path"
  by (simp add: resolved_def components_def push_component_def)

lemma components_normalize [simp]: "components (normalize_path base path) = resolved base path"
  by (simp add: normalize_path_eq components_path_string resolved_valid)

lemma normalize_path_absolute: "take 1 (normalize_path base path) = ''/''"
  using path_string_Cons [of "resolved base path"] by (auto simp: normalize_path_eq)

text \<open>
  C34. Path normalisation, by its laws. The result is the rendering of names none of which is
  empty, a dot, a double dot or contains a separator. Appending a component to a path changes those
  names by the component's meaning: an empty one or a dot leaves them, a double dot drops the last
  name if there is one, any other is added at the end. A leading separator starts at the root
  whatever the base, and a single component is resolved below the base. These laws determine
  the result on every path. Normalising again, from any base, changes nothing; and normalising
  the base first does not change the result.
\<close>

theorem normalize_path_canonical:
  assumes "CHR ''/'' \<notin> set c" "path \<noteq> []"
  shows "(\<exists>cs. list_all valid_name cs \<and> normalize_path base path = path_string cs \<and>
       normalize_path base (path @ ''/'' @ c) = path_string
         (if c = [] \<or> c = ''.'' then cs else if c = ''..'' then butlast cs else cs @ [c])) \<and>
   normalize_path base (''/'' @ c) = path_string (if c \<in> {[], ''.'', ''..''} then [] else [c]) \<and>
   normalize_path base c = normalize_path ''/'' (base @ ''/'' @ c) \<and>
   normalize_path base' (normalize_path base path) = normalize_path base path \<and>
   normalize_path (normalize_path ''/'' base) path = normalize_path base path"
proof (intro conjI)
  let ?cs = "resolved base path"
  have "resolved base (path @ ''/'' @ c) = push_component ?cs c"
  proof (cases "take 1 path = ''/''")
    case True
    then show ?thesis using assms components_step [OF assms(1), of path] by (simp add: resolved_def take_Suc Suc_le_eq)
  next
    case False
    then show ?thesis using assms split_on_append [of "CHR ''/''" path c] by (simp add: resolved_def take_Suc split_on_none)
  qed
  then show "\<exists>cs. list_all valid_name cs \<and> normalize_path base path = path_string cs \<and>
       normalize_path base (path @ ''/'' @ c) = path_string
         (if c = [] \<or> c = ''.'' then cs else if c = ''..'' then butlast cs else cs @ [c])"
    using resolved_valid [of _ base path]
    by (intro exI [of _ ?cs]) (auto simp: normalize_path_eq list_all_iff push_component_def)
  have "resolved base (''/'' @ c) = push_component [] c"
    using components_step [OF assms(1), of "[]"] by (simp add: resolved_def)
  then show "normalize_path base (''/'' @ c) = path_string (if c \<in> {[], ''.'', ''..''} then [] else [c])"
    by (auto simp: normalize_path_eq push_component_def)
  have "take 1 c \<noteq> ''/''" using assms(1) by (cases c) auto
  then have "resolved base c = resolved ''/'' (base @ ''/'' @ c)"
    using components_app [of base c] by (simp add: resolved_def [of base])
  then show "normalize_path base c = normalize_path ''/'' (base @ ''/'' @ c)" by (simp only: normalize_path_eq)
  have "resolved base' (normalize_path base path) = resolved base path"
    using normalize_path_absolute by (simp add: resolved_def [of base'])
  then show "normalize_path base' (normalize_path base path) = normalize_path base path"
    by (simp add: normalize_path_eq [of base'] normalize_path_eq [of base path])
  have "resolved (normalize_path ''/'' base) path = resolved base path"
    by (simp add: resolved_def [of _ path])
  then show "normalize_path (normalize_path ''/'' base) path = normalize_path base path"
    by (simp add: normalize_path_eq [of _ path])
qed

theorem normalize_path_canonical_witness:
  "normalize_path ''/x'' ''/a/b/..'' = ''/a'' \<and> normalize_path ''/x'' ''/a/b/../c'' = ''/a/c''"
proof
  show e: "normalize_path ''/x'' ''/a/b/..'' = ''/a''"
    by (simp add: normalize_path_def push_component_def)
  from normalize_path_canonical [of "''c''" "''/a/b/..''" "''/x''" "''/''"] obtain cs
    where cs: "list_all valid_name cs" "normalize_path ''/x'' ''/a/b/..'' = path_string cs"
      "normalize_path ''/x'' ''/a/b/../c'' = path_string (cs @ [''c''])" by auto
  have "cs = components ''/a''" using cs(1,2) components_path_string [of cs] by (simp add: e list_all_iff)
  also have "\<dots> = [''a'']" by (simp add: components_def push_component_def)
  finally show "normalize_path ''/x'' ''/a/b/../c'' = ''/a/c''" using cs(3) by (simp add: path_string_def render_def)
qed

section \<open>Resolution by components\<close>

lemma rfind_append: "d \<notin> set ys \<Longrightarrow> rfind d (xs @ d # ys) = Some (length xs)"
proof (induction xs)
  case Nil
  have "d \<notin> set ys \<Longrightarrow> rfind d ys = None" by (induction ys) auto
  with Nil show ?case by simp
qed simp

lemma render_snoc: "render (cs @ [c]) = render cs @ CHR ''/'' # c"
  by (simp add: render_def)

lemma render_eq_Nil [simp]: "render cs = [] \<longleftrightarrow> cs = []"
  by (simp add: render_def)

lemma path_string_eq_root [simp]: "\<forall>c \<in> set cs. valid_name c \<Longrightarrow> path_string cs = ''/'' \<longleftrightarrow> cs = []"
  using components_path_string [of cs] by (auto simp: path_string_def)

lemma components_all_valid: "\<forall>c \<in> set (components path). valid_name c"
  using components_valid by blast

lemma normalize_root: "normalize_path ''/'' path = path_string (components path)"
  by (simp add: normalize_path_eq)

lemma resolve_path_eq: "resolve_path v path = walk v 1 (components path)"
proof (cases "components path = []")
  case True
  then show ?thesis by (simp add: resolve_path_def normalize_root path_string_def)
next
  case False
  have "split_on CHR ''/'' (render (components path)) = [] # components path"
    using False components_all_valid [of path] by (intro split_render) (auto simp: valid_name_def)
  with False show ?thesis
    by (simp add: resolve_path_def normalize_root components_all_valid) (simp add: path_string_def)
qed

text \<open>The last separator of a normalised path other than the root, and the two sides of it.\<close>

lemma last_separator:
  assumes "\<forall>c \<in> set (ds @ [c]). valid_name c"
  shows "rfind CHR ''/'' (path_string (ds @ [c])) = Some (length (render ds))"
    and "drop (length (render ds) + 1) (path_string (ds @ [c])) = c"
    and "take (length (render ds)) (path_string (ds @ [c])) = render ds"
  using assms by (auto simp: path_string_def render_snoc rfind_append valid_name_def)

lemma normalize_path_rfind: "rfind CHR ''/'' (normalize_path base path) \<noteq> None"
proof (cases "resolved base path" rule: rev_exhaust)
  case (snoc ds c)
  then have "\<forall>x \<in> set (ds @ [c]). valid_name x" using resolved_valid [of _ base path] by auto
  from last_separator(1) [OF this] snoc show ?thesis by (simp add: normalize_path_eq)
qed (simp add: normalize_path_eq path_string_def)

lemma resolve_parent_eq:
  "resolve_parent v path =
     (if components path = [] then Inl InvalidPath
      else case walk v 1 (butlast (components path)) of
          Inl e \<Rightarrow> Inl e
        | Inr p \<Rightarrow>
            (case fmlookup (vfs_inodes v) p of
               None \<Rightarrow> Inl NotFound
             | Some n \<Rightarrow>
                 if ino_type n \<noteq> Directory then Inl NotADirectory
                 else Inr (p, last (components path))))"
proof (cases "components path" rule: rev_exhaust)
  case Nil
  then show ?thesis by (simp add: resolve_parent_def normalize_root path_string_def)
next
  case (snoc ds c)
  have valid: "\<forall>x \<in> set (ds @ [c]). valid_name x" using components_all_valid [of path] snoc by simp
  then have c: "c \<noteq> []" and ds: "components (render ds) = ds"
    by (simp_all add: valid_name_def components_render)
  have parent: "components (if length (render ds) = 0 then ''/'' else render ds) = ds"
    using ds by (auto simp: render_def)
  show ?thesis
    unfolding resolve_parent_def normalize_root snoc Let_def last_separator [OF valid] option.sel
      resolve_path_eq parent last_snoc butlast_snoc
    using valid c by (simp add: path_string_eq_root)
qed

section \<open>The inode table as a tree\<close>

type_synonym inode_map = "(u64, inode) fmap"

definition child :: "inode_map \<Rightarrow> u64 \<Rightarrow> string \<Rightarrow> u64 option" where
  "child m i c = (case fmlookup m i of None \<Rightarrow> None | Some n \<Rightarrow> fmlookup (ino_children n) c)"

fun follow :: "inode_map \<Rightarrow> u64 \<Rightarrow> string list \<Rightarrow> u64 option" where
  "follow m i [] = Some i"
| "follow m i (c # cs) = (case child m i c of None \<Rightarrow> None | Some j \<Rightarrow> follow m j cs)"

definition inode_ok :: "u64 \<Rightarrow> inode \<Rightarrow> bool" where
  "inode_ok i n \<longleftrightarrow> ino_id n = i \<and> (ino_type n = Directory \<longrightarrow> ino_data n = []) \<and>
     (ino_type n = RegularFile \<longrightarrow> ino_children n = fmempty) \<and> length (ino_data n) \<le> ISIZE_MAX"

definition tree_inv :: "inode_map \<Rightarrow> bool" where
  "tree_inv m \<longleftrightarrow>
     (\<exists>r. fmlookup m 1 = Some r \<and> ino_type r = Directory \<and> ino_parent r = None) \<and>
     (\<forall>i n. fmlookup m i = Some n \<longrightarrow> inode_ok i n \<and> (\<exists>p. follow m 1 p = Some i)) \<and>
     (\<forall>i c j. child m i c = Some j \<longrightarrow>
        valid_name c \<and> (\<exists>k. fmlookup m j = Some k \<and> ino_parent k = Some i \<and> ino_name k = c))"

definition vfs_inv :: "vfs \<Rightarrow> bool" where
  "vfs_inv v \<longleftrightarrow> tree_inv (vfs_inodes v) \<and> (\<forall>i \<in> fmdom' (vfs_inodes v). i < next_inode v)"

lemma tree_rootE:
  assumes "tree_inv m"
  obtains r where "fmlookup m 1 = Some r" "ino_type r = Directory" "ino_parent r = None"
  using assms by (auto simp: tree_inv_def)

lemma tree_node: "tree_inv m \<Longrightarrow> fmlookup m i = Some n \<Longrightarrow> inode_ok i n"
  by (auto simp: tree_inv_def)

lemma tree_reach: "tree_inv m \<Longrightarrow> fmlookup m i = Some n \<Longrightarrow> \<exists>p. follow m 1 p = Some i"
  by (auto simp: tree_inv_def)

lemma tree_childE:
  assumes "tree_inv m" "child m i c = Some j"
  obtains k where "fmlookup m j = Some k" "ino_parent k = Some i" "ino_name k = c" "valid_name c"
  using assms unfolding tree_inv_def by blast

lemma follow_append:
  "follow m i (p @ q) = (case follow m i p of None \<Rightarrow> None | Some j \<Rightarrow> follow m j q)"
  by (induction p arbitrary: i) (auto split: option.splits)

lemma follow_snoc:
  "follow m i (p @ [c]) = (case follow m i p of None \<Rightarrow> None | Some j \<Rightarrow> child m j c)"
  by (auto simp: follow_append split: option.splits)

lemma follow_cong: "(\<And>j x. child m' j x = child m j x) \<Longrightarrow> follow m' i p = follow m i p"
  by (induction p arbitrary: i) (auto split: option.splits)

lemma follow_in_dom:
  assumes "tree_inv m" "follow m 1 p = Some i"
  obtains n where "fmlookup m i = Some n" "inode_ok i n"
proof (cases p rule: rev_exhaust)
  case Nil
  with assms that tree_rootE [OF assms(1)] show thesis by (metis follow.simps(1) option.inject tree_node)
next
  case (snoc q c)
  with assms(2) obtain j where "child m j c = Some i" by (auto simp: follow_snoc split: option.splits)
  with assms(1) obtain k where "fmlookup m i = Some k" by (elim tree_childE)
  with that tree_node [OF assms(1)] show thesis by blast
qed

text \<open>No inode has two paths.\<close>

lemma follow_inj:
  assumes inv: "tree_inv m"
  shows "follow m 1 p = Some i \<Longrightarrow> follow m 1 q = Some i \<Longrightarrow> p = q"
proof (induction p arbitrary: q i rule: rev_induct)
  case Nil
  then show ?case
  proof (cases q rule: rev_exhaust)
    case (snoc r c)
    with Nil obtain j where "child m j c = Some 1" by (auto simp: follow_snoc split: option.splits)
    with inv show ?thesis by (metis option.distinct(1) option.inject tree_childE tree_rootE)
  qed simp
next
  case (snoc c p)
  then obtain j where j: "follow m 1 p = Some j" "child m j c = Some i"
    by (auto simp: follow_snoc split: option.splits)
  from inv j(2) obtain k where k: "fmlookup m i = Some k" "ino_parent k = Some j" "ino_name k = c"
    by (elim tree_childE)
  show ?case
  proof (cases q rule: rev_exhaust)
    case Nil
    with snoc.prems k tree_rootE [OF inv] show ?thesis by (metis follow.simps(1) option.distinct(1) option.inject)
  next
    case (snoc r d)
    with snoc.prems(2) obtain l where l: "follow m 1 r = Some l" "child m l d = Some i"
      by (auto simp: follow_snoc split: option.splits)
    with inv k have "l = j" "d = c" by (metis option.inject tree_childE)+
    with snoc l j snoc.IH show ?thesis by blast
  qed
qed

lemma file_no_child: "tree_inv m \<Longrightarrow> fmlookup m i = Some n \<Longrightarrow> ino_type n \<noteq> Directory \<Longrightarrow> child m i c = None"
  using tree_node [of m i n] by (cases "ino_type n") (auto simp: child_def inode_ok_def)

section \<open>The abstract file system\<close>

datatype node = FileNode bytes | DirNode

type_synonym fs = "string list \<Rightarrow> node option"

definition node_of :: "inode \<Rightarrow> node" where
  "node_of n = (if ino_type n = Directory then DirNode else FileNode (ino_data n))"

definition tree_fs :: "inode_map \<Rightarrow> fs" where
  "tree_fs m p = (case follow m 1 p of None \<Rightarrow> None | Some i \<Rightarrow> map_option node_of (fmlookup m i))"

abbreviation fs_of :: "vfs \<Rightarrow> fs" where
  "fs_of v \<equiv> tree_fs (vfs_inodes v)"

abbreviation inode_at :: "vfs \<Rightarrow> string list \<Rightarrow> u64 option" where
  "inode_at v p \<equiv> follow (vfs_inodes v) 1 p"

definition spec_resolve :: "fs \<Rightarrow> string list \<Rightarrow> vfs_error + node" where
  "spec_resolve a p =
     (if \<exists>k < length p. \<exists>d. a (take k p) = Some (FileNode d) then Inl NotADirectory
      else ok_or (a p) NotFound)"

definition spec_create :: "fs \<Rightarrow> string list \<Rightarrow> node \<Rightarrow> vfs_error + fs" where
  "spec_create a p x =
     (if p = [] then Inl InvalidPath
      else case spec_resolve a (butlast p) of
          Inl e \<Rightarrow> Inl e
        | Inr (FileNode _) \<Rightarrow> Inl NotADirectory
        | Inr DirNode \<Rightarrow> if a p \<noteq> None then Inl AlreadyExists else Inr (a(p \<mapsto> x)))"

definition spec_delete :: "fs \<Rightarrow> string list \<Rightarrow> vfs_error + fs" where
  "spec_delete a p =
     (if p = [] then Inl InvalidPath
      else case spec_resolve a p of
          Inl e \<Rightarrow> Inl e
        | Inr _ \<Rightarrow> if \<exists>c. a (p @ [c]) \<noteq> None then Inl NotEmpty else Inr (a(p := None)))"

definition new_node :: "file_type \<Rightarrow> node" where
  "new_node ft = (if ft = Directory then DirNode else FileNode [])"

definition through_file :: "inode_map \<Rightarrow> u64 \<Rightarrow> string list \<Rightarrow> bool" where
  "through_file m i p \<longleftrightarrow>
     (\<exists>k < length p. \<exists>j n. follow m i (take k p) = Some j \<and> fmlookup m j = Some n \<and> ino_type n \<noteq> Directory)"

lemma through_file_Nil [simp]: "\<not> through_file m i []"
  by (simp add: through_file_def)

lemma through_file_Cons:
  assumes "fmlookup m i = Some n"
  shows "through_file m i (c # cs) \<longleftrightarrow>
     ino_type n \<noteq> Directory \<or> (\<exists>j. child m i c = Some j \<and> through_file m j cs)"
    (is "?L \<longleftrightarrow> ?R")
proof
  assume ?L
  then obtain k j l where k: "k < length (c # cs)" "follow m i (take k (c # cs)) = Some j"
      "fmlookup m j = Some l" "ino_type l \<noteq> Directory"
    by (auto simp: through_file_def)
  then show ?R using assms
    by (cases k) (auto simp: through_file_def split: option.splits)
next
  assume ?R
  then show ?L
  proof (elim disjE exE conjE)
    assume "ino_type n \<noteq> Directory"
    with assms show ?L unfolding through_file_def by (intro exI [of _ 0]) simp
  next
    fix j assume j: "child m i c = Some j" "through_file m j cs"
    then obtain k l n' where "k < length cs" "follow m j (take k cs) = Some l" "fmlookup m l = Some n'"
        "ino_type n' \<noteq> Directory" by (auto simp: through_file_def)
    with j show ?L unfolding through_file_def by (intro exI [of _ "Suc k"]) simp
  qed
qed

lemma walk_eq:
  assumes "tree_inv (vfs_inodes v)"
  shows "fmlookup (vfs_inodes v) i \<noteq> None \<Longrightarrow> \<forall>c \<in> set cs. valid_name c \<Longrightarrow>
     walk v i cs =
       (if through_file (vfs_inodes v) i cs then Inl NotADirectory
        else ok_or (follow (vfs_inodes v) i cs) NotFound)"
proof (induction cs arbitrary: i)
  case (Cons c cs)
  then obtain n where n: "fmlookup (vfs_inodes v) i = Some n" by auto
  have c: "c \<noteq> []" using Cons.prems by (simp add: valid_name_def)
  have look: "fmlookup (ino_children n) c = child (vfs_inodes v) i c" by (simp add: child_def n)
  show ?case
  proof (cases "child (vfs_inodes v) i c")
    case None
    then show ?thesis using n c by (simp add: through_file_Cons look)
  next
    case (Some j)
    then have "fmlookup (vfs_inodes v) j \<noteq> None" using assms by (metis option.distinct(1) tree_childE)
    with Cons Some n c show ?thesis by (simp add: through_file_Cons look)
  qed
qed simp

lemma tree_fs_file_iff:
  assumes "tree_inv m"
  shows "(\<exists>d. tree_fs m p = Some (FileNode d)) \<longleftrightarrow>
     (\<exists>j n. follow m 1 p = Some j \<and> fmlookup m j = Some n \<and> ino_type n \<noteq> Directory)"
  by (auto simp: tree_fs_def node_of_def split: option.splits if_splits)

lemma spec_resolve_tree:
  assumes "tree_inv m"
  shows "spec_resolve (tree_fs m) p =
    (if through_file m 1 p then Inl NotADirectory else ok_or (tree_fs m p) NotFound)"
  using assms by (simp add: spec_resolve_def through_file_def tree_fs_file_iff)

text \<open>Resolving a path in the table and in the map it stands for.\<close>

lemma walk_spec:
  assumes inv: "tree_inv (vfs_inodes v)" and valid: "\<forall>c \<in> set p. valid_name c"
  shows "walk v 1 p = Inl e \<longleftrightarrow> spec_resolve (fs_of v) p = Inl e"
    and "walk v 1 p = Inr i \<Longrightarrow> \<exists>n. inode_at v p = Some i \<and> fmlookup (vfs_inodes v) i = Some n \<and>
           inode_ok i n \<and> spec_resolve (fs_of v) p = Inr (node_of n)"
proof -
  obtain r where "fmlookup (vfs_inodes v) 1 = Some r" using inv by (rule tree_rootE)
  then have w: "walk v 1 p = (if through_file (vfs_inodes v) 1 p then Inl NotADirectory
      else ok_or (inode_at v p) NotFound)"
    using walk_eq [OF inv _ valid, of 1] by simp
  show "walk v 1 p = Inl e \<longleftrightarrow> spec_resolve (fs_of v) p = Inl e"
  proof (cases "inode_at v p")
    case None
    then show ?thesis by (simp add: w spec_resolve_tree inv tree_fs_def)
  next
    case (Some i)
    from follow_in_dom [OF inv Some] obtain n where "fmlookup (vfs_inodes v) i = Some n" .
    with Some show ?thesis by (simp add: w spec_resolve_tree inv tree_fs_def)
  qed
  assume ok: "walk v 1 p = Inr i"
  then have i: "inode_at v p = Some i" "\<not> through_file (vfs_inodes v) 1 p"
    by (auto simp: w split: if_splits) (cases "inode_at v p"; simp)
  from follow_in_dom [OF inv i(1)] obtain n where n: "fmlookup (vfs_inodes v) i = Some n" "inode_ok i n" .
  with i show "\<exists>n. inode_at v p = Some i \<and> fmlookup (vfs_inodes v) i = Some n \<and> inode_ok i n \<and>
      spec_resolve (fs_of v) p = Inr (node_of n)"
    by (simp add: spec_resolve_tree inv tree_fs_def)
qed

section \<open>The effect of each operation on the tree\<close>

text \<open>The table after a creation: the new inode, then its link in the parent.\<close>

definition grown :: "inode_map \<Rightarrow> u64 \<Rightarrow> string \<Rightarrow> u64 \<Rightarrow> file_type \<Rightarrow> inode_map" where
  "grown m p c new ft =
     (let m1 = fmupd new \<lparr>ino_id = new, ino_name = c, ino_type = ft, ino_data = [],
                          ino_children = fmempty, ino_parent = Some p\<rparr> m;
          n = the (fmlookup m1 p)
      in fmupd p (n\<lparr>ino_children := fmupd c new (ino_children n)\<rparr>) m1)"

text \<open>The table after a deletion: the link is dropped, then the inode.\<close>

definition pruned :: "inode_map \<Rightarrow> u64 \<Rightarrow> string \<Rightarrow> u64 \<Rightarrow> inode_map" where
  "pruned m p c t =
     (let n = the (fmlookup m p) in fmdrop t (fmupd p (n\<lparr>ino_children := fmdrop c (ino_children n)\<rparr>) m))"

lemma child_grown:
  assumes "fmlookup m p = Some n" "fmlookup m new = None"
  shows "child (grown m p c new ft) j x =
     (if j = p \<and> x = c then Some new else if j = new then None else child m j x)"
  using assms by (auto simp: child_def grown_def Let_def)

lemma follow_grown:
  assumes inv: "tree_inv m" and p: "follow m 1 q = Some p" "fmlookup m p = Some n"
    and c: "child m p c = None" and new: "fmlookup m new = None"
  shows "follow (grown m p c new ft) 1 r = (if r = q @ [c] then Some new else follow m 1 r)"
proof (induction r rule: rev_induct)
  case (snoc x r)
  show ?case
  proof (cases "r = q @ [c]")
    case True
    then have "follow (grown m p c new ft) 1 r = Some new" using snoc by simp
    moreover have "follow m 1 r = None" "p \<noteq> new" "r @ [x] \<noteq> q @ [c]"
      using True p c new by (auto simp: follow_snoc)
    ultimately show ?thesis by (simp add: follow_snoc [of _ _ r] child_grown [OF p(2) new])
  next
    case False
    show ?thesis
    proof (cases "follow m 1 r")
      case None
      then show ?thesis using snoc False p by (auto simp: follow_snoc)
    next
      case (Some j)
      with follow_in_dom [OF inv] new have "j \<noteq> new" by (metis option.distinct(1))
      moreover have "j = p \<longleftrightarrow> r = q" using follow_inj [OF inv] Some p(1) by auto
      ultimately show ?thesis using snoc False Some
        by (auto simp: follow_snoc child_grown [OF p(2) new])
    qed
  qed
qed simp

lemma grown_lookup:
  assumes "fmlookup m p = Some n" "fmlookup m new = None"
  shows "fmlookup (grown m p c new ft) i =
    (if i = p then Some (n\<lparr>ino_children := fmupd c new (ino_children n)\<rparr>)
     else if i = new then Some \<lparr>ino_id = new, ino_name = c, ino_type = ft, ino_data = [],
                          ino_children = fmempty, ino_parent = Some p\<rparr>
     else fmlookup m i)"
  using assms by (auto simp: grown_def Let_def)

lemma tree_inv_grown:
  assumes inv: "tree_inv m" and p: "follow m 1 q = Some p" "fmlookup m p = Some n" "ino_type n = Directory"
    and c: "child m p c = None" "valid_name c" and new: "fmlookup m new = None"
  shows "tree_inv (grown m p c new ft)"
proof -
  note look = grown_lookup [OF p(2) new] and fol = follow_grown [OF inv p(1,2) c(1) new]
  obtain r where r: "fmlookup m 1 = Some r" "ino_type r = Directory" "ino_parent r = None"
    using inv by (rule tree_rootE)
  have "\<exists>r. fmlookup (grown m p c new ft) 1 = Some r \<and> ino_type r = Directory \<and> ino_parent r = None"
    using r new p(2) by (auto simp: look)
  moreover have "inode_ok i k \<and> (\<exists>p'. follow (grown m p c new ft) 1 p' = Some i)"
    if k: "fmlookup (grown m p c new ft) i = Some k" for i k
  proof (cases "i = new")
    case True
    with k new p(2) show ?thesis by (auto simp: look fol inode_ok_def split: if_splits)
  next
    case False
    then obtain k0 where k0: "fmlookup m i = Some k0" using k p(2) by (auto simp: look split: if_splits)
    then obtain p' where p': "follow m 1 p' = Some i" using tree_reach [OF inv] by blast
    have "p' \<noteq> q @ [c]" using p' p(1) c(1) by (auto simp: follow_snoc)
    then have "follow (grown m p c new ft) 1 p' = Some i" using p' by (simp add: fol)
    moreover have "inode_ok i k"
      using k False tree_node [OF inv] p(2,3) by (auto simp: look inode_ok_def split: if_splits)
    ultimately show ?thesis by blast
  qed
  moreover have "valid_name x \<and> (\<exists>k. fmlookup (grown m p c new ft) j = Some k \<and> ino_parent k = Some i \<and> ino_name k = x)"
    if x: "child (grown m p c new ft) i x = Some j" for i x j
  proof (cases "i = p \<and> x = c")
    case True
    with x have "j = new" by (simp add: child_grown [OF p(2) new])
    moreover have "new \<noteq> p" using new p(2) by auto
    ultimately show ?thesis using True c(2) by (simp add: look)
  next
    case False
    with x have "child m i x = Some j" by (auto simp: child_grown [OF p(2) new] split: if_splits)
    with inv obtain k where k: "fmlookup m j = Some k" "ino_parent k = Some i" "ino_name k = x" "valid_name x"
      by (elim tree_childE)
    with new p(2) show ?thesis by (auto simp: look)
  qed
  ultimately show ?thesis unfolding tree_inv_def by blast
qed

lemma tree_fs_grown:
  assumes inv: "tree_inv m" and p: "follow m 1 q = Some p" "fmlookup m p = Some n"
    and c: "child m p c = None" and new: "fmlookup m new = None"
  shows "tree_fs (grown m p c new ft) = (tree_fs m)(q @ [c] \<mapsto> new_node ft)"
proof
  fix r
  have np: "new \<noteq> p" using new p(2) by auto
  show "tree_fs (grown m p c new ft) r = ((tree_fs m)(q @ [c] \<mapsto> new_node ft)) r"
  proof (cases "r = q @ [c]")
    case True
    with np show ?thesis
      by (simp add: tree_fs_def follow_grown [OF inv p c new] grown_lookup [OF p(2) new] node_of_def new_node_def)
  next
    case False
    then show ?thesis
    proof (cases "follow m 1 r")
      case (Some i)
      with follow_in_dom [OF inv] new have "i \<noteq> new" by (metis option.distinct(1))
      with Some False p(2) show ?thesis
        by (simp add: tree_fs_def follow_grown [OF inv p c new] grown_lookup [OF p(2) new] node_of_def)
    qed (simp add: tree_fs_def follow_grown [OF inv p c new])
  qed
qed

text \<open>Deletion of a leaf.\<close>

lemma child_pruned:
  assumes "fmlookup m p = Some n"
  shows "child (pruned m p c t) j x =
     (if j = t then None else if j = p \<and> x = c then None else child m j x)"
  using assms by (auto simp: child_def pruned_def Let_def)

lemma follow_pruned:
  assumes inv: "tree_inv m" and p: "follow m 1 q = Some p" "fmlookup m p = Some n"
    and t: "child m p c = Some t" "\<And>x. child m t x = None"
  shows "follow (pruned m p c t) 1 r = (if r = q @ [c] then None else follow m 1 r)"
proof (induction r rule: rev_induct)
  case (snoc x r)
  have qt: "follow m 1 (q @ [c]) = Some t" using p(1) t(1) by (simp add: follow_snoc)
  show ?case
  proof (cases "r = q @ [c]")
    case True
    then have "follow (pruned m p c t) 1 r = None" using snoc by simp
    moreover have "follow m 1 r = Some t" "r @ [x] \<noteq> q @ [c]" using True qt by auto
    ultimately show ?thesis using t(2) by (simp add: follow_snoc [of _ _ r])
  next
    case False
    show ?thesis
    proof (cases "follow m 1 r")
      case None
      then show ?thesis using snoc False p by (auto simp: follow_snoc)
    next
      case (Some j)
      have "j \<noteq> t" using follow_inj [OF inv Some] qt False by auto
      moreover have "j = p \<longleftrightarrow> r = q" using follow_inj [OF inv] Some p(1) by auto
      ultimately show ?thesis using snoc False Some
        by (auto simp: follow_snoc child_pruned [OF p(2)])
    qed
  qed
qed simp

lemma pruned_lookup:
  assumes "fmlookup m p = Some n"
  shows "fmlookup (pruned m p c t) i =
    (if i = t then None else if i = p then Some (n\<lparr>ino_children := fmdrop c (ino_children n)\<rparr>)
     else fmlookup m i)"
  using assms by (simp add: pruned_def)

lemma tree_inv_pruned:
  assumes inv: "tree_inv m" and p: "follow m 1 q = Some p" "fmlookup m p = Some n"
    and t: "child m p c = Some t" "\<And>x. child m t x = None"
  shows "tree_inv (pruned m p c t)"
proof -
  note look = pruned_lookup [OF p(2)] and fol = follow_pruned [OF inv p t]
  obtain r where r: "fmlookup m 1 = Some r" "ino_type r = Directory" "ino_parent r = None"
    using inv by (rule tree_rootE)
  have qt: "follow m 1 (q @ [c]) = Some t" using p(1) t(1) by (simp add: follow_snoc)
  obtain kt where kt: "fmlookup m t = Some kt" "ino_parent kt = Some p" "ino_name kt = c"
    using inv t(1) by (elim tree_childE)
  have "t \<noteq> 1" using r kt by auto
  then have "\<exists>r. fmlookup (pruned m p c t) 1 = Some r \<and> ino_type r = Directory \<and> ino_parent r = None"
    using r p(2) by (auto simp: look)
  moreover have "inode_ok i k \<and> (\<exists>p'. follow (pruned m p c t) 1 p' = Some i)"
    if k: "fmlookup (pruned m p c t) i = Some k" for i k
  proof -
    obtain k0 where k0: "fmlookup m i = Some k0" "i \<noteq> t" using k p(2) by (auto simp: look split: if_splits)
    then obtain p' where p': "follow m 1 p' = Some i" using tree_reach [OF inv] by blast
    have "p' \<noteq> q @ [c]" using p' qt k0(2) by auto
    then have "follow (pruned m p c t) 1 p' = Some i" using p' by (simp add: fol)
    moreover have "inode_ok i k"
      using k tree_node [OF inv] p(2) by (auto simp: look inode_ok_def split: if_splits)
    ultimately show ?thesis by blast
  qed
  moreover have "valid_name x \<and> (\<exists>k. fmlookup (pruned m p c t) j = Some k \<and> ino_parent k = Some i \<and> ino_name k = x)"
    if x: "child (pruned m p c t) i x = Some j" for i x j
  proof -
    from x have x': "child m i x = Some j" "i \<noteq> t" "\<not> (i = p \<and> x = c)"
      by (auto simp: child_pruned [OF p(2)] split: if_splits)
    with inv obtain k where k: "fmlookup m j = Some k" "ino_parent k = Some i" "ino_name k = x" "valid_name x"
      by (elim tree_childE)
    have "j \<noteq> t" using k kt x'(3) by auto
    with k p(2) show ?thesis by (auto simp: look)
  qed
  ultimately show ?thesis unfolding tree_inv_def by blast
qed

lemma tree_fs_pruned:
  assumes inv: "tree_inv m" and p: "follow m 1 q = Some p" "fmlookup m p = Some n"
    and t: "child m p c = Some t" "\<And>x. child m t x = None"
  shows "tree_fs (pruned m p c t) = (tree_fs m)(q @ [c] := None)"
proof
  fix r
  have qt: "follow m 1 (q @ [c]) = Some t" using p(1) t(1) by (simp add: follow_snoc)
  show "tree_fs (pruned m p c t) r = ((tree_fs m)(q @ [c] := None)) r"
  proof (cases "r = q @ [c] \<or> follow m 1 r = None")
    case True
    then show ?thesis by (auto simp: tree_fs_def follow_pruned [OF inv p t])
  next
    case False
    then obtain i where i: "follow m 1 r = Some i" by auto
    have "i \<noteq> t" using follow_inj [OF inv i] qt False by auto
    with i False p(2) show ?thesis
      by (simp add: tree_fs_def follow_pruned [OF inv p t] pruned_lookup [OF p(2)] node_of_def)
  qed
qed

text \<open>A file's bytes replaced.\<close>

lemma child_data:
  "fmlookup m i = Some n \<Longrightarrow> child (fmupd i (n\<lparr>ino_data := d\<rparr>) m) j x = child m j x"
  by (auto simp: child_def)

lemma tree_inv_data:
  assumes inv: "tree_inv m" and i: "fmlookup m i = Some n" "ino_type n \<noteq> Directory"
    and d: "length d \<le> ISIZE_MAX"
  shows "tree_inv (fmupd i (n\<lparr>ino_data := d\<rparr>) m)"
proof -
  let ?m = "fmupd i (n\<lparr>ino_data := d\<rparr>) m"
  have ch: "child ?m j x = child m j x" for j x by (rule child_data [OF i(1)])
  have fo: "follow ?m j p = follow m j p" for j p by (rule follow_cong) (rule ch)
  obtain r where r: "fmlookup m 1 = Some r" "ino_type r = Directory" "ino_parent r = None"
    using inv by (rule tree_rootE)
  have "\<exists>r. fmlookup ?m 1 = Some r \<and> ino_type r = Directory \<and> ino_parent r = None" using r i by auto
  moreover have "inode_ok j k \<and> (\<exists>p. follow ?m 1 p = Some j)" if "fmlookup ?m j = Some k" for j k
    using that tree_node [OF inv] tree_reach [OF inv] i d
    by (cases "j = i") (auto simp: fo inode_ok_def)
  moreover have "valid_name x \<and> (\<exists>k. fmlookup ?m j = Some k \<and> ino_parent k = Some a \<and> ino_name k = x)"
    if "child ?m a x = Some j" for a x j
  proof -
    from that have "child m a x = Some j" by (simp only: ch)
    with inv obtain k where "fmlookup m j = Some k" "ino_parent k = Some a" "ino_name k = x" "valid_name x"
      by (elim tree_childE)
    with i show ?thesis by (cases "j = i") auto
  qed
  ultimately show ?thesis unfolding tree_inv_def by blast
qed

lemma tree_fs_data:
  assumes inv: "tree_inv m" and i: "fmlookup m i = Some n" "ino_type n \<noteq> Directory" "follow m 1 p = Some i"
  shows "tree_fs (fmupd i (n\<lparr>ino_data := d\<rparr>) m) = (tree_fs m)(p \<mapsto> FileNode d)"
proof
  fix r
  have fo: "follow (fmupd i (n\<lparr>ino_data := d\<rparr>) m) j q = follow m j q" for j q
    by (rule follow_cong) (rule child_data [OF i(1)])
  show "tree_fs (fmupd i (n\<lparr>ino_data := d\<rparr>) m) r = ((tree_fs m)(p \<mapsto> FileNode d)) r"
  proof (cases "follow m 1 r")
    case (Some j)
    have "j = i \<longleftrightarrow> r = p" using follow_inj [OF inv] Some i(3) by auto
    with Some i(2) show ?thesis by (auto simp: tree_fs_def fo node_of_def)
  qed (use i(3) in \<open>auto simp: tree_fs_def fo\<close>)
qed

section \<open>Refinement\<close>

lemma butlast_valid: "\<forall>c \<in> set cs. valid_name c \<Longrightarrow> \<forall>c \<in> set (butlast cs). valid_name c"
  by (auto dest: in_set_butlastD)

lemma next_fresh: "vfs_inv v \<Longrightarrow> fmlookup (vfs_inodes v) (next_inode v) = None"
  unfolding vfs_inv_def by (metis fmdom'_notD less_irrefl)

lemma tree_fs_snoc:
  assumes "tree_inv m" "follow m 1 q = Some p"
  shows "tree_fs m (q @ [c]) = None \<longleftrightarrow> child m p c = None"
proof (cases "child m p c")
  case (Some j)
  with assms(1) obtain k where "fmlookup m j = Some k" by (elim tree_childE)
  with assms(2) Some show ?thesis by (simp add: tree_fs_def follow_snoc)
qed (use assms(2) in \<open>simp add: tree_fs_def follow_snoc\<close>)

definition created :: "vfs \<Rightarrow> string list \<Rightarrow> file_type \<Rightarrow> vfs" where
  "created v cs ft =
     v\<lparr>next_inode := saturating_add (next_inode v) 1,
       vfs_inodes := grown (vfs_inodes v) (the (inode_at v (butlast cs))) (last cs) (next_inode v) ft\<rparr>"

lemma create_entry_eq:
  assumes inv: "vfs_inv v"
  shows "create_entry v path ft =
    (case spec_create (fs_of v) (components path) (new_node ft) of
       Inl e \<Rightarrow> (Inl e, v)
     | Inr _ \<Rightarrow> (Inr (next_inode v), created v (components path) ft))"
proof (cases "components path" rule: rev_exhaust)
  case Nil
  then show ?thesis by (simp add: create_entry_def resolve_parent_eq spec_create_def)
next
  case (snoc q c)
  from inv have tree: "tree_inv (vfs_inodes v)" by (simp add: vfs_inv_def)
  have valid: "\<forall>x \<in> set q. valid_name x" using components_all_valid [of path] snoc by simp
  note ws = walk_spec [OF tree valid]
  show ?thesis
  proof (cases "walk v 1 q")
    case (Inl e)
    with ws(1) [of e] have "spec_resolve (fs_of v) q = Inl e" by simp
    with Inl snoc show ?thesis by (simp add: create_entry_def resolve_parent_eq spec_create_def)
  next
    case (Inr p)
    from ws(2) [OF this] obtain n where n: "inode_at v q = Some p" "fmlookup (vfs_inodes v) p = Some n"
        "spec_resolve (fs_of v) q = Inr (node_of n)" by blast
    have look: "fmlookup (ino_children n) c = child (vfs_inodes v) p c" by (simp add: child_def n)
    have fresh: "fmlookup (vfs_inodes v) (next_inode v) = None" by (rule next_fresh [OF inv])
    then have np: "next_inode v \<noteq> p" using n(2) by auto
    have ex: "fs_of v (q @ [c]) = None \<longleftrightarrow> child (vfs_inodes v) p c = None"
      by (rule tree_fs_snoc [OF tree n(1)])
    show ?thesis
    proof (cases "ino_type n = Directory")
      case False
      with Inr snoc n show ?thesis
        by (simp add: create_entry_def resolve_parent_eq spec_create_def node_of_def)
    next
      case True
      with Inr snoc n np show ?thesis
        by (simp add: create_entry_def resolve_parent_eq spec_create_def node_of_def look ex
            created_def link_child_def grown_def Let_def)
    qed
  qed
qed

lemma create_entry_ok:
  assumes inv: "vfs_inv v" and ok: "spec_create (fs_of v) cs x = Inr a"
    and valid: "\<forall>c \<in> set cs. valid_name c"
  shows "tree_inv (vfs_inodes (created v cs ft))"
    and "fs_of (created v cs ft) = (fs_of v)(cs \<mapsto> new_node ft)"
    and "inode_at (created v cs ft) cs = Some (next_inode v)"
    and "fmdom' (vfs_inodes (created v cs ft)) = insert (next_inode v) (fmdom' (vfs_inodes v))"
proof -
  from ok have "cs \<noteq> []" by (auto simp: spec_create_def split: if_splits)
  then obtain q c where cs: "cs = q @ [c]" by (metis append_butlast_last_id)
  from inv have tree: "tree_inv (vfs_inodes v)" by (simp add: vfs_inv_def)
  have vq: "\<forall>x \<in> set q. valid_name x" and vc: "valid_name c" using valid cs by auto
  from ok cs have r: "spec_resolve (fs_of v) q = Inr DirNode" "fs_of v (q @ [c]) = None"
    by (auto simp: spec_create_def split: sum.splits node.splits if_splits)
  have "walk v 1 q \<noteq> Inl e" for e using walk_spec(1) [OF tree vq] r(1) by simp
  then obtain p where "walk v 1 q = Inr p" by (cases "walk v 1 q") auto
  from walk_spec(2) [OF tree vq this] r(1) obtain n
    where p: "inode_at v q = Some p" and n: "fmlookup (vfs_inodes v) p = Some n" "node_of n = DirNode" by auto
  then have dir: "ino_type n = Directory" by (auto simp: node_of_def split: if_splits)
  have ch: "child (vfs_inodes v) p c = None" using tree_fs_snoc [OF tree p] r(2) by simp
  note fresh = next_fresh [OF inv]
  have m: "vfs_inodes (created v cs ft) = grown (vfs_inodes v) p c (next_inode v) ft"
    by (simp add: created_def cs p)
  show "tree_inv (vfs_inodes (created v cs ft))"
    unfolding m by (rule tree_inv_grown [OF tree p n(1) dir ch vc fresh])
  show "fs_of (created v cs ft) = (fs_of v)(cs \<mapsto> new_node ft)"
    unfolding m unfolding cs by (rule tree_fs_grown [OF tree p n(1) ch fresh])
  show "inode_at (created v cs ft) cs = Some (next_inode v)"
    unfolding m by (simp add: cs follow_grown [OF tree p n(1) ch fresh])
  show "fmdom' (vfs_inodes (created v cs ft)) = insert (next_inode v) (fmdom' (vfs_inodes v))"
    unfolding m using n(1) by (auto simp: grown_def Let_def fmdom'_fmupd intro: fmdom'I)
qed

definition deleted :: "vfs \<Rightarrow> string list \<Rightarrow> vfs" where
  "deleted v cs =
     v\<lparr>vfs_inodes := pruned (vfs_inodes v) (the (inode_at v (butlast cs))) (last cs) (the (inode_at v cs))\<rparr>"

lemma fs_children:
  assumes tree: "tree_inv m" and p: "follow m 1 q = Some p" "fmlookup m p = Some n"
  shows "(\<exists>c. tree_fs m (q @ [c]) \<noteq> None) \<longleftrightarrow> ino_type n = Directory \<and> ino_children n \<noteq> fmempty"
proof -
  have "(\<exists>c. tree_fs m (q @ [c]) \<noteq> None) \<longleftrightarrow> (\<exists>c. fmlookup (ino_children n) c \<noteq> None)"
    using tree_fs_snoc [OF tree p(1)] by (simp add: child_def p(2))
  also have "\<dots> \<longleftrightarrow> ino_children n \<noteq> fmempty" by (metis fmap_ext fmempty_lookup)
  also have "\<dots> \<longleftrightarrow> ino_type n = Directory \<and> ino_children n \<noteq> fmempty"
    using tree_node [OF tree p(2)] by (cases "ino_type n") (auto simp: inode_ok_def)
  finally show ?thesis .
qed

text \<open>The inode a nonempty path names, its parent and the link between them.\<close>

lemma follow_snocE:
  assumes tree: "tree_inv m" and t: "follow m 1 (q @ [c]) = Some t"
  obtains p n k where "follow m 1 q = Some p" "fmlookup m p = Some n" "child m p c = Some t"
    "fmlookup m t = Some k" "ino_parent k = Some p" "ino_name k = c"
proof -
  from t obtain p where p: "follow m 1 q = Some p" "child m p c = Some t"
    by (auto simp: follow_snoc split: option.splits)
  from follow_in_dom [OF tree p(1)] obtain n where "fmlookup m p = Some n" .
  moreover from tree p(2) obtain k where "fmlookup m t = Some k" "ino_parent k = Some p" "ino_name k = c"
    by (elim tree_childE)
  ultimately show thesis using that p by blast
qed

lemma vfs_delete_eq:
  assumes inv: "vfs_inv v"
  shows "vfs_delete v path =
    (case spec_delete (fs_of v) (components path) of
       Inl e \<Rightarrow> (Inl e, v)
     | Inr _ \<Rightarrow> (Inr (), deleted v (components path)))"
proof (cases "components path" rule: rev_exhaust)
  case Nil
  then show ?thesis by (simp add: vfs_delete_def normalize_root path_string_def spec_delete_def)
next
  case (snoc q c)
  from inv have tree: "tree_inv (vfs_inodes v)" by (simp add: vfs_inv_def)
  have valid: "\<forall>x \<in> set (q @ [c]). valid_name x" using components_all_valid [of path] snoc by simp
  note ws = walk_spec [OF tree valid]
  have nz: "path_string (q @ [c]) \<noteq> ''/''" by (simp only: path_string_eq_root [OF valid]) simp
  have norm: "normalize_path ''/'' path = path_string (q @ [c])" by (simp add: normalize_root snoc)
  have res: "resolve_path v (path_string (q @ [c])) = walk v 1 (q @ [c])"
    by (simp only: resolve_path_eq components_path_string [OF valid])
  have spec: "spec_delete (fs_of v) (q @ [c]) =
      (case spec_resolve (fs_of v) (q @ [c]) of Inl e \<Rightarrow> Inl e
       | Inr _ \<Rightarrow> if \<exists>d. fs_of v ((q @ [c]) @ [d]) \<noteq> None then Inl NotEmpty
                   else Inr ((fs_of v)(q @ [c] := None)))"
    by (simp add: spec_delete_def)
  show ?thesis
  proof (cases "walk v 1 (q @ [c])")
    case (Inl e)
    with ws(1) [of e] have "spec_resolve (fs_of v) (q @ [c]) = Inl e" by simp
    with Inl show ?thesis unfolding snoc spec by (simp add: vfs_delete_def norm nz res)
  next
    case (Inr t)
    from ws(2) [OF this] obtain k where k: "inode_at v (q @ [c]) = Some t"
        "fmlookup (vfs_inodes v) t = Some k" "spec_resolve (fs_of v) (q @ [c]) = Inr (node_of k)" by blast
    obtain p n where p: "inode_at v q = Some p" "fmlookup (vfs_inodes v) p = Some n"
        "ino_parent k = Some p"
      by (rule follow_snocE [OF tree k(1)]) (use k(2) in auto)
    have ne: "(\<exists>d. fs_of v ((q @ [c]) @ [d]) \<noteq> None) \<longleftrightarrow> ino_type k = Directory \<and> ino_children k \<noteq> fmempty"
      by (rule fs_children [OF tree k(1,2)])
    have sep: "drop (the (rfind CHR ''/'' (path_string (q @ [c]))) + 1) (path_string (q @ [c])) = c"
      by (simp only: last_separator [OF valid] option.sel)
    show ?thesis unfolding snoc spec ne
      using Inr k p by (simp add: vfs_delete_def norm nz res sep [simplified] Let_def
          deleted_def pruned_def unlink_child_def)
  qed
qed

lemma deleted_ok:
  assumes inv: "vfs_inv v" and ok: "spec_delete (fs_of v) cs = Inr a"
    and valid: "\<forall>c \<in> set cs. valid_name c"
  shows "tree_inv (vfs_inodes (deleted v cs))"
    and "fs_of (deleted v cs) = (fs_of v)(cs := None)"
    and "fmdom' (vfs_inodes (deleted v cs)) \<subseteq> fmdom' (vfs_inodes v)"
proof -
  from ok have "cs \<noteq> []" by (auto simp: spec_delete_def split: if_splits)
  then obtain q c where cs: "cs = q @ [c]" by (metis append_butlast_last_id)
  from inv have tree: "tree_inv (vfs_inodes v)" by (simp add: vfs_inv_def)
  from ok obtain x where r: "spec_resolve (fs_of v) cs = Inr x" "\<not> (\<exists>d. fs_of v (cs @ [d]) \<noteq> None)"
    by (auto simp: spec_delete_def split: sum.splits if_splits)
  have "walk v 1 cs \<noteq> Inl e" for e using walk_spec(1) [OF tree valid] r(1) by simp
  then obtain t where "walk v 1 cs = Inr t" by (cases "walk v 1 cs") auto
  from walk_spec(2) [OF tree valid this] have t: "inode_at v cs = Some t" by blast
  from follow_snocE [OF tree t [unfolded cs]] obtain p n where p: "inode_at v q = Some p"
      "fmlookup (vfs_inodes v) p = Some n" "child (vfs_inodes v) p c = Some t" by blast
  have leaf: "child (vfs_inodes v) t d = None" for d using tree_fs_snoc [OF tree t] r(2) by blast
  have m: "vfs_inodes (deleted v cs) = pruned (vfs_inodes v) p c t"
    using t by (simp add: deleted_def cs p)
  show "tree_inv (vfs_inodes (deleted v cs))"
    unfolding m by (rule tree_inv_pruned [OF tree p leaf])
  show "fs_of (deleted v cs) = (fs_of v)(cs := None)"
    unfolding m unfolding cs by (rule tree_fs_pruned [OF tree p leaf])
  show "fmdom' (vfs_inodes (deleted v cs)) \<subseteq> fmdom' (vfs_inodes v)"
    unfolding m using p(2) by (auto simp: pruned_def Let_def intro: fmdom'I)
qed

lemma vfs_new_inv: "vfs_inv vfs_new"
proof -
  have "child (vfs_inodes vfs_new) i c = None" for i c by (simp add: child_def vfs_new_def)
  moreover have "follow (vfs_inodes vfs_new) 1 [] = Some 1" by simp
  ultimately show ?thesis
    by (auto simp: vfs_inv_def tree_inv_def vfs_new_def inode_ok_def ISIZE_MAX_def
        simp del: follow.simps split: if_splits)
qed

lemma fs_of_new: "fs_of vfs_new = [[] \<mapsto> DirNode]"
proof
  fix p
  have "child (vfs_inodes vfs_new) i c = None" for i c by (simp add: child_def vfs_new_def)
  then show "fs_of vfs_new p = [[] \<mapsto> DirNode] p"
    by (cases p) (simp_all add: tree_fs_def vfs_new_def node_of_def)
qed

text \<open>A listing: the names below a directory, in order, each once.\<close>

definition lists_dir :: "fs \<Rightarrow> string list \<Rightarrow> string list \<Rightarrow> bool" where
  "lists_dir a p ns \<longleftrightarrow> sorted ns \<and> distinct ns \<and> set ns = {c. a (p @ [c]) \<noteq> None}"

lemma dir_entries_ok:
  "list_all (\<lambda>(_, j). fmlookup (vfs_inodes v) j \<noteq> None) xs \<Longrightarrow>
     \<exists>es. dir_entries v xs = Inr es \<and> map de_name es = map fst xs"
  by (induction v xs rule: dir_entries.induct) auto

lemma list_directory_spec:
  assumes tree: "tree_inv (vfs_inodes v)"
  shows "case list_directory v path of
      Inl e \<Rightarrow> spec_resolve (fs_of v) (components path) = Inl e \<or>
        (e = NotADirectory \<and> (\<exists>d. spec_resolve (fs_of v) (components path) = Inr (FileNode d)))
    | Inr es \<Rightarrow> spec_resolve (fs_of v) (components path) = Inr DirNode \<and>
        lists_dir (fs_of v) (components path) (map de_name es)"
proof (cases "walk v 1 (components path)")
  case (Inl e)
  then show ?thesis using walk_spec(1) [OF tree components_all_valid [of path], of e]
    by (simp add: list_directory_def resolve_path_eq)
next
  case (Inr i)
  from walk_spec(2) [OF tree components_all_valid this] obtain n
    where n: "inode_at v (components path) = Some i" "fmlookup (vfs_inodes v) i = Some n"
        "spec_resolve (fs_of v) (components path) = Inr (node_of n)" by blast
  have ch: "child (vfs_inodes v) i c = fmlookup (ino_children n) c" for c by (simp add: child_def n)
  have "fmlookup (vfs_inodes v) j \<noteq> None" if "fmlookup (ino_children n) c = Some j" for c j
    using tree that ch [of c] by (metis option.distinct(1) tree_childE)
  then have "list_all (\<lambda>(_, j). fmlookup (vfs_inodes v) j \<noteq> None) (fm_iter (ino_children n))"
    by (auto simp: list_all_iff set_fm_iter)
  from dir_entries_ok [OF this] obtain es where es: "dir_entries v (fm_iter (ino_children n)) = Inr es"
      "map de_name es = map fst (fm_iter (ino_children n))" by blast
  have "lists_dir (fs_of v) (components path) (map de_name es)"
    unfolding lists_dir_def es(2) using sorted_fm_iter [of "ino_children n"]
    by (auto simp: set_fm_iter image_iff tree_fs_snoc [OF tree n(1)] ch)
  with Inr n es(1) show ?thesis
    by (simp add: list_directory_def resolve_path_eq node_of_def)
qed

text \<open>
  C3. The inode table implements the abstract file system, a partial map from paths to nodes.
  Creating an entry fails with exactly the abstract error and changes nothing, or adds the one
  node at the path and returns its inode. Deleting fails with the abstract error and changes
  nothing, or removes the one node. Looking a path up gives the abstract node's type and size, and
  listing a directory gives the names below it, in order and each once.
\<close>

theorem vfs_refines_spec:
  assumes "vfs_inv v"
  shows "(case create_entry v path ft of (res, v') \<Rightarrow>
            (case res of
               Inl e \<Rightarrow> v' = v \<and> spec_create (fs_of v) (components path) (new_node ft) = Inl e
             | Inr i \<Rightarrow> spec_create (fs_of v) (components path) (new_node ft) = Inr (fs_of v') \<and>
                 inode_at v' (components path) = Some i)) \<and>
         (case vfs_delete v path of (res, v') \<Rightarrow>
            (case res of
               Inl e \<Rightarrow> v' = v \<and> spec_delete (fs_of v) (components path) = Inl e
             | Inr _ \<Rightarrow> spec_delete (fs_of v) (components path) = Inr (fs_of v'))) \<and>
         (case vfs_stat v path of
            Inl e \<Rightarrow> spec_resolve (fs_of v) (components path) = Inl e
          | Inr st \<Rightarrow> inode_at v (components path) = Some (st_inode st) \<and>
              (case spec_resolve (fs_of v) (components path) of
                 Inl e \<Rightarrow> False
               | Inr DirNode \<Rightarrow> st_file_type st = Directory \<and> st_size st = 0
               | Inr (FileNode d) \<Rightarrow> st_file_type st = RegularFile \<and> st_size st = of_nat (length d))) \<and>
         (case list_directory v path of
            Inl e \<Rightarrow> spec_resolve (fs_of v) (components path) = Inl e \<or>
              (e = NotADirectory \<and> (\<exists>d. spec_resolve (fs_of v) (components path) = Inr (FileNode d)))
          | Inr es \<Rightarrow> spec_resolve (fs_of v) (components path) = Inr DirNode \<and>
              lists_dir (fs_of v) (components path) (map de_name es))"
    (is "?create \<and> ?delete \<and> ?stat \<and> ?list")
proof (intro conjI)
  from assms have tree: "tree_inv (vfs_inodes v)" by (simp add: vfs_inv_def)
  note valid = components_all_valid [of path]
  show ?list by (rule list_directory_spec [OF tree])
  show ?create
  proof (cases "spec_create (fs_of v) (components path) (new_node ft)")
    case (Inr a)
    then have "a = (fs_of v)(components path \<mapsto> new_node ft)"
      by (auto simp: spec_create_def split: if_splits sum.splits node.splits)
    with Inr create_entry_ok(2,3) [OF assms Inr valid] show ?thesis
      by (simp add: create_entry_eq [OF assms])
  qed (simp add: create_entry_eq [OF assms])
  show ?delete
  proof (cases "spec_delete (fs_of v) (components path)")
    case (Inr a)
    then have "a = (fs_of v)(components path := None)"
      by (auto simp: spec_delete_def split: if_splits sum.splits)
    with Inr deleted_ok(2) [OF assms Inr valid] show ?thesis by (simp add: vfs_delete_eq [OF assms])
  qed (simp add: vfs_delete_eq [OF assms])
  show ?stat
  proof (cases "walk v 1 (components path)")
    case (Inl e)
    then show ?thesis using walk_spec(1) [OF tree valid, of e] by (simp add: vfs_stat_def resolve_path_eq)
  next
    case (Inr i)
    from walk_spec(2) [OF tree valid this] obtain n where "inode_at v (components path) = Some i"
        "fmlookup (vfs_inodes v) i = Some n" "inode_ok i n"
        "spec_resolve (fs_of v) (components path) = Inr (node_of n)" by blast
    with Inr show ?thesis
      by (cases "ino_type n") (auto simp: vfs_stat_def resolve_path_eq inode_ok_def node_of_def)
  qed
qed

theorem vfs_refines_spec_witness:
  "inode_at (snd (create_entry vfs_new ''/x/../a'' RegularFile)) [''a''] = Some 2 \<and>
   fs_of (snd (create_entry vfs_new ''/x/../a'' RegularFile)) = [[] \<mapsto> DirNode, [''a''] \<mapsto> FileNode []]"
proof -
  have comps: "components ''/x/../a'' = [''a'']"
    by (simp add: components_def push_component_def)
  have spec: "spec_create (fs_of vfs_new) [''a''] (new_node RegularFile) =
      Inr [[] \<mapsto> DirNode, [''a''] \<mapsto> FileNode []]"
    by (simp add: fs_of_new spec_create_def spec_resolve_def new_node_def)
  have "create_entry vfs_new ''/x/../a'' RegularFile = (Inr 2, created vfs_new [''a''] RegularFile)"
    using spec by (simp add: create_entry_eq [OF vfs_new_inv] comps) (simp add: vfs_new_def)
  with spec comps show ?thesis
    using vfs_refines_spec [OF vfs_new_inv, of "''/x/../a''" RegularFile] by simp
qed

section \<open>Runs\<close>

datatype vfs_op = VCreate file_type string | VDelete string | VWrite u64 u64 bytes

text \<open>A write that panics stops the kernel; the run keeps the state it had.\<close>

fun vfs_step :: "vfs \<Rightarrow> vfs_op \<Rightarrow> vfs" where
  "vfs_step v (VCreate ft p) = snd (create_entry v p ft)"
| "vfs_step v (VDelete p) = snd (vfs_delete v p)"
| "vfs_step v (VWrite i off d) = (case write_file v i off d of None \<Rightarrow> v | Some (_, v') \<Rightarrow> v')"

lemma create_entry_inv:
  assumes "vfs_inv v" "next_inode v \<noteq> - 1"
  shows "vfs_inv (snd (create_entry v path ft))"
proof (cases "spec_create (fs_of v) (components path) (new_node ft)")
  case (Inr a)
  have lt: "next_inode v < saturating_add (next_inode v) 1"
    using assms(2) checked_succ_None_iff [of "next_inode v"]
    by (auto simp: word_less_nat_alt unat_saturating_add checked_add_None_iff)
  have "vfs_inv (created v (components path) ft)"
    using create_entry_ok(1,4) [OF assms(1) Inr components_all_valid] assms(1) lt
    by (auto simp: vfs_inv_def created_def intro: less_trans)
  with Inr show ?thesis by (simp add: create_entry_eq [OF assms(1)])
qed (use assms(1) in \<open>simp add: create_entry_eq\<close>)

lemma vfs_delete_inv: "vfs_inv v \<Longrightarrow> vfs_inv (snd (vfs_delete v path))"
proof (cases "spec_delete (fs_of v) (components path)")
  case (Inr a)
  assume inv: "vfs_inv v"
  have "vfs_inv (deleted v (components path))"
    using deleted_ok(1,3) [OF inv Inr components_all_valid] inv
    by (auto simp: vfs_inv_def deleted_def)
  with Inr inv show ?thesis by (simp add: vfs_delete_eq)
qed (simp add: vfs_delete_eq)

lemma length_grow_le: "length (grow d n) \<le> max (length d) n"
  by (simp add: grow_def)

lemma length_overwrite: "start + length data \<le> length d \<Longrightarrow> length (overwrite d start data) = length d"
  by (simp add: overwrite_def)

lemma length_write:
  assumes "end_pos = min (start + length data) USIZE_MAX" "length d \<le> ISIZE_MAX"
    "\<not> (length d < end_pos \<and> ISIZE_MAX < end_pos)"
  shows "length (overwrite (grow d end_pos) start data) \<le> ISIZE_MAX"
    and "end_pos = start + length data"
proof -
  show e: "end_pos = start + length data" using assms by (auto simp: USIZE_MAX_def ISIZE_MAX_def min_def split: if_splits)
  then have "start + length data \<le> length (grow d end_pos)" by (simp add: grow_def)
  then show "length (overwrite (grow d end_pos) start data) \<le> ISIZE_MAX"
    using length_grow_le [of d end_pos] assms by (auto simp: length_overwrite)
qed

lemma write_file_inv:
  assumes "vfs_inv v" "write_file v i off data = Some (res, v')"
  shows "vfs_inv v' \<and> next_inode v' = next_inode v"
proof (cases "v' = v")
  case False
  with assms(2) obtain n end_pos where n: "fmlookup (vfs_inodes v) i = Some n" "ino_type n \<noteq> Directory"
      "end_pos = min (unat off + length data) USIZE_MAX"
      "\<not> (length (ino_data n) < end_pos \<and> ISIZE_MAX < end_pos)"
      "v' = v\<lparr>vfs_inodes := fmupd i (n\<lparr>ino_data := overwrite (grow (ino_data n) end_pos) (unat off) data\<rparr>)
             (vfs_inodes v)\<rparr>"
    by (auto simp: write_file_def Let_def split: option.splits if_splits)
  from assms(1) have tree: "tree_inv (vfs_inodes v)" by (simp add: vfs_inv_def)
  have "length (ino_data n) \<le> ISIZE_MAX" using tree_node [OF tree n(1)] by (simp add: inode_ok_def)
  from length_write(1) [OF n(3) this n(4)] have
    "tree_inv (fmupd i (n\<lparr>ino_data := overwrite (grow (ino_data n) end_pos) (unat off) data\<rparr>) (vfs_inodes v))"
    by (rule tree_inv_data [OF tree n(1,2)])
  with n(1,5) assms(1) show ?thesis by (auto simp: vfs_inv_def intro: fmdom'I)
qed (use assms(1) in simp)

lemma next_inode_step: "next_inode v = - 1 \<Longrightarrow> next_inode (vfs_step v x) = - 1"
proof (cases x)
  case (VCreate ft p)
  assume "next_inode v = - 1"
  then show ?thesis unfolding VCreate
    by (auto simp: create_entry_def link_child_def Let_def saturating_add_def unsigned_minus_1_eq_mask
        mask_eq_exp_minus_1 split: sum.splits option.splits)
qed (auto simp: vfs_delete_def unlink_child_def write_file_def Let_def split: option.splits sum.splits)

interpretation vfs_sys: op_system vfs_step "\<lambda>v. next_inode v = - 1 \<or> vfs_inv v"
proof
  fix v x
  assume inv: "next_inode v = - 1 \<or> vfs_inv v"
  show "next_inode (vfs_step v x) = - 1 \<or> vfs_inv (vfs_step v x)"
  proof (cases "next_inode v = - 1")
    case False
    with inv have "vfs_inv v" by simp
    with False show ?thesis
      by (cases x) (auto simp: create_entry_inv vfs_delete_inv dest: write_file_inv split: option.splits)
  qed (simp add: next_inode_step)
qed

text \<open>
  C35. Until the inode counter saturates, every run of creations, deletions and writes from the
  empty file system keeps the inode table a tree: an inode is in the table exactly when one and
  only one path leads to it from the root, so nothing is orphaned, shared or cyclic.
\<close>

theorem vfs_runs_stay_trees:
  "let v = foldl vfs_step vfs_new ops in
     next_inode v = - 1 \<or>
     (vfs_inv v \<and> (\<forall>i. (fmlookup (vfs_inodes v) i \<noteq> None) = (\<exists>!p. inode_at v p = Some i)))"
proof -
  let ?v = "foldl vfs_step vfs_new ops"
  have "next_inode ?v = - 1 \<or> vfs_inv ?v" by (rule vfs_sys.inv_run) (simp add: vfs_new_inv)
  moreover have "(fmlookup (vfs_inodes ?v) i \<noteq> None) = (\<exists>!p. inode_at ?v p = Some i)" if "vfs_inv ?v" for i
  proof -
    from that have tree: "tree_inv (vfs_inodes ?v)" by (simp add: vfs_inv_def)
    show ?thesis
      using tree_reach [OF tree] follow_inj [OF tree] follow_in_dom [OF tree]
      by (metis not_None_eq)
  qed
  ultimately show ?thesis by (simp add: Let_def) blast
qed

section \<open>File I/O\<close>

text \<open>What a file holds after a write: the old bytes, the new ones over them, zeros in a gap.\<close>

definition spec_write :: "bytes \<Rightarrow> nat \<Rightarrow> bytes \<Rightarrow> bytes" where
  "spec_write old off data =
     map (\<lambda>k. if off \<le> k \<and> k < off + length data then data ! (k - off)
              else if k < length old then old ! k else 0)
       [0..<max (length old) (off + length data)]"

lemma overwrite_spec:
  "overwrite (grow d (start + length data)) start data = spec_write d start data"
  by (rule nth_equalityI)
    (auto simp: overwrite_def grow_def spec_write_def nth_append)

lemma read_file_eq:
  assumes "vfs_inv v" "inode_at v p = Some i" "fs_of v p = Some (FileNode d)"
  shows "read_file v i off len = Inr (take len (drop (unat off) d))"
    and "file_size v i = Inr (of_nat (length d))"
proof -
  from assms(2,3) obtain n where n: "fmlookup (vfs_inodes v) i = Some n" "ino_type n \<noteq> Directory" "ino_data n = d"
    by (auto simp: tree_fs_def node_of_def split: if_splits)
  have "length d \<le> ISIZE_MAX"
    using tree_node [OF _ n(1)] assms(1) n(3) by (auto simp: inode_ok_def vfs_inv_def)
  then have le: "length d \<le> USIZE_MAX" by (simp add: ISIZE_MAX_def USIZE_MAX_def)
  show "file_size v i = Inr (of_nat (length d))" using n by (simp add: file_size_def)
  have "take (min (min (unat off + len) USIZE_MAX) (length d) - unat off) (drop (unat off) d) =
      take len (drop (unat off) d)"
    by (rule nth_equalityI) (use le in \<open>auto simp: min_def\<close>)
  with n show "read_file v i off len = Inr (take len (drop (unat off) d))"
    by (auto simp: read_file_def Let_def)
qed

lemma write_file_ok:
  assumes "vfs_inv v" "inode_at v p = Some i" "fs_of v p = Some (FileNode old)"
    and "data \<noteq> []" "unat off + length data \<le> ISIZE_MAX"
  obtains v' where "write_file v i off data = Some (Inr (length data), v')" "vfs_inv v'"
    "fs_of v' = (fs_of v)(p \<mapsto> FileNode (spec_write old (unat off) data))" "inode_at v' p = Some i"
    "next_inode v' = next_inode v"
proof -
  from assms(2,3) obtain n where n: "fmlookup (vfs_inodes v) i = Some n" "ino_type n \<noteq> Directory" "ino_data n = old"
    by (auto simp: tree_fs_def node_of_def split: if_splits)
  let ?d = "spec_write old (unat off) data"
  let ?v = "v\<lparr>vfs_inodes := fmupd i (n\<lparr>ino_data := ?d\<rparr>) (vfs_inodes v)\<rparr>"
  have "min (unat off + length data) USIZE_MAX = unat off + length data"
    using assms(5) by (simp add: ISIZE_MAX_def USIZE_MAX_def)
  then have w: "write_file v i off data = Some (Inr (length data), ?v)"
    using n assms(4,5) by (simp add: write_file_def overwrite_spec)
  have inv: "vfs_inv ?v" using write_file_inv [OF assms(1) w] by simp
  from assms(1) have tree: "tree_inv (vfs_inodes v)" by (simp add: vfs_inv_def)
  have fs: "fs_of ?v = (fs_of v)(p \<mapsto> FileNode ?d)"
    using tree_fs_data [OF tree n(1,2) assms(2)] by simp
  have at: "inode_at ?v p = Some i"
    using assms(2) follow_cong [of _ "vfs_inodes v", OF child_data [OF n(1)]] by simp
  from that [OF w inv fs at] show thesis by simp
qed

text \<open>
  C13. Writing to a file of the tree succeeds whenever the file stays within \<open>isize::MAX\<close> bytes.
  It changes that file only: the new bytes are at their offset, the old ones elsewhere, and zeros
  fill a gap. Any later read returns the requested slice of that content, clamped at its end.
\<close>

theorem write_then_read:
  assumes "vfs_inv v" "inode_at v p = Some i" "fs_of v p = Some (FileNode old)"
    and "data \<noteq> []" "unat off + length data \<le> ISIZE_MAX"
  shows "\<exists>v'. write_file v i off data = Some (Inr (length data), v') \<and> vfs_inv v' \<and>
     fs_of v' = (fs_of v)(p \<mapsto> FileNode (spec_write old (unat off) data)) \<and>
     read_file v' i off2 len = Inr (take len (drop (unat off2) (spec_write old (unat off) data))) \<and>
     read_file v' i off (length data) = Inr data \<and>
     file_size v' i = Inr (of_nat (max (length old) (unat off + length data)))"
proof -
  let ?d = "spec_write old (unat off) data"
  obtain v' where v': "write_file v i off data = Some (Inr (length data), v')" "vfs_inv v'"
      "fs_of v' = (fs_of v)(p \<mapsto> FileNode ?d)" "inode_at v' p = Some i"
    by (rule write_file_ok [OF assms])
  have own: "take (length data) (drop (unat off) ?d) = data"
    by (rule nth_equalityI) (auto simp: spec_write_def)
  note rd = read_file_eq [OF v'(2,4), of ?d]
  show ?thesis
    using v' rd(1) [of off2 len] rd(1) [of off "length data"] rd(2) own
    by (intro exI [of _ v']) (simp add: spec_write_def)
qed

definition demo_vfs :: vfs where
  "demo_vfs = snd (create_entry vfs_new ''/a'' RegularFile)"

lemma demo_vfs:
  "vfs_inv demo_vfs" "inode_at demo_vfs [''a''] = Some 2" "fs_of demo_vfs [''a''] = Some (FileNode [])"
proof -
  have comps: "components ''/a'' = [''a'']" by (simp add: components_def push_component_def)
  have spec: "spec_create (fs_of vfs_new) [''a''] (new_node RegularFile) =
      Inr [[] \<mapsto> DirNode, [''a''] \<mapsto> FileNode []]"
    by (simp add: fs_of_new spec_create_def spec_resolve_def new_node_def)
  have demo: "demo_vfs = created vfs_new [''a''] RegularFile"
    using spec by (simp add: demo_vfs_def create_entry_eq [OF vfs_new_inv] comps)
  show "vfs_inv demo_vfs"
    unfolding demo_vfs_def by (rule create_entry_inv [OF vfs_new_inv]) (simp add: vfs_new_def)
  have "\<forall>c \<in> set [''a'']. valid_name c" by (simp add: valid_name_def)
  from create_entry_ok(2,3) [OF vfs_new_inv spec this, of RegularFile]
  show "inode_at demo_vfs [''a''] = Some 2" "fs_of demo_vfs [''a''] = Some (FileNode [])"
    by (simp_all add: demo new_node_def) (simp add: vfs_new_def)
qed

theorem write_then_read_witness:
  "\<exists>v'. write_file demo_vfs 2 3 [7, 8] = Some (Inr 2, v') \<and> read_file v' 2 2 9 = Inr [0, 7, 8] \<and>
     file_size v' 2 = Inr 5"
proof -
  have w: "spec_write [] 3 [7, 8] = [0, 0, 0, 7, 8]" by (simp add: spec_write_def upt_rec)
  have "unat (3 :: u64) + length [7, 8 :: u8] \<le> ISIZE_MAX" by (simp add: ISIZE_MAX_def)
  from write_then_read [OF demo_vfs _ this, of 2 9] w show ?thesis by auto
qed

end
