(* ===== verification/Initramfs.thy ===== *)
theory Initramfs
  imports Vfs
begin

text \<open>
  The boot archive, \<open>nexacore-kernel/src/initramfs.rs\<close>: parsing and building the flat format of
  length-prefixed names and images, and loading parsed entries into the file system under \<open>/bin\<close>.
  The parser's loop over a position is a terminating recursion. \<open>core::str::from_utf8\<close> is the
  standard library's validity test. Building panics on an oversized name or image, the value
  \<open>None\<close>.

  Shown here: parsing inverts building in both directions, and loading writes each entry's bytes at
  its path and nothing else.
\<close>

section \<open>UTF-8 validity\<close>

definition is_cont :: "u8 \<Rightarrow> bool" where
  "is_cont b \<longleftrightarrow> 0x80 \<le> b \<and> b \<le> 0xBF"

definition second_of_three :: "u8 \<Rightarrow> u8 \<Rightarrow> bool" where
  "second_of_three b c \<longleftrightarrow>
     (if b = 0xE0 then 0xA0 \<le> c \<and> c \<le> 0xBF else if b = 0xED then 0x80 \<le> c \<and> c \<le> 0x9F else is_cont c)"

definition second_of_four :: "u8 \<Rightarrow> u8 \<Rightarrow> bool" where
  "second_of_four b c \<longleftrightarrow>
     (if b = 0xF0 then 0x90 \<le> c \<and> c \<le> 0xBF else if b = 0xF4 then 0x80 \<le> c \<and> c \<le> 0x8F else is_cont c)"

fun valid_utf8 :: "bytes \<Rightarrow> bool" where
  "valid_utf8 [] = True"
| "valid_utf8 (b # bs) =
     (if b < 0x80 then valid_utf8 bs
      else if 0xC2 \<le> b \<and> b \<le> 0xDF then
        (case bs of c # r \<Rightarrow> is_cont c \<and> valid_utf8 r | _ \<Rightarrow> False)
      else if 0xE0 \<le> b \<and> b \<le> 0xEF then
        (case bs of c # d # r \<Rightarrow> second_of_three b c \<and> is_cont d \<and> valid_utf8 r | _ \<Rightarrow> False)
      else if 0xF0 \<le> b \<and> b \<le> 0xF4 then
        (case bs of c # d # e # r \<Rightarrow> second_of_four b c \<and> is_cont d \<and> is_cont e \<and> valid_utf8 r | _ \<Rightarrow> False)
      else False)"

section \<open>The archive\<close>

record initramfs_entry =
  ie_name :: string
  ie_data :: bytes

datatype initramfs_error = Truncated | InvalidName | VfsError

text \<open>\<open>from_le_bytes\<close> and \<open>to_le_bytes\<close> of the two length fields.\<close>

definition le_value :: "bytes \<Rightarrow> nat" where
  "le_value bs = foldr (\<lambda>b acc. unat b + 256 * acc) bs 0"

fun le_bytes :: "nat \<Rightarrow> nat \<Rightarrow> bytes" where
  "le_bytes 0 n = []"
| "le_bytes (Suc k) n = of_nat (n mod 256) # le_bytes k (n div 256)"

text \<open>The slice \<open>archive[pos..pos + len]\<close>; every use is preceded by its bounds check.\<close>

definition part :: "bytes \<Rightarrow> nat \<Rightarrow> nat \<Rightarrow> bytes" where
  "part a pos len = take len (drop pos a)"

function parse_loop :: "bytes \<Rightarrow> nat \<Rightarrow> initramfs_entry list \<Rightarrow> initramfs_error + initramfs_entry list" where
  "parse_loop archive pos entries =
     (if pos < length archive then
        if length archive < pos + 2 then Inl Truncated
        else
          let name_len = le_value (part archive pos 2);
              pos1 = pos + 2
          in if length archive < pos1 + name_len then Inl Truncated
             else if \<not> valid_utf8 (part archive pos1 name_len) then Inl InvalidName
             else
               let name = bytes_str (part archive pos1 name_len);
                   pos2 = pos1 + name_len
               in if length archive < pos2 + 4 then Inl Truncated
                  else
                    let elf_len = le_value (part archive pos2 4);
                        pos3 = pos2 + 4
                    in if length archive < pos3 + elf_len then Inl Truncated
                       else parse_loop archive (pos3 + elf_len)
                              (entries @ [\<lparr>ie_name = name, ie_data = part archive pos3 elf_len\<rparr>])
      else Inr entries)"
  by pat_completeness auto
termination by (relation "measure (\<lambda>(a, pos, es). length a - pos)") auto

declare parse_loop.simps [simp del]

definition parse_initramfs :: "bytes \<Rightarrow> initramfs_error + initramfs_entry list" where
  "parse_initramfs archive = parse_loop archive 0 []"

fun build_loop :: "bytes \<Rightarrow> (string \<times> bytes) list \<Rightarrow> bytes option" where
  "build_loop buf [] = Some buf"
| "build_loop buf ((name, data) # rest) =
     (if 2 ^ 16 \<le> length name \<or> 2 ^ 32 \<le> length data then None
      else build_loop (buf @ le_bytes 2 (length name) @ str_bytes name @ le_bytes 4 (length data) @ data) rest)"

definition build_archive :: "(string \<times> bytes) list \<Rightarrow> bytes option" where
  "build_archive entries = build_loop [] entries"

section \<open>Loading\<close>

fun load_loop :: "initramfs_entry list \<Rightarrow> nat \<Rightarrow> vfs \<Rightarrow> ((initramfs_error + nat) \<times> vfs) option" where
  "load_loop [] written v = Some (Inr written, v)"
| "load_loop (e # es) written v =
     (let path = ''/bin/'' @ ie_name e
      in if vfs_exists v path then load_loop es written v
         else case create_file v path of
             (Inl _, v1) \<Rightarrow> Some (Inl VfsError, v1)
           | (Inr i, v1) \<Rightarrow>
               (case write_file v1 i 0 (ie_data e) of
                  None \<Rightarrow> None
                | Some (Inl _, v2) \<Rightarrow> Some (Inl VfsError, v2)
                | Some (Inr _, v2) \<Rightarrow> load_loop es (written + 1) v2))"

definition load_into_vfs :: "initramfs_entry list \<Rightarrow> vfs \<Rightarrow> ((initramfs_error + nat) \<times> vfs) option" where
  "load_into_vfs entries v =
     (if vfs_exists v ''/bin'' then load_loop entries 0 v
      else case create_directory v ''/bin'' of
          (Inl _, v1) \<Rightarrow> Some (Inl VfsError, v1)
        | (Inr _, v1) \<Rightarrow> load_loop entries 0 v1)"

section \<open>Parsing inverts building\<close>

lemma length_le_bytes [simp]: "length (le_bytes k n) = k"
  by (induction k arbitrary: n) simp_all

lemma le_value_le_bytes: "n < 256 ^ k \<Longrightarrow> le_value (le_bytes k n) = n"
proof (induction k arbitrary: n)
  case (Suc k)
  have "unat (of_nat (n mod 256) :: u8) = n mod 256" by (simp add: unat_of_nat)
  moreover have "n div 256 < 256 ^ k" using Suc.prems by (simp add: less_mult_imp_div_less mult.commute)
  ultimately show ?case using Suc.IH [of "n div 256"] by (simp add: le_value_def)
qed (simp add: le_value_def)

lemma le_bytes_le_value: "le_bytes (length bs) (le_value bs) = bs"
proof (induction bs)
  case (Cons b bs)
  have "unat b < 256" using unat_bound [of b] by simp
  then have "(unat b + 256 * le_value bs) mod 256 = unat b" "(unat b + 256 * le_value bs) div 256 = le_value bs"
    by simp_all
  moreover have "le_value (b # bs) = unat b + 256 * le_value bs" by (simp add: le_value_def)
  ultimately show ?case using Cons by simp
qed simp

lemma le_value_bound: "le_value bs < 256 ^ length bs"
proof (induction bs)
  case (Cons b bs)
  have "unat b < 256" using unat_bound [of b] by simp
  moreover have "256 * Suc (le_value bs) \<le> 256 * 256 ^ length bs" using Cons by simp
  ultimately show ?case by (simp add: le_value_def)
qed (simp add: le_value_def)

definition entry_bytes :: "initramfs_entry \<Rightarrow> bytes" where
  "entry_bytes e = le_bytes 2 (length (ie_name e)) @ str_bytes (ie_name e) @
     le_bytes 4 (length (ie_data e)) @ ie_data e"

definition entry_ok :: "initramfs_entry \<Rightarrow> bool" where
  "entry_ok e \<longleftrightarrow> length (ie_name e) < 2 ^ 16 \<and> length (ie_data e) < 2 ^ 32"

abbreviation pairs :: "initramfs_entry list \<Rightarrow> (string \<times> bytes) list" where
  "pairs es \<equiv> map (\<lambda>e. (ie_name e, ie_data e)) es"

lemma build_loop_eq:
  "build_loop buf (pairs es) =
     (if list_all entry_ok es then Some (buf @ concat (map entry_bytes es)) else None)"
  by (induction es arbitrary: buf) (auto simp: entry_ok_def entry_bytes_def)

lemma parse_step:
  assumes "pos + 2 \<le> length a" "n = le_value (part a pos 2)" "valid_utf8 (part a (pos + 2) n)"
    "pos + 2 + n + 4 \<le> length a" "l = le_value (part a (pos + 2 + n) 4)" "pos + 2 + n + 4 + l \<le> length a"
    "e = \<lparr>ie_name = bytes_str (part a (pos + 2) n), ie_data = part a (pos + 2 + n + 4) l\<rparr>"
  shows "parse_loop a pos acc = parse_loop a (pos + 2 + n + 4 + l) (acc @ [e])"
  using assms by (subst parse_loop.simps) (simp add: Let_def)

lemma parse_entry:
  assumes "entry_ok e" "valid_utf8 (str_bytes (ie_name e))"
  shows "parse_loop (pre @ entry_bytes e @ post) (length pre) acc =
         parse_loop (pre @ entry_bytes e @ post) (length (pre @ entry_bytes e)) (acc @ [e])"
proof -
  let ?a = "pre @ entry_bytes e @ post"
  let ?n = "length (ie_name e)" and ?l = "length (ie_data e)"
  have n: "part ?a (length pre) 2 = le_bytes 2 ?n"
    and s: "part ?a (length pre + 2) ?n = str_bytes (ie_name e)"
    and l: "part ?a (length pre + 2 + ?n) 4 = le_bytes 4 ?l"
    and d: "part ?a (length pre + 2 + ?n + 4) ?l = ie_data e"
    by (simp_all add: part_def entry_bytes_def)
  have v: "le_value (le_bytes 2 ?n) = ?n" "le_value (le_bytes 4 ?l) = ?l"
    using assms(1) by (simp_all add: le_value_le_bytes entry_ok_def)
  have "parse_loop ?a (length pre) acc = parse_loop ?a (length pre + 2 + ?n + 4 + ?l) (acc @ [e])"
  proof (rule parse_step)
    show "?n = le_value (part ?a (length pre) 2)" "?l = le_value (part ?a (length pre + 2 + ?n) 4)"
      by (simp_all only: n l v)
    show "valid_utf8 (part ?a (length pre + 2) ?n)" by (simp only: s assms(2))
    show "e = \<lparr>ie_name = bytes_str (part ?a (length pre + 2) ?n), ie_data = part ?a (length pre + 2 + ?n + 4) ?l\<rparr>"
      by (simp only: s d str_bytes_inverse) simp
  qed (simp_all add: entry_bytes_def)
  moreover have "length pre + 2 + ?n + 4 + ?l = length (pre @ entry_bytes e)"
    by (simp add: entry_bytes_def)
  ultimately show ?thesis by (simp only:)
qed

lemma parse_build:
  "list_all entry_ok es \<Longrightarrow> list_all (\<lambda>e. valid_utf8 (str_bytes (ie_name e))) es \<Longrightarrow>
     parse_loop (pre @ concat (map entry_bytes es)) (length pre) acc = Inr (acc @ es)"
proof (induction es arbitrary: pre acc)
  case Nil
  then show ?case by (simp add: parse_loop.simps)
next
  case (Cons e es)
  then show ?case
    using parse_entry [of e pre "concat (map entry_bytes es)" acc]
      Cons.IH [of "pre @ entry_bytes e" "acc @ [e]"] by simp
qed

lemma drop_part: "drop k a = part a k m @ drop (k + m) a"
  unfolding part_def by (metis add.commute append_take_drop_id drop_drop)

lemma length_part: "k + m \<le> length a \<Longrightarrow> length (part a k m) = m"
  by (simp add: part_def)

text \<open>One successful round of the parser: the entry it reads is what stands at the position.\<close>

lemma head_entry_bytes:
  assumes n: "pos + 2 \<le> length a" "n = le_value (part a pos 2)" "pos + 2 + n + 4 \<le> length a"
    and l: "l = le_value (part a (pos + 2 + n) 4)" "pos + 2 + n + 4 + l \<le> length a"
    and e: "e = \<lparr>ie_name = bytes_str (part a (pos + 2) n), ie_data = part a (pos + 2 + n + 4) l\<rparr>"
  shows "drop pos a = entry_bytes e @ drop (pos + 2 + n + 4 + l) a" and "entry_ok e"
proof -
  have lens: "length (part a pos 2) = 2" "length (part a (pos + 2 + n) 4) = 4"
      "length (part a (pos + 2) n) = n" "length (part a (pos + 2 + n + 4) l) = l"
    using n l by (simp_all add: length_part)
  have heads: "le_bytes 2 n = part a pos 2" "le_bytes 4 l = part a (pos + 2 + n) 4"
    using le_bytes_le_value [of "part a pos 2"] le_bytes_le_value [of "part a (pos + 2 + n) 4"]
    unfolding lens n(2) [symmetric] l(1) [symmetric] by simp_all
  show "entry_ok e"
    using lens le_value_bound [of "part a pos 2"] le_value_bound [of "part a (pos + 2 + n) 4"] n(2) l(1)
    by (simp add: e entry_ok_def)
  have "entry_bytes e = part a pos 2 @ part a (pos + 2) n @ part a (pos + 2 + n) 4 @ part a (pos + 2 + n + 4) l"
    by (simp only: entry_bytes_def e initramfs_entry.select_convs length_bytes_str bytes_str_inverse
        lens heads)
  then show "drop pos a = entry_bytes e @ drop (pos + 2 + n + 4 + l) a"
    by (simp only: drop_part [of pos a 2] drop_part [of "pos + 2" a n] drop_part [of "pos + 2 + n" a 4]
        drop_part [of "pos + 2 + n + 4" a l] append_assoc)
qed

lemma parse_sound:
  "parse_loop a pos acc = Inr r \<Longrightarrow> pos \<le> length a \<Longrightarrow>
     \<exists>es. r = acc @ es \<and> list_all entry_ok es \<and> list_all (\<lambda>e. valid_utf8 (str_bytes (ie_name e))) es \<and>
       drop pos a = concat (map entry_bytes es)"
proof (induction a pos acc rule: parse_loop.induct)
  case (1 a pos acc)
  show ?case
  proof (cases "pos < length a")
    case False
    with "1.prems" show ?thesis by (subst (asm) parse_loop.simps) auto
  next
    case True
    define n where "n = le_value (part a pos 2)"
    define l where "l = le_value (part a (pos + 2 + n) 4)"
    define e where "e = \<lparr>ie_name = bytes_str (part a (pos + 2) n), ie_data = part a (pos + 2 + n + 4) l\<rparr>"
    from "1.prems"(1) True have ok: "pos + 2 \<le> length a" "pos + 2 + n \<le> length a"
        "valid_utf8 (part a (pos + 2) n)" "pos + 2 + n + 4 \<le> length a" "pos + 2 + n + 4 + l \<le> length a"
      and rec: "parse_loop a (pos + 2 + n + 4 + l) (acc @ [e]) = Inr r"
      by (subst (asm) parse_loop.simps; simp add: Let_def n_def l_def e_def not_less split: if_splits)+
    from "1.IH" [OF True _ n_def refl _ _ refl refl _ l_def refl] ok rec obtain es
      where es: "r = (acc @ [e]) @ es" "list_all entry_ok es" "list_all (\<lambda>e. valid_utf8 (str_bytes (ie_name e))) es"
        "drop (pos + 2 + n + 4 + l) a = concat (map entry_bytes es)"
      unfolding e_def by (auto simp: not_less)
    note head = head_entry_bytes [OF ok(1) n_def ok(4) l_def ok(5) e_def]
    have "valid_utf8 (str_bytes (ie_name e))" using ok(3) by (simp add: e_def)
    with es head show ?thesis by (intro exI [of _ "e # es"]) simp
  qed
qed

text \<open>
  C12. Parsing inverts building, in both directions: an archive parses to a list of entries exactly
  when building that list gives the archive and every name is valid UTF-8.
\<close>

theorem initramfs_round_trip:
  "parse_initramfs a = Inr es \<longleftrightarrow>
     build_archive (pairs es) = Some a \<and> list_all (\<lambda>e. valid_utf8 (str_bytes (ie_name e))) es"
proof
  assume "parse_initramfs a = Inr es"
  from parse_sound [OF this [unfolded parse_initramfs_def]]
  show "build_archive (pairs es) = Some a \<and> list_all (\<lambda>e. valid_utf8 (str_bytes (ie_name e))) es"
    by (simp add: build_archive_def build_loop_eq)
next
  assume "build_archive (pairs es) = Some a \<and> list_all (\<lambda>e. valid_utf8 (str_bytes (ie_name e))) es"
  then have "list_all entry_ok es" "a = concat (map entry_bytes es)"
      "list_all (\<lambda>e. valid_utf8 (str_bytes (ie_name e))) es"
    by (auto simp: build_archive_def build_loop_eq split: if_splits)
  then show "parse_initramfs a = Inr es"
    using parse_build [of es "[]" "[]"] by (simp add: parse_initramfs_def)
qed

section \<open>What loading leaves in the file system\<close>

abbreviation bin_path :: "initramfs_entry \<Rightarrow> string list" where
  "bin_path e \<equiv> [''bin'', ie_name e]"

lemma components_bin: "valid_name n \<Longrightarrow> components (''/bin/'' @ n) = [''bin'', n]"
  using components_render [of "[''bin'', n]"] by (simp add: render_def valid_name_def)

lemma valid_bin_path: "valid_name (ie_name e) \<Longrightarrow> \<forall>c \<in> set (bin_path e). valid_name c"
  by (simp add: valid_name_def)

lemma fs_root: "vfs_inv v \<Longrightarrow> fs_of v [] = Some DirNode"
  by (auto simp: vfs_inv_def tree_fs_def node_of_def elim: tree_rootE)

lemma spec_write_Nil: "spec_write [] 0 d = d"
  by (rule nth_equalityI) (simp_all add: spec_write_def)

lemma vfs_exists_iff: "vfs_inv v \<Longrightarrow> vfs_exists v path = is_ok (spec_resolve (fs_of v) (components path))"
proof -
  assume "vfs_inv v"
  then have tree: "tree_inv (vfs_inodes v)" by (simp add: vfs_inv_def)
  note ws = walk_spec [OF tree components_all_valid [of path]]
  show ?thesis unfolding vfs_exists_def resolve_path_eq
    by (cases "walk v 1 (components path)") (use ws in force)+
qed

text \<open>One entry: created and written, or, with no bytes, created only.\<close>

lemma load_entry:
  assumes inv: "vfs_inv v" and nxt: "next_inode v \<noteq> - 1" and name: "valid_name (ie_name e)"
    and bin: "fs_of v [''bin''] = Some DirNode" "fs_of v (bin_path e) = None"
    and len: "length (ie_data e) \<le> ISIZE_MAX"
  obtains v' where "load_loop (e # es) k v = load_loop es (k + 1) v'" "vfs_inv v'"
    "fs_of v' = (fs_of v)(bin_path e \<mapsto> FileNode (ie_data e))" "next_inode v' = saturating_add (next_inode v) 1"
proof -
  have "fs_of v (take k (bin_path e)) \<noteq> Some (FileNode d)" if "k < 2" for k d
  proof -
    from that have "k = 0 \<or> k = 1" by auto
    then show ?thesis using fs_root [OF inv] bin by (elim disjE) simp_all
  qed
  then have res: "spec_resolve (fs_of v) (bin_path e) = Inl NotFound" "spec_resolve (fs_of v) [''bin''] = Inr DirNode"
    using fs_root [OF inv] bin by (simp_all add: spec_resolve_def numeral_2_eq_2)
  have spec: "spec_create (fs_of v) (bin_path e) (new_node RegularFile) =
      Inr ((fs_of v)(bin_path e \<mapsto> FileNode []))"
    using res bin by (simp add: spec_create_def new_node_def)
  let ?v1 = "created v (bin_path e) RegularFile"
  have c: "create_file v (''/bin/'' @ ie_name e) = (Inr (next_inode v), ?v1)"
    using spec components_bin [OF name] by (simp add: create_file_def create_entry_eq [OF inv])
  have inv1: "vfs_inv ?v1"
    using create_entry_inv [OF inv nxt, of "''/bin/'' @ ie_name e" RegularFile] c
    by (simp add: create_file_def)
  note ok = create_entry_ok [OF inv spec valid_bin_path [OF name], of RegularFile]
  have fs1: "fs_of ?v1 = (fs_of v)(bin_path e \<mapsto> FileNode [])" "inode_at ?v1 (bin_path e) = Some (next_inode v)"
      "next_inode ?v1 = saturating_add (next_inode v) 1"
    using ok(2,3) by (simp_all add: new_node_def) (simp add: created_def)
  have ex: "\<not> vfs_exists v (''/bin/'' @ ie_name e)"
    using res components_bin [OF name] by (simp add: vfs_exists_iff [OF inv])
  show thesis
  proof (cases "ie_data e = []")
    case True
    obtain n where "fmlookup (vfs_inodes ?v1) (next_inode v) = Some n" "ino_type n \<noteq> Directory"
      using fs1 by (auto simp: tree_fs_def node_of_def split: if_splits option.splits dest!: fun_cong [of _ _ "bin_path e"])
    then have "write_file ?v1 (next_inode v) 0 (ie_data e) = Some (Inr 0, ?v1)"
      using True by (simp add: write_file_def)
    with c ex that [of ?v1] inv1 fs1 True show thesis by (simp add: Let_def)
  next
    case False
    obtain v' where v': "write_file ?v1 (next_inode v) 0 (ie_data e) = Some (Inr (length (ie_data e)), v')" "vfs_inv v'"
        "fs_of v' = (fs_of ?v1)(bin_path e \<mapsto> FileNode (spec_write [] (unat (0 :: u64)) (ie_data e)))"
        "next_inode v' = next_inode ?v1"
      by (rule write_file_ok [OF inv1 fs1(2) _ False, of "[]" 0]) (use len fs1 in auto)
    with c ex that [of v'] fs1 show thesis by (simp add: Let_def spec_write_Nil)
  qed
qed

lemma load_loop_ok:
  "vfs_inv v \<Longrightarrow> unat (next_inode v) + length es < 2 ^ 64 - 1 \<Longrightarrow> fs_of v [''bin''] = Some DirNode \<Longrightarrow>
   list_all (\<lambda>e. valid_name (ie_name e) \<and> length (ie_data e) \<le> ISIZE_MAX \<and> fs_of v (bin_path e) = None) es \<Longrightarrow>
   distinct (map ie_name es) \<Longrightarrow>
   \<exists>v'. load_loop es k v = Some (Inr (k + length es), v') \<and> vfs_inv v' \<and>
     fs_of v' = (fs_of v)(map bin_path es [\<mapsto>] map (\<lambda>e. FileNode (ie_data e)) es)"
proof (induction es arbitrary: v k)
  case (Cons e es)
  have nxt: "next_inode v \<noteq> - 1"
    using Cons.prems(2) by (auto simp: unsigned_minus_1_eq_mask mask_eq_exp_minus_1)
  obtain v1 where v1: "load_loop (e # es) k v = load_loop es (k + 1) v1" "vfs_inv v1"
      "fs_of v1 = (fs_of v)(bin_path e \<mapsto> FileNode (ie_data e))" "next_inode v1 = saturating_add (next_inode v) 1"
    using Cons.prems by (elim load_entry [OF _ nxt]) auto
  have "unat (next_inode v1) + length es < 2 ^ 64 - 1"
    using Cons.prems(2) by (simp add: v1(4) unat_saturating_add)
  moreover have "list_all (\<lambda>e. valid_name (ie_name e) \<and> length (ie_data e) \<le> ISIZE_MAX \<and> fs_of v1 (bin_path e) = None) es"
    using Cons.prems(4,5) by (auto simp: v1(3) list_all_iff image_iff)
  moreover have "fs_of v1 [''bin''] = Some DirNode" "distinct (map ie_name es)"
    using Cons.prems(3,5) by (simp_all add: v1(3))
  ultimately obtain v' where "load_loop es (k + 1) v1 = Some (Inr (k + 1 + length es), v')" "vfs_inv v'"
      "fs_of v' = (fs_of v1)(map bin_path es [\<mapsto>] map (\<lambda>e. FileNode (ie_data e)) es)"
    using Cons.IH [OF v1(2), of "k + 1"] by blast
  then show ?case by (intro exI [of _ v']) (simp add: v1(1,3) del: load_loop.simps fun_upd_apply)
qed simp

text \<open>
  C36. Loading entries with distinct plain names into an empty file system succeeds: every entry is
  counted, its bytes are the file \<open>/bin/<name>\<close>, and the file system holds nothing else but the
  root and \<open>/bin\<close>.
\<close>

theorem load_into_vfs_exact:
  assumes "list_all (\<lambda>e. valid_name (ie_name e) \<and> length (ie_data e) \<le> ISIZE_MAX) es"
    and "distinct (map ie_name es)" and "length es < 2 ^ 63"
  shows "\<exists>v. load_into_vfs es vfs_new = Some (Inr (length es), v) \<and> vfs_inv v \<and>
     fs_of v = [[] \<mapsto> DirNode, [''bin''] \<mapsto> DirNode]
       (map bin_path es [\<mapsto>] map (\<lambda>e. FileNode (ie_data e)) es)"
proof -
  have comps: "components ''/bin'' = [''bin'']" by (simp add: components_def push_component_def)
  let ?v = "created vfs_new [''bin''] Directory"
  have spec: "spec_create (fs_of vfs_new) [''bin''] (new_node Directory) =
      Inr [[] \<mapsto> DirNode, [''bin''] \<mapsto> DirNode]"
    by (simp add: fs_of_new spec_create_def spec_resolve_def new_node_def)
  have c: "create_directory vfs_new ''/bin'' = (Inr (next_inode vfs_new), ?v)"
    using spec by (simp add: create_directory_def create_entry_eq [OF vfs_new_inv] comps)
  have inv: "vfs_inv ?v"
    using create_entry_inv [OF vfs_new_inv, of "''/bin''" Directory] c
    by (simp add: create_directory_def) (simp add: vfs_new_def)
  have "\<forall>c \<in> set [''bin'']. valid_name c" by (simp add: valid_name_def)
  from create_entry_ok(2) [OF vfs_new_inv spec this, of Directory]
  have fs: "fs_of ?v = [[] \<mapsto> DirNode, [''bin''] \<mapsto> DirNode]" by (simp add: fs_of_new new_node_def)
  have ex: "\<not> vfs_exists vfs_new ''/bin''"
    by (simp add: vfs_exists_iff [OF vfs_new_inv] comps fs_of_new spec_resolve_def)
  have "unat (next_inode ?v) = 3"
    by (simp add: created_def vfs_new_def unat_saturating_add)
  then have "unat (next_inode ?v) + length es < 2 ^ 64 - 1" using assms(3) by simp
  from load_loop_ok [OF inv this, of 0] assms(1,2) fs c ex show ?thesis
    by (auto simp: load_into_vfs_def list_all_iff)
qed

theorem load_into_vfs_exact_witness:
  "\<exists>v. load_into_vfs [\<lparr>ie_name = ''sh'', ie_data = [1, 2]\<rparr>] vfs_new = Some (Inr 1, v) \<and>
     fs_of v [''bin'', ''sh''] = Some (FileNode [1, 2])"
  using load_into_vfs_exact [of "[\<lparr>ie_name = ''sh'', ie_data = [1, 2]\<rparr>]"]
  by (auto simp: valid_name_def ISIZE_MAX_def)

text \<open>
  A name with separators or double dots is not confined to \<open>/bin\<close>: the path is normalised before
  it is created.
\<close>

lemma archive_name_escapes_bin: "components (''/bin/'' @ ''../x'') = [''x'']"
  by (simp add: components_def push_component_def)

end
