(* ===== verification/Console_Input.thy ===== *)
theory Console_Input
  imports Kernel_Prelude "HOL-Library.Sublist"
begin

text \<open>
  The console input buffer, \<open>nexacore-kernel/src/console_input.rs\<close>: a bounded queue of bytes that
  drops its oldest byte when a new one finds it full, read raw or by line.

  Shown here: over every run of pushes and reads the buffer holds the newest bytes pushed, what was
  read together with what is buffered is what was pushed less the dropped bytes, and a line read
  ends at the first newline.
\<close>

definition CONSOLE_INPUT_CAPACITY :: nat where "CONSOLE_INPUT_CAPACITY = 4096"

record console_input =
  ci_buffer :: bytes
  ci_capacity :: nat

definition console_new :: console_input where
  "console_new = \<lparr>ci_buffer = [], ci_capacity = CONSOLE_INPUT_CAPACITY\<rparr>"

definition push_byte :: "console_input \<Rightarrow> u8 \<Rightarrow> console_input" where
  "push_byte c b =
     (let buf = (if ci_capacity c \<le> length (ci_buffer c) then tl (ci_buffer c) else ci_buffer c)
      in c\<lparr>ci_buffer := buf @ [b]\<rparr>)"

definition read_bytes :: "console_input \<Rightarrow> nat \<Rightarrow> bool \<Rightarrow> bytes \<times> console_input" where
  "read_bytes c max_len line_buffered =
     (if max_len = 0 \<or> ci_buffer c = [] then ([], c)
      else
        let available = min (length (ci_buffer c)) max_len;
            to_drain =
              (if line_buffered
               then case position (\<lambda>b. b = 10) (take available (ci_buffer c)) of
                      None \<Rightarrow> available
                    | Some pos \<Rightarrow> pos + 1
               else available)
        in (take to_drain (ci_buffer c), c\<lparr>ci_buffer := drop to_drain (ci_buffer c)\<rparr>))"

definition has_line :: "console_input \<Rightarrow> bool" where
  "has_line c \<longleftrightarrow> 10 \<in> set (ci_buffer c)"

definition console_is_empty :: "console_input \<Rightarrow> bool" where
  "console_is_empty c \<longleftrightarrow> ci_buffer c = []"

definition console_len :: "console_input \<Rightarrow> nat" where
  "console_len c = length (ci_buffer c)"

section \<open>Reads\<close>

lemma read_bytes_split: "read_bytes c n lb = (out, c') \<Longrightarrow> out @ ci_buffer c' = ci_buffer c"
  by (auto simp: read_bytes_def Let_def split: if_splits option.splits)

lemma read_bytes_bound: "read_bytes c n lb = (out, c') \<Longrightarrow> length out \<le> n"
proof -
  have pos: "position P xs = Some k \<Longrightarrow> k < length xs" for P and xs :: bytes and k
    by (induction xs arbitrary: k) (auto split: if_splits)
  show "read_bytes c n lb = (out, c') \<Longrightarrow> length out \<le> n"
    by (auto simp: read_bytes_def Let_def split: if_splits option.splits dest: pos)
qed

lemma read_bytes_capacity: "read_bytes c n lb = (out, c') \<Longrightarrow> ci_capacity c' = ci_capacity c"
  by (auto simp: read_bytes_def Let_def split: if_splits)

text \<open>A line read stops at the first newline it can reach, or takes all it may.\<close>

lemma position_None_iff: "position P xs = None \<longleftrightarrow> (\<forall>x \<in> set xs. \<not> P x)"
  by (induction xs) auto

lemma position_Some_split:
  "position P xs = Some k \<Longrightarrow> k < length xs \<and> P (xs ! k) \<and> (\<forall>x \<in> set (take k xs). \<not> P x)"
  by (induction xs arbitrary: k) (auto split: if_splits)

lemma read_line_shape:
  assumes "read_bytes c n True = (out, c')"
  shows "10 \<notin> set out \<and> length out = min (length (ci_buffer c)) n \<or>
    (\<exists>l. out = l @ [10] \<and> 10 \<notin> set l)"
proof (cases "n = 0 \<or> ci_buffer c = []")
  case True
  with assms show ?thesis by (auto simp: read_bytes_def)
next
  case False
  let ?a = "min (length (ci_buffer c)) n"
  show ?thesis
  proof (cases "position (\<lambda>b. b = 10) (take ?a (ci_buffer c))")
    case None
    with assms False show ?thesis by (auto simp: read_bytes_def position_None_iff Let_def)
  next
    case (Some k)
    from position_Some_split [OF Some] have k: "k < ?a" "ci_buffer c ! k = 10" "10 \<notin> set (take k (ci_buffer c))"
      by (auto simp: min_def split: if_splits)
    then have "take (k + 1) (ci_buffer c) = take k (ci_buffer c) @ [10]"
      by (simp add: take_Suc_conv_app_nth)
    with assms False Some k(3) show ?thesis by (auto simp: read_bytes_def Let_def)
  qed
qed

section \<open>Runs\<close>

datatype console_op = PushByte u8 | ReadBytes nat bool

record console_run =
  cr_console :: console_input
  cr_pushed :: bytes
  cr_read :: bytes

fun console_step :: "console_run \<Rightarrow> console_op \<Rightarrow> console_run" where
  "console_step r (PushByte b) =
     r\<lparr>cr_console := push_byte (cr_console r) b, cr_pushed := cr_pushed r @ [b]\<rparr>"
| "console_step r (ReadBytes n lb) =
     (case read_bytes (cr_console r) n lb of (out, c) \<Rightarrow>
        r\<lparr>cr_console := c, cr_read := cr_read r @ out\<rparr>)"

definition console_start :: console_run where
  "console_start = \<lparr>cr_console = console_new, cr_pushed = [], cr_read = []\<rparr>"

definition console_inv :: "console_run \<Rightarrow> bool" where
  "console_inv r \<longleftrightarrow>
     ci_capacity (cr_console r) = CONSOLE_INPUT_CAPACITY \<and>
     length (ci_buffer (cr_console r)) \<le> CONSOLE_INPUT_CAPACITY \<and>
     suffix (ci_buffer (cr_console r)) (cr_pushed r) \<and>
     subseq (cr_read r @ ci_buffer (cr_console r)) (cr_pushed r)"

lemma subseq_drop_middle: "subseq (xs @ ys) zs \<Longrightarrow> subseq (xs @ tl ys) zs"
proof -
  have "subseq (xs @ tl ys) (xs @ ys)" by (cases ys) (auto simp: subseq_append')
  then show "subseq (xs @ ys) zs \<Longrightarrow> ?thesis" by (rule subseq_order.trans)
qed

lemma suffix_tlI: "suffix ys zs \<Longrightarrow> suffix (tl ys) zs"
  by (cases ys) (auto intro: suffix_ConsD)

lemma push_byte_inv:
  assumes inv: "console_inv r"
  shows "console_inv (console_step r (PushByte b))"
proof -
  let ?buf = "ci_buffer (cr_console r)"
  let ?kept = "if CONSOLE_INPUT_CAPACITY \<le> length ?buf then tl ?buf else ?buf"
  have "suffix ?kept (cr_pushed r)" "subseq (cr_read r @ ?kept) (cr_pushed r)"
      "length ?kept < CONSOLE_INPUT_CAPACITY"
    using inv suffix_tlI subseq_drop_middle by (auto simp: console_inv_def CONSOLE_INPUT_CAPACITY_def)
  moreover have "suffix (xs @ [b]) (ys @ [b])" if "suffix xs ys" for xs ys :: bytes
    using that by simp
  moreover have "subseq (xs @ [b]) (ys @ [b])" if "subseq xs ys" for xs ys :: bytes
    using that by (simp add: list_emb_append_mono)
  ultimately show ?thesis
    using inv by (simp add: console_inv_def push_byte_def Let_def flip: append_assoc)
qed

lemma read_bytes_inv: "console_inv r \<Longrightarrow> console_inv (console_step r (ReadBytes n lb))"
proof (cases "read_bytes (cr_console r) n lb")
  case (Pair out c)
  assume inv: "console_inv r"
  note s = read_bytes_split [OF Pair, symmetric]
  show ?thesis
    using inv Pair read_bytes_capacity [OF Pair] unfolding console_inv_def s
    by (auto dest: suffix_appendD)
qed

interpretation console: op_system console_step console_inv
proof
  fix r x
  assume "console_inv r"
  then show "console_inv (console_step r x)"
    by (cases x) (auto intro: push_byte_inv read_bytes_inv simp del: console_step.simps)
qed

text \<open>
  In every run of pushes and reads the buffer is within its capacity and holds the newest bytes
  pushed, and the bytes read, then the buffered ones, are the pushed ones in their order.
\<close>

lemma console_stream: "console_inv (foldl console_step console_start ops)"
  by (rule console.inv_run)
    (simp add: console_inv_def console_start_def console_new_def)

end
