(* ===== verification/Syscalls.thy ===== *)
theory Syscalls
  imports Pipe Fd_Table Process_Table Console_Input Vfs
begin

text \<open>
  The system-call handlers, \<open>nexacore-kernel/src/syscall_handlers.rs\<close>: \<open>KernelState\<close> bundles the
  descriptor table, the pipe registry, the console buffer, the file system and the process table,
  and each \<open>handle_*\<close> method composes their operations. A handler's result is the two-register
  \<open>SyscallReturn\<close> of \<open>syscall.rs\<close>, the bytes it hands out, and the new state; \<open>usize\<close> is 64 bits
  wide, so the conversions between lengths and registers keep their value. A write can panic in
  \<open>Vec::resize\<close>; that is the value \<open>None\<close>.

  Shown here: every handler keeps the state well formed; what is written through a descriptor is
  read back after a seek; reads are bounded; and three places where the handlers fall short of
  what their comments or the descriptor flags promise.
\<close>

section \<open>Return values\<close>

record syscall_return =
  rax :: u64
  rdx :: u64

definition sys_ok :: "u64 \<Rightarrow> syscall_return" where
  "sys_ok v = \<lparr>rax = v, rdx = 0\<rparr>"

definition sys_err :: "u64 \<Rightarrow> syscall_return" where
  "sys_err errno = \<lparr>rax = 0, rdx = errno\<rparr>"

definition ENOENT :: u64 where "ENOENT = 2"
definition EINVAL :: u64 where "EINVAL = 22"
definition ENOSPC :: u64 where "ENOSPC = 28"
definition ENOSYS :: u64 where "ENOSYS = 38"
definition EEXIST :: u64 where "EEXIST = 17"
definition EIO :: u64 where "EIO = 5"
definition EBADF :: u64 where "EBADF = 9"
definition EPIPE :: u64 where "EPIPE = 32"
definition ESPIPE :: u64 where "ESPIPE = 29"
definition ESRCH :: u64 where "ESRCH = 3"
definition ENOTEMPTY :: u64 where "ENOTEMPTY = 39"

lemmas errno_defs = ENOENT_def EINVAL_def ENOSPC_def ENOSYS_def EEXIST_def EIO_def EBADF_def
  EPIPE_def ESPIPE_def ESRCH_def ENOTEMPTY_def

definition MAX_READ_LEN :: nat where "MAX_READ_LEN = 2 ^ 20"

section \<open>The state\<close>

record kernel_state =
  ks_fds :: fd_table
  ks_pipes :: pipe_registry
  ks_console :: console_input
  ks_vfs :: vfs
  ks_procs :: process_table
  ks_current :: task_id

definition new_for_test :: kernel_state where
  "new_for_test =
     \<lparr>ks_fds = new_with_stdio, ks_pipes = pipe_registry_new, ks_console = console_new,
      ks_vfs = vfs_new, ks_procs = register process_table_new (TaskId 1) None ''test'',
      ks_current = TaskId 1\<rparr>"

definition cwd_of :: "kernel_state \<Rightarrow> string" where
  "cwd_of k = (case get_cwd (ks_procs k) (ks_current k) of None \<Rightarrow> ''/'' | Some s \<Rightarrow> s)"

definition ks_resolve :: "kernel_state \<Rightarrow> string \<Rightarrow> string" where
  "ks_resolve k path = normalize_path (cwd_of k) path"

section \<open>Console and pipes\<close>

definition handle_read_console :: "kernel_state \<Rightarrow> u64 \<Rightarrow> syscall_return \<times> kernel_state" where
  "handle_read_console k buf_capacity =
     (case read_bytes (ks_console k) (min (unat buf_capacity) MAX_READ_LEN) True of
        (out, c) \<Rightarrow> (sys_ok (of_nat (length out)), k\<lparr>ks_console := c\<rparr>))"

definition pipe_fd :: "pipe_id \<Rightarrow> bool \<Rightarrow> file_descriptor" where
  "pipe_fd i is_read_end = \<lparr>fd_kind_of = PipeEnd (pipe_raw i) is_read_end, fd_flags_of = fd_flags_default\<rparr>"

definition handle_pipe_create :: "kernel_state \<Rightarrow> syscall_return \<times> kernel_state" where
  "handle_pipe_create k =
     (case pipe_create (ks_pipes k) of (i, g) \<Rightarrow>
        (case fd_open (ks_fds k) (pipe_fd i True) of
           (Inl _, t) \<Rightarrow> (sys_err ENOSPC, k\<lparr>ks_fds := t, ks_pipes := snd (pipe_remove g i)\<rparr>)
         | (Inr rfd, t) \<Rightarrow>
             (case fd_open t (pipe_fd i False) of
                (Inl _, t2) \<Rightarrow>
                  (sys_err ENOSPC, k\<lparr>ks_fds := snd (fd_close t2 rfd), ks_pipes := snd (pipe_remove g i)\<rparr>)
              | (Inr wfd, t2) \<Rightarrow>
                  (\<lparr>rax = ucast (fd_raw rfd), rdx = ucast (fd_raw wfd)\<rparr>, k\<lparr>ks_fds := t2, ks_pipes := g\<rparr>))))"

section \<open>Descriptor I/O\<close>

fun set_offset :: "u64 \<Rightarrow> file_descriptor \<Rightarrow> file_descriptor" where
  "set_offset pos d =
     (case fd_kind_of d of FsFile i _ f \<Rightarrow> d\<lparr>fd_kind_of := FsFile i pos f\<rparr> | _ \<Rightarrow> d)"

definition handle_fd_read :: "kernel_state \<Rightarrow> u32 \<Rightarrow> u64 \<Rightarrow> (syscall_return \<times> bytes) \<times> kernel_state" where
  "handle_fd_read k fd max_len =
     (case fd_get (ks_fds k) (RawFd fd) of
        None \<Rightarrow> ((sys_err EBADF, []), k)
      | Some desc \<Rightarrow>
          let max = min (unat max_len) MAX_READ_LEN in
          (case fd_kind_of desc of
             Console readable _ \<Rightarrow>
               if \<not> readable then ((sys_err EBADF, []), k)
               else (case read_bytes (ks_console k) max True of (out, c) \<Rightarrow>
                       ((sys_ok (of_nat (length out)), out), k\<lparr>ks_console := c\<rparr>))
           | PipeEnd pipe_id is_read_end \<Rightarrow>
               if \<not> is_read_end then ((sys_err EBADF, []), k)
               else (case pipe_get (ks_pipes k) (PipeId pipe_id) of
                       None \<Rightarrow> ((sys_err EBADF, []), k)
                     | Some ring \<Rightarrow>
                         (case pipe_read ring (replicate max 0) of
                            (Inl BrokenPipe, _, r) \<Rightarrow>
                              ((sys_err EPIPE, []),
                               k\<lparr>ks_pipes := pipe_get_mut (ks_pipes k) (PipeId pipe_id) (\<lambda>_. r)\<rparr>)
                          | (Inr n, buf, r) \<Rightarrow>
                              ((sys_ok (of_nat n), take n buf),
                               k\<lparr>ks_pipes := pipe_get_mut (ks_pipes k) (PipeId pipe_id) (\<lambda>_. r)\<rparr>)))
           | FsFile inode offset _ \<Rightarrow>
               (case read_file (ks_vfs k) inode offset max of
                  Inr out \<Rightarrow>
                    ((sys_ok (of_nat (length out)), out),
                     k\<lparr>ks_fds := fd_get_mut (ks_fds k) (RawFd fd)
                         (set_offset (saturating_add offset (of_nat (length out))))\<rparr>)
                | Inl NotFound \<Rightarrow> ((sys_err ENOENT, []), k)
                | Inl _ \<Rightarrow> ((sys_err EIO, []), k))
           | IpcChannelFd _ \<Rightarrow> ((sys_err ENOSYS, []), k)))"

definition handle_fd_write :: "kernel_state \<Rightarrow> u32 \<Rightarrow> bytes \<Rightarrow> (syscall_return \<times> kernel_state) option" where
  "handle_fd_write k fd data =
     (case fd_get (ks_fds k) (RawFd fd) of
        None \<Rightarrow> Some (sys_err EBADF, k)
      | Some desc \<Rightarrow>
          (case fd_kind_of desc of
             Console _ writable \<Rightarrow>
               Some (if \<not> writable then sys_err EBADF else sys_ok (of_nat (length data)), k)
           | PipeEnd pipe_id is_read_end \<Rightarrow>
               if is_read_end then Some (sys_err EBADF, k)
               else (case pipe_get (ks_pipes k) (PipeId pipe_id) of
                       None \<Rightarrow> Some (sys_err EBADF, k)
                     | Some ring \<Rightarrow>
                         (case pipe_write ring data of (res, r) \<Rightarrow>
                            Some (case res of Inr n \<Rightarrow> sys_ok (of_nat n) | Inl BrokenPipe \<Rightarrow> sys_err EPIPE,
                              k\<lparr>ks_pipes := pipe_get_mut (ks_pipes k) (PipeId pipe_id) (\<lambda>_. r)\<rparr>)))
           | FsFile inode offset flags \<Rightarrow>
               let write_offset =
                     (if has_append flags
                      then (case file_size (ks_vfs k) inode of Inr n \<Rightarrow> n | Inl _ \<Rightarrow> offset)
                      else offset)
               in (case write_file (ks_vfs k) inode write_offset data of
                     None \<Rightarrow> None
                   | Some (Inr n, v) \<Rightarrow>
                       Some (sys_ok (of_nat n),
                         k\<lparr>ks_vfs := v,
                           ks_fds := fd_get_mut (ks_fds k) (RawFd fd)
                             (set_offset (saturating_add write_offset (of_nat n)))\<rparr>)
                   | Some (Inl NotFound, v) \<Rightarrow> Some (sys_err ENOENT, k\<lparr>ks_vfs := v\<rparr>)
                   | Some (Inl _, v) \<Rightarrow> Some (sys_err EIO, k\<lparr>ks_vfs := v\<rparr>))
           | IpcChannelFd _ \<Rightarrow> Some (sys_err ENOSYS, k)))"

section \<open>Descriptor management\<close>

text \<open>Closing one end of a pipe; the tasks it wakes are dropped by both callers.\<close>

definition close_pipe_end :: "pipe_registry \<Rightarrow> fd_kind \<Rightarrow> pipe_registry" where
  "close_pipe_end g kind =
     (case kind of
        PipeEnd pipe_id is_read_end \<Rightarrow>
          pipe_get_mut g (PipeId pipe_id)
            (\<lambda>ring. snd (if is_read_end then close_read ring else close_write ring))
      | _ \<Rightarrow> g)"

definition handle_fd_close :: "kernel_state \<Rightarrow> u32 \<Rightarrow> syscall_return \<times> kernel_state" where
  "handle_fd_close k fd =
     (case fd_get (ks_fds k) (RawFd fd) of
        None \<Rightarrow> (sys_err EBADF, k)
      | Some desc \<Rightarrow>
          let k1 = k\<lparr>ks_pipes := close_pipe_end (ks_pipes k) (fd_kind_of desc)\<rparr>
          in (case fd_close (ks_fds k1) (RawFd fd) of
                (Inr _, t) \<Rightarrow> (sys_ok 0, k1\<lparr>ks_fds := t\<rparr>)
              | (Inl _, t) \<Rightarrow> (sys_err EBADF, k1\<lparr>ks_fds := t\<rparr>)))"

definition handle_fd_dup :: "kernel_state \<Rightarrow> u32 \<Rightarrow> syscall_return \<times> kernel_state" where
  "handle_fd_dup k fd =
     (case fd_dup (ks_fds k) (RawFd fd) of
        (Inl _, t) \<Rightarrow> (sys_err EBADF, k\<lparr>ks_fds := t\<rparr>)
      | (Inr new_fd, t) \<Rightarrow> (sys_ok (ucast (fd_raw new_fd)), k\<lparr>ks_fds := t\<rparr>))"

definition handle_fd_dup2 :: "kernel_state \<Rightarrow> u32 \<Rightarrow> u32 \<Rightarrow> syscall_return \<times> kernel_state" where
  "handle_fd_dup2 k old_fd new_fd =
     (let k1 = (case fd_get (ks_fds k) (RawFd new_fd) of
                  None \<Rightarrow> k
                | Some existing \<Rightarrow> k\<lparr>ks_pipes := close_pipe_end (ks_pipes k) (fd_kind_of existing)\<rparr>)
      in case fd_dup2 (ks_fds k1) (RawFd old_fd) (RawFd new_fd) of
           (Inl _, t) \<Rightarrow> (sys_err EBADF, k1\<lparr>ks_fds := t\<rparr>)
         | (Inr r, t) \<Rightarrow> (sys_ok (ucast (fd_raw r)), k1\<lparr>ks_fds := t\<rparr>))"

text \<open>\<open>i64::try_from(u64)\<close> saturated, \<open>i64::checked_add\<close>, and \<open>u64::try_from(i64)\<close>.\<close>

definition to_i64 :: "u64 \<Rightarrow> int" where
  "to_i64 u = min (int (unat u)) (2 ^ 63 - 1)"

definition i64_add :: "int \<Rightarrow> int \<Rightarrow> int option" where
  "i64_add a b = (if - (2 ^ 63) \<le> a + b \<and> a + b < 2 ^ 63 then Some (a + b) else None)"

definition to_u64 :: "int \<Rightarrow> u64 option" where
  "to_u64 i = (if 0 \<le> i then Some (of_int i) else None)"

text \<open>The seek target; \<open>Inl\<close> is an early return with that error.\<close>

definition seek_target :: "vfs \<Rightarrow> u64 \<Rightarrow> u64 \<Rightarrow> 64 word \<Rightarrow> u32 \<Rightarrow> u64 + u64 option" where
  "seek_target v inode current_offset offset whence =
     (if whence = 0 then Inr (if sint offset < 0 then None else to_u64 (sint offset))
      else if whence = 1 then Inr (Option.bind (i64_add (to_i64 current_offset) (sint offset)) to_u64)
      else if whence = 2 then
        (case file_size v inode of
           Inl _ \<Rightarrow> Inl EIO
         | Inr file_len \<Rightarrow> Inr (Option.bind (i64_add (to_i64 file_len) (sint offset)) to_u64))
      else Inl EINVAL)"

definition handle_fd_seek :: "kernel_state \<Rightarrow> u32 \<Rightarrow> 64 word \<Rightarrow> u32 \<Rightarrow> syscall_return \<times> kernel_state" where
  "handle_fd_seek k fd offset whence =
     (case fd_get (ks_fds k) (RawFd fd) of
        None \<Rightarrow> (sys_err EBADF, k)
      | Some desc \<Rightarrow>
          (case fd_kind_of desc of
             FsFile inode current_offset _ \<Rightarrow>
               (case seek_target (ks_vfs k) inode current_offset offset whence of
                  Inl e \<Rightarrow> (sys_err e, k)
                | Inr None \<Rightarrow> (sys_err EINVAL, k)
                | Inr (Some pos) \<Rightarrow>
                    (sys_ok pos, k\<lparr>ks_fds := fd_get_mut (ks_fds k) (RawFd fd) (set_offset pos)\<rparr>))
           | _ \<Rightarrow> (sys_err ESPIPE, k)))"

section \<open>Files and directories\<close>

definition open_fd_for_inode :: "kernel_state \<Rightarrow> u64 \<Rightarrow> open_flags \<Rightarrow> syscall_return \<times> kernel_state" where
  "open_fd_for_inode k inode flags =
     (case fd_open (ks_fds k) \<lparr>fd_kind_of = FsFile inode 0 flags, fd_flags_of = fd_flags_default\<rparr> of
        (Inl _, t) \<Rightarrow> (sys_err ENOSPC, k\<lparr>ks_fds := t\<rparr>)
      | (Inr fd, t) \<Rightarrow> (sys_ok (ucast (fd_raw fd)), k\<lparr>ks_fds := t\<rparr>))"

text \<open>The creation branch of \<open>handle_fs_open\<close>: the inode to open, or an early return.\<close>

definition open_created :: "kernel_state \<Rightarrow> string \<Rightarrow> (u64 + u64) \<times> kernel_state" where
  "open_created k path =
     (case create_file (ks_vfs k) path of
        (Inr i, v) \<Rightarrow> (Inr i, k\<lparr>ks_vfs := v\<rparr>)
      | (Inl AlreadyExists, v) \<Rightarrow>
          (case vfs_stat v path of
             Inr st \<Rightarrow> (Inr (st_inode st), k\<lparr>ks_vfs := v\<rparr>)
           | Inl _ \<Rightarrow> (Inl EIO, k\<lparr>ks_vfs := v\<rparr>))
      | (Inl NotADirectory, v) \<Rightarrow> (Inl EINVAL, k\<lparr>ks_vfs := v\<rparr>)
      | (Inl InvalidPath, v) \<Rightarrow> (Inl EINVAL, k\<lparr>ks_vfs := v\<rparr>)
      | (Inl _, v) \<Rightarrow> (Inl EIO, k\<lparr>ks_vfs := v\<rparr>))"

definition handle_fs_open :: "kernel_state \<Rightarrow> string \<Rightarrow> u32 \<Rightarrow> syscall_return \<times> kernel_state" where
  "handle_fs_open k path flags =
     (let abs = ks_resolve k path; oflags = OpenFlags flags
      in case vfs_stat (ks_vfs k) abs of
           Inr st \<Rightarrow>
             if st_file_type st = Directory \<and> (is_writable oflags \<or> has_trunc oflags)
             then (sys_err EINVAL, k)
             else if has_trunc oflags \<and> is_writable oflags then
               (let k1 = k\<lparr>ks_vfs := snd (vfs_delete (ks_vfs k) abs)\<rparr>
                in case create_file (ks_vfs k1) abs of
                     (Inr i, v) \<Rightarrow> open_fd_for_inode (k1\<lparr>ks_vfs := v\<rparr>) i oflags
                   | (Inl _, v) \<Rightarrow> (sys_err EIO, k1\<lparr>ks_vfs := v\<rparr>))
             else open_fd_for_inode k (st_inode st) oflags
         | Inl NotFound \<Rightarrow>
             if has_create oflags
             then (case open_created k abs of
                     (Inl e, k1) \<Rightarrow> (sys_err e, k1)
                   | (Inr i, k1) \<Rightarrow> open_fd_for_inode k1 i oflags)
             else (sys_err ENOENT, k)
         | Inl NotADirectory \<Rightarrow> (sys_err EINVAL, k)
         | Inl _ \<Rightarrow> (sys_err EIO, k))"

definition handle_fs_stat :: "kernel_state \<Rightarrow> string \<Rightarrow> syscall_return \<times> (u64 \<times> u64 \<times> u8) option" where
  "handle_fs_stat k path =
     (case vfs_stat (ks_vfs k) (ks_resolve k path) of
        Inr st \<Rightarrow> (sys_ok 0, Some (st_inode st, st_size st, (case st_file_type st of RegularFile \<Rightarrow> 0 | Directory \<Rightarrow> 1)))
      | Inl NotFound \<Rightarrow> (sys_err ENOENT, None)
      | Inl _ \<Rightarrow> (sys_err EIO, None))"

definition handle_fs_list_dir :: "kernel_state \<Rightarrow> string \<Rightarrow> syscall_return \<times> string list" where
  "handle_fs_list_dir k path =
     (case list_directory (ks_vfs k) (ks_resolve k path) of
        Inr es \<Rightarrow> (sys_ok (of_nat (length es)), map de_name es)
      | Inl NotFound \<Rightarrow> (sys_err ENOENT, [])
      | Inl NotADirectory \<Rightarrow> (sys_err EINVAL, [])
      | Inl _ \<Rightarrow> (sys_err EIO, []))"

text \<open>The errors of \<open>handle_fs_create\<close> and \<open>handle_fs_mkdir\<close>.\<close>

fun create_errno :: "vfs_error \<Rightarrow> u64" where
  "create_errno AlreadyExists = EEXIST"
| "create_errno NotFound = ENOENT"
| "create_errno NotADirectory = EINVAL"
| "create_errno InvalidPath = EINVAL"
| "create_errno _ = EIO"

fun delete_errno :: "vfs_error \<Rightarrow> u64" where
  "delete_errno NotFound = ENOENT"
| "delete_errno NotEmpty = ENOTEMPTY"
| "delete_errno InvalidPath = EINVAL"
| "delete_errno _ = EIO"

definition handle_fs_create :: "kernel_state \<Rightarrow> string \<Rightarrow> syscall_return \<times> kernel_state" where
  "handle_fs_create k path =
     (case create_file (ks_vfs k) (ks_resolve k path) of (res, v) \<Rightarrow>
        (case res of Inr _ \<Rightarrow> sys_ok 0 | Inl e \<Rightarrow> sys_err (create_errno e), k\<lparr>ks_vfs := v\<rparr>))"

definition handle_fs_delete :: "kernel_state \<Rightarrow> string \<Rightarrow> syscall_return \<times> kernel_state" where
  "handle_fs_delete k path =
     (case vfs_delete (ks_vfs k) (ks_resolve k path) of (res, v) \<Rightarrow>
        (case res of Inr _ \<Rightarrow> sys_ok 0 | Inl e \<Rightarrow> sys_err (delete_errno e), k\<lparr>ks_vfs := v\<rparr>))"

definition handle_fs_mkdir :: "kernel_state \<Rightarrow> string \<Rightarrow> syscall_return \<times> kernel_state" where
  "handle_fs_mkdir k path =
     (case create_directory (ks_vfs k) (ks_resolve k path) of (res, v) \<Rightarrow>
        (case res of Inr _ \<Rightarrow> sys_ok 0 | Inl e \<Rightarrow> sys_err (create_errno e), k\<lparr>ks_vfs := v\<rparr>))"

section \<open>Processes\<close>

definition handle_get_cwd :: "kernel_state \<Rightarrow> syscall_return \<times> string" where
  "handle_get_cwd k = (sys_ok (of_nat (length (cwd_of k))), cwd_of k)"

definition handle_set_cwd :: "kernel_state \<Rightarrow> string \<Rightarrow> syscall_return \<times> kernel_state" where
  "handle_set_cwd k path =
     (let abs = ks_resolve k path
      in case vfs_stat (ks_vfs k) abs of
           Inr st \<Rightarrow>
             if st_file_type st \<noteq> Directory then (sys_err EINVAL, k)
             else (sys_ok 0, k\<lparr>ks_procs := snd (set_cwd (ks_procs k) (ks_current k) abs)\<rparr>)
         | Inl NotFound \<Rightarrow> (sys_err ENOENT, k)
         | Inl _ \<Rightarrow> (sys_err EIO, k))"

definition handle_process_wait :: "kernel_state \<Rightarrow> u64 \<Rightarrow> u64 \<Rightarrow> syscall_return \<times> kernel_state" where
  "handle_process_wait k child_pid flags =
     (case reap_child (ks_procs k) (ks_current k) of
        (Some (child_id, code), t) \<Rightarrow> (\<lparr>rax = code, rdx = task_raw child_id\<rparr>, k\<lparr>ks_procs := t\<rparr>)
      | (None, t) \<Rightarrow> (\<lparr>rax = 0, rdx = 0\<rparr>, k\<lparr>ks_procs := t\<rparr>))"

definition handle_process_list :: "kernel_state \<Rightarrow> syscall_return \<times> (u64 \<times> string \<times> bool) list" where
  "handle_process_list k =
     (let es = map (\<lambda>e. (task_raw (pe_id e), pe_name e, pe_exit_code e \<noteq> None)) (process_list (ks_procs k))
      in (sys_ok (of_nat (length es)), es))"

definition handle_process_kill :: "kernel_state \<Rightarrow> u64 \<Rightarrow> syscall_return \<times> kernel_state" where
  "handle_process_kill k target_pid =
     (case process_get (ks_procs k) (TaskId target_pid) of
        None \<Rightarrow> (sys_err ESRCH, k)
      | Some _ \<Rightarrow> (sys_ok 0, k\<lparr>ks_procs := snd (record_exit (ks_procs k) (TaskId target_pid) 137)\<rparr>))"

section \<open>Runs\<close>

text \<open>
  A run interleaves the handlers of whichever task is current with what other parts of the kernel
  do to the shared state: key presses, process registration and task switches.
\<close>

datatype sys_op =
    SysReadConsole u64
  | SysPipeCreate
  | SysRead u32 u64
  | SysWrite u32 bytes
  | SysClose u32
  | SysDup u32
  | SysDup2 u32 u32
  | SysSeek u32 "64 word" u32
  | SysOpen string u32
  | SysCreate string
  | SysDelete string
  | SysMkdir string
  | SysSetCwd string
  | SysWait u64 u64
  | SysKill u64
  | KeyPress u8
  | Spawn task_id "task_id option" string
  | SwitchTo task_id fd_table

fun sys_step :: "kernel_state \<Rightarrow> sys_op \<Rightarrow> kernel_state" where
  "sys_step k (SysReadConsole n) = snd (handle_read_console k n)"
| "sys_step k SysPipeCreate = snd (handle_pipe_create k)"
| "sys_step k (SysRead fd n) = snd (handle_fd_read k fd n)"
| "sys_step k (SysWrite fd d) = (case handle_fd_write k fd d of None \<Rightarrow> k | Some (_, k') \<Rightarrow> k')"
| "sys_step k (SysClose fd) = snd (handle_fd_close k fd)"
| "sys_step k (SysDup fd) = snd (handle_fd_dup k fd)"
| "sys_step k (SysDup2 a b) = snd (handle_fd_dup2 k a b)"
| "sys_step k (SysSeek fd off w) = snd (handle_fd_seek k fd off w)"
| "sys_step k (SysOpen p f) = snd (handle_fs_open k p f)"
| "sys_step k (SysCreate p) = snd (handle_fs_create k p)"
| "sys_step k (SysDelete p) = snd (handle_fs_delete k p)"
| "sys_step k (SysMkdir p) = snd (handle_fs_mkdir k p)"
| "sys_step k (SysSetCwd p) = snd (handle_set_cwd k p)"
| "sys_step k (SysWait c f) = snd (handle_process_wait k c f)"
| "sys_step k (SysKill p) = snd (handle_process_kill k p)"
| "sys_step k (KeyPress b) = k\<lparr>ks_console := push_byte (ks_console k) b\<rparr>"
| "sys_step k (Spawn i parent nm) = k\<lparr>ks_procs := register (ks_procs k) i parent nm\<rparr>"
| "sys_step k (SwitchTo i t) = k\<lparr>ks_current := i, ks_fds := t\<rparr>"

section \<open>The state invariant\<close>

definition vfs_ok :: "vfs \<Rightarrow> bool" where
  "vfs_ok v \<longleftrightarrow> next_inode v = - 1 \<or> vfs_inv v"

definition pipes_ok :: "pipe_registry \<Rightarrow> bool" where
  "pipes_ok g \<longleftrightarrow> (\<forall>i r. fmlookup (preg_pipes g) i = Some r \<longrightarrow>
     pr_capacity r = PIPE_CAPACITY \<and> length (pr_buffer r) \<le> PIPE_CAPACITY)"

definition console_ok :: "console_input \<Rightarrow> bool" where
  "console_ok c \<longleftrightarrow> ci_capacity c = CONSOLE_INPUT_CAPACITY \<and> length (ci_buffer c) \<le> CONSOLE_INPUT_CAPACITY"

definition canonical :: "string \<Rightarrow> bool" where
  "canonical s \<longleftrightarrow> (\<exists>cs. list_all valid_name cs \<and> s = path_string cs)"

definition procs_ok :: "process_table \<Rightarrow> bool" where
  "procs_ok t \<longleftrightarrow> (\<forall>i e. fmlookup (pt_entries t) i = Some e \<longrightarrow> canonical (pe_cwd e))"

definition ks_inv :: "kernel_state \<Rightarrow> bool" where
  "ks_inv k \<longleftrightarrow> vfs_ok (ks_vfs k) \<and> pipes_ok (ks_pipes k) \<and> console_ok (ks_console k) \<and> procs_ok (ks_procs k)"

lemma ks_invD:
  assumes "ks_inv k"
  shows "vfs_ok (ks_vfs k)" "pipes_ok (ks_pipes k)" "console_ok (ks_console k)" "procs_ok (ks_procs k)"
  using assms by (simp_all add: ks_inv_def)

named_theorems keeps \<open>operations that keep a component well formed\<close>

lemma vfs_ok_step: "vfs_ok v \<Longrightarrow> vfs_ok (vfs_step v x)"
  unfolding vfs_ok_def by (rule vfs_sys.inv_step)

lemma vfs_ok_create [keeps]:
  "vfs_ok v \<Longrightarrow> create_file v p = (res, v') \<Longrightarrow> vfs_ok v'"
  "vfs_ok v \<Longrightarrow> create_directory v p = (res, v') \<Longrightarrow> vfs_ok v'"
  using vfs_ok_step [of v "VCreate RegularFile p"] vfs_ok_step [of v "VCreate Directory p"]
  by (simp_all add: create_file_def create_directory_def)

lemma vfs_ok_delete [keeps]:
  "vfs_ok v \<Longrightarrow> vfs_delete v p = (res, v') \<Longrightarrow> vfs_ok v'" "vfs_ok v \<Longrightarrow> vfs_ok (snd (vfs_delete v p))"
  using vfs_ok_step [of v "VDelete p"] by simp_all

lemma vfs_ok_write [keeps]: "vfs_ok v \<Longrightarrow> write_file v i off d = Some (res, v') \<Longrightarrow> vfs_ok v'"
  using vfs_ok_step [of v "VWrite i off d"] by simp

lemma pipes_ok_mut:
  "pipes_ok g \<Longrightarrow> (\<And>r. fmlookup (preg_pipes g) (pipe_raw i) = Some r \<Longrightarrow>
      pr_capacity (f r) = PIPE_CAPACITY \<and> length (pr_buffer (f r)) \<le> PIPE_CAPACITY) \<Longrightarrow>
   pipes_ok (pipe_get_mut g i f)"
  by (auto simp: pipes_ok_def pipe_get_mut_def split: option.splits if_splits)

lemma pipes_ok_create [keeps]: "pipes_ok g \<Longrightarrow> pipe_create g = (i, g') \<Longrightarrow> pipes_ok g'"
  by (auto simp: pipe_create_def pipes_ok_def pipe_ring_new_def Let_def split: if_splits)

lemma pipes_ok_remove [keeps]: "pipes_ok g \<Longrightarrow> pipes_ok (snd (pipe_remove g i))"
  by (auto simp: pipe_remove_def pipes_ok_def split: if_splits)

lemma pipes_ok_close [keeps]: "pipes_ok g \<Longrightarrow> pipes_ok (close_pipe_end g kind)"
  by (cases kind)
    (auto simp: close_pipe_end_def intro!: pipes_ok_mut simp: close_read_def close_write_def
      drain_read_waiters_def drain_write_waiters_def, auto simp: pipes_ok_def)

lemma pipes_ok_read [keeps]:
  assumes "pipes_ok g" "pipe_get g i = Some ring" "pipe_read ring buf = (res, buf', r)"
  shows "pipes_ok (pipe_get_mut g i (\<lambda>_. r))"
proof (rule pipes_ok_mut [OF assms(1)])
  fix r' assume "fmlookup (preg_pipes g) (pipe_raw i) = Some r'"
  with assms(1,2) have ring: "pr_capacity ring = PIPE_CAPACITY" "length (pr_buffer ring) \<le> PIPE_CAPACITY"
    by (auto simp: pipe_get_def pipes_ok_def)
  with assms(3) show "pr_capacity r = PIPE_CAPACITY \<and> length (pr_buffer r) \<le> PIPE_CAPACITY"
    by (auto simp: pipe_read_def Let_def split: if_splits)
qed

lemma pipes_ok_write [keeps]:
  assumes "pipes_ok g" "pipe_get g i = Some ring" "pipe_write ring data = (res, r)"
  shows "pipes_ok (pipe_get_mut g i (\<lambda>_. r))"
proof (rule pipes_ok_mut [OF assms(1)])
  fix r' assume "fmlookup (preg_pipes g) (pipe_raw i) = Some r'"
  with assms(1,2) have ring: "pr_capacity ring = PIPE_CAPACITY" "length (pr_buffer ring) \<le> PIPE_CAPACITY"
    by (auto simp: pipe_get_def pipes_ok_def)
  with assms(3) show "pr_capacity r = PIPE_CAPACITY \<and> length (pr_buffer r) \<le> PIPE_CAPACITY"
    by (auto simp: pipe_write_def Let_def split: if_splits)
qed

lemma console_ok_read [keeps]: "console_ok c \<Longrightarrow> read_bytes c n lb = (out, c') \<Longrightarrow> console_ok c'"
  using read_bytes_split [of c n lb out c'] read_bytes_capacity [of c n lb out c']
  by (auto simp: console_ok_def dest!: arg_cong [of _ _ length])

lemma console_ok_push [keeps]: "console_ok c \<Longrightarrow> console_ok (push_byte c b)"
  by (auto simp: console_ok_def push_byte_def CONSOLE_INPUT_CAPACITY_def)

lemma canonical_normalize: "canonical (normalize_path base path)"
  unfolding canonical_def normalize_path_eq
  using resolved_valid [of _ base path] by (auto simp: list_all_iff)

lemma canonical_root: "canonical ''/''"
  unfolding canonical_def by (rule exI [of _ "[]"]) (simp add: path_string_def)

lemma procs_ok_register [keeps]: "procs_ok t \<Longrightarrow> procs_ok (register t i parent nm)"
  by (auto simp: register_def procs_ok_def Let_def canonical_root split: option.splits if_splits)

lemma procs_ok_exit [keeps]: "procs_ok t \<Longrightarrow> procs_ok (snd (record_exit t i code))"
  by (auto simp: record_exit_def procs_ok_def split: option.splits if_splits)

lemma procs_ok_cwd [keeps]: "procs_ok t \<Longrightarrow> canonical s \<Longrightarrow> procs_ok (snd (set_cwd t i s))"
  by (auto simp: set_cwd_def procs_ok_def split: option.splits if_splits)

lemma procs_ok_reap [keeps]: "procs_ok t \<Longrightarrow> reap_child t i = (res, t') \<Longrightarrow> procs_ok t'"
  by (auto simp: reap_child_def procs_ok_def Let_def split: option.splits if_splits)

lemma open_fd_for_inode_inv: "ks_inv k \<Longrightarrow> ks_inv (snd (open_fd_for_inode k i f))"
  by (auto simp: open_fd_for_inode_def ks_inv_def split: prod.splits sum.splits)

lemma open_created_inv: "ks_inv k \<Longrightarrow> open_created k p = (res, k') \<Longrightarrow> ks_inv k'"
  by (auto simp: open_created_def ks_inv_def intro: keeps split: prod.splits sum.splits vfs_error.splits)

lemma handle_fs_open_inv: "ks_inv k \<Longrightarrow> ks_inv (snd (handle_fs_open k p f))"
  unfolding handle_fs_open_def Let_def
  by (auto intro!: open_fd_for_inode_inv dest: open_created_inv split: prod.splits sum.splits vfs_error.splits)
    (auto simp: ks_inv_def intro: keeps)

lemma handle_fd_read_inv: "ks_inv k \<Longrightarrow> ks_inv (snd (handle_fd_read k fd n))"
  unfolding handle_fd_read_def Let_def
  by (auto simp: ks_inv_def intro: keeps
      split: option.splits fd_kind.splits prod.splits sum.splits vfs_error.splits pipe_error.splits)

text \<open>Where a write to a file starts.\<close>

definition write_start :: "kernel_state \<Rightarrow> u64 \<Rightarrow> u64 \<Rightarrow> open_flags \<Rightarrow> u64" where
  "write_start k inode offset flags =
     (if has_append flags then (case file_size (ks_vfs k) inode of Inr n \<Rightarrow> n | Inl _ \<Rightarrow> offset) else offset)"

lemma handle_fd_write_file:
  assumes "fd_get (ks_fds k) (RawFd fd) = Some d" "fd_kind_of d = FsFile inode offset flags"
  shows "handle_fd_write k fd data =
    (case write_file (ks_vfs k) inode (write_start k inode offset flags) data of
       None \<Rightarrow> None
     | Some (Inr n, v) \<Rightarrow>
         Some (sys_ok (of_nat n),
           k\<lparr>ks_vfs := v, ks_fds := fd_get_mut (ks_fds k) (RawFd fd)
               (set_offset (saturating_add (write_start k inode offset flags) (of_nat n)))\<rparr>)
     | Some (Inl NotFound, v) \<Rightarrow> Some (sys_err ENOENT, k\<lparr>ks_vfs := v\<rparr>)
     | Some (Inl _, v) \<Rightarrow> Some (sys_err EIO, k\<lparr>ks_vfs := v\<rparr>))"
  unfolding handle_fd_write_def assms option.case fd_kind.case Let_def write_start_def [symmetric] ..

lemma handle_fd_write_inv:
  assumes inv: "ks_inv k" and w: "handle_fd_write k fd data = Some (res, k')"
  shows "ks_inv k'"
proof (cases "fd_get (ks_fds k) (RawFd fd)")
  case None
  with inv w show ?thesis by (simp add: handle_fd_write_def)
next
  case (Some d)
  show ?thesis
  proof (cases "fd_kind_of d")
    case (PipeEnd i e)
    with Some inv w show ?thesis
      by (auto simp: handle_fd_write_def ks_inv_def intro: keeps split: if_splits option.splits prod.splits)
  next
    case (FsFile inode offset flags)
    show ?thesis
    proof (cases "write_file (ks_vfs k) inode (write_start k inode offset flags) data")
      case None
      with w show ?thesis by (simp add: handle_fd_write_file [OF Some FsFile])
    next
      case w': (Some x)
      then have "vfs_ok (snd x)" using ks_invD(1) [OF inv] by (cases x) (auto intro: keeps)
      with w w' ks_invD [OF inv] show ?thesis
        by (cases x) (auto simp: handle_fd_write_file [OF Some FsFile] ks_inv_def split: sum.splits vfs_error.splits)
    qed
  qed (use Some inv w in \<open>auto simp: handle_fd_write_def\<close>)
qed

lemma handle_fd_inv:
  assumes "ks_inv k"
  shows "ks_inv (snd (handle_read_console k n))" "ks_inv (snd (handle_pipe_create k))"
    "ks_inv (snd (handle_fd_close k fd))" "ks_inv (snd (handle_fd_dup k fd))"
    "ks_inv (snd (handle_fd_dup2 k a b))" "ks_inv (snd (handle_fd_seek k fd off w))"
  using ks_invD [OF assms]
  by (auto simp: ks_inv_def handle_read_console_def handle_pipe_create_def handle_fd_close_def
      handle_fd_dup_def handle_fd_dup2_def handle_fd_seek_def Let_def intro: keeps
      split: prod.splits sum.splits option.splits fd_kind.splits)

lemma handle_fs_inv:
  assumes "ks_inv k"
  shows "ks_inv (snd (handle_fs_create k p))" "ks_inv (snd (handle_fs_delete k p))"
    "ks_inv (snd (handle_fs_mkdir k p))" "ks_inv (snd (handle_set_cwd k p))"
    "ks_inv (snd (handle_process_wait k c f))" "ks_inv (snd (handle_process_kill k t))"
  using ks_invD [OF assms]
  by (auto simp: ks_inv_def handle_fs_create_def handle_fs_delete_def handle_fs_mkdir_def
      handle_set_cwd_def handle_process_wait_def handle_process_kill_def ks_resolve_def Let_def
      intro: keeps canonical_normalize split: prod.splits sum.splits option.splits vfs_error.splits)

interpretation syscalls: op_system sys_step ks_inv
proof
  fix k x
  assume inv: "ks_inv k"
  note ok = ks_invD [OF inv]
  show "ks_inv (sys_step k x)"
  proof (cases x)
    case (SysWrite fd d)
    with inv show ?thesis by (auto dest: handle_fd_write_inv split: option.splits)
  next
    case (KeyPress b)
    with ok show ?thesis by (simp add: ks_inv_def console_ok_push)
  next
    case (Spawn i parent nm)
    with ok show ?thesis by (simp add: ks_inv_def procs_ok_register)
  next
    case (SwitchTo i t)
    with ok show ?thesis by (simp add: ks_inv_def)
  qed (simp_all add: inv handle_fd_inv handle_fs_inv handle_fs_open_inv handle_fd_read_inv)
qed

lemma new_for_test_inv: "ks_inv new_for_test"
proof -
  have "procs_ok process_table_new" by (simp add: procs_ok_def process_table_new_def)
  then show ?thesis
    by (simp add: ks_inv_def new_for_test_def vfs_ok_def vfs_new_inv procs_ok_register)
      (simp add: pipes_ok_def pipe_registry_new_def console_ok_def console_new_def)
qed

text \<open>
  C8. In every interleaving of system calls by any tasks with key presses, process registration
  and task switches, the shared kernel state stays well formed: the inode table is a tree (until
  its counter saturates), no pipe and not the console holds more than its capacity, and every
  working directory is a normalised absolute path.
\<close>

theorem syscall_state_invariant: "ks_inv (foldl sys_step new_for_test ops)"
  by (rule syscalls.inv_run) (rule new_for_test_inv)

section \<open>Reads and writes through a descriptor\<close>

lemma fd_get_mut_get:
  "fd_get t fd = Some d \<Longrightarrow> fd_get (fd_get_mut t fd f) fd = Some (f d)"
  by (simp add: fd_get_def fd_get_mut_def)

lemma set_offset_kind:
  "fd_kind_of d = FsFile i off f \<Longrightarrow> fd_kind_of (set_offset pos d) = FsFile i pos f"
  by simp

text \<open>
  C37. A read hands out at most the bytes asked for and at most the staging bound, reports exactly
  how many it hands out, and hands out none with an error.
\<close>

theorem fd_read_bounded:
  "case handle_fd_read k fd n of ((ret, out), k') \<Rightarrow>
     length out \<le> min (unat n) MAX_READ_LEN \<and> unat (rax ret) = length out \<and> (rdx ret = 0 \<or> out = [])"
proof -
  obtain ret out k' where fields: "handle_fd_read k fd n = ((ret, out), k')" by (metis prod.collapse)
  let ?m = "min (unat n) MAX_READ_LEN"
  have small: "unat (of_nat l :: u64) = l" if "l \<le> ?m" for l
    using that by (intro unat_of_nat_small) (simp add: MAX_READ_LEN_def)
  have con: "length (fst (read_bytes c ?m True)) \<le> ?m" for c
    using read_bytes_bound [of c ?m True] by (cases "read_bytes c ?m True") simp
  have pip: "j \<le> length b \<and> length b' = length b" if "pipe_read r b = (Inr j, b', r')" for r b j b' r'
    using that by (auto simp: pipe_read_def Let_def split: if_splits)
  have fil: "length o' \<le> ?m" if "read_file v i off ?m = Inr o'" for v i off o'
    using that by (auto simp: read_file_def Let_def split: option.splits if_splits)
  have "length out \<le> ?m \<and> rax ret = of_nat (length out) \<and> (rdx ret = 0 \<or> out = [])"
  proof (cases "fd_get (ks_fds k) (RawFd fd)")
    case None
    with fields show ?thesis by (auto simp: handle_fd_read_def sys_err_def)
  next
    case (Some d)
    show ?thesis
    proof (cases "fd_kind_of d")
      case (Console r w)
      with Some fields con [of "ks_console k"] show ?thesis
        by (auto simp: handle_fd_read_def sys_err_def sys_ok_def Let_def split: if_splits prod.splits)
    next
      case (PipeEnd i e)
      with Some fields show ?thesis
        by (auto simp: handle_fd_read_def sys_err_def sys_ok_def Let_def min_def
            split: if_splits option.splits prod.splits sum.splits pipe_error.splits dest!: pip)
    next
      case (FsFile i off f)
      with Some fields show ?thesis
        by (auto simp: handle_fd_read_def sys_err_def sys_ok_def Let_def
            split: sum.splits vfs_error.splits dest!: fil)
    next
      case (IpcChannelFd c)
      with Some fields show ?thesis by (auto simp: handle_fd_read_def sys_err_def)
    qed
  qed
  with fields small show ?thesis by simp
qed

text \<open>A descriptor open on a file of the tree.\<close>

definition fd_on_file :: "kernel_state \<Rightarrow> u32 \<Rightarrow> u64 \<Rightarrow> u64 \<Rightarrow> open_flags \<Rightarrow> string list \<Rightarrow> bytes \<Rightarrow> bool" where
  "fd_on_file k fd i off flags p content \<longleftrightarrow>
     (\<exists>d. fd_get (ks_fds k) (RawFd fd) = Some d \<and> fd_kind_of d = FsFile i off flags) \<and>
     vfs_inv (ks_vfs k) \<and> inode_at (ks_vfs k) p = Some i \<and> fs_of (ks_vfs k) p = Some (FileNode content)"

lemma fd_write_on_file:
  assumes on: "fd_on_file k fd i off flags p old" and data: "data \<noteq> []"
    and start: "start = write_start k i off flags" "unat start + length data \<le> ISIZE_MAX"
  obtains k' where "handle_fd_write k fd data = Some (sys_ok (of_nat (length data)), k')"
    "fd_on_file k' fd i (start + of_nat (length data)) flags p (spec_write old (unat start) data)"
    "fs_of (ks_vfs k') = (fs_of (ks_vfs k))(p \<mapsto> FileNode (spec_write old (unat start) data))"
proof -
  from on obtain d where d: "fd_get (ks_fds k) (RawFd fd) = Some d" "fd_kind_of d = FsFile i off flags"
    and v: "vfs_inv (ks_vfs k)" "inode_at (ks_vfs k) p = Some i" "fs_of (ks_vfs k) p = Some (FileNode old)"
    by (auto simp: fd_on_file_def)
  obtain v' where v': "write_file (ks_vfs k) i start data = Some (Inr (length data), v')" "vfs_inv v'"
      "fs_of v' = (fs_of (ks_vfs k))(p \<mapsto> FileNode (spec_write old (unat start) data))" "inode_at v' p = Some i"
    by (rule write_file_ok [OF v data start(2)])
  have l: "unat (of_nat (length data) :: u64) = length data"
    using start(2) by (intro unat_of_nat_small) (simp add: ISIZE_MAX_def)
  then have sat: "saturating_add start (of_nat (length data)) = start + of_nat (length data)"
    using start(2) by (simp add: saturating_add_def ISIZE_MAX_def)
  let ?k = "k\<lparr>ks_vfs := v', ks_fds := fd_get_mut (ks_fds k) (RawFd fd) (set_offset (start + of_nat (length data)))\<rparr>"
  have "handle_fd_write k fd data = Some (sys_ok (of_nat (length data)), ?k)"
    using v'(1) by (simp add: handle_fd_write_file [OF d] start(1) [symmetric] sat)
  moreover have "fd_on_file ?k fd i (start + of_nat (length data)) flags p (spec_write old (unat start) data)"
    using v' d by (simp add: fd_on_file_def fd_get_mut_get)
  ultimately show thesis using that [of ?k] v'(3) by simp
qed

lemma fd_seek_set_on_file:
  assumes "fd_on_file k fd i off flags p content" "unat pos < 2 ^ 63"
  obtains k' where "handle_fd_seek k fd pos 0 = (sys_ok pos, k')" "fd_on_file k' fd i pos flags p content"
    "ks_vfs k' = ks_vfs k"
proof -
  have "uint pos < 2 ^ 63"
    unfolding uint_nat using assms(2) by (metis of_nat_less_iff of_nat_numeral of_nat_power)
  moreover have "- (2 ^ 63) \<le> uint pos" by (rule order_trans [OF _ uint_ge_0]) simp
  ultimately have "sint pos = int (unat pos)"
    using signed_take_bit_int_eq_self [of 63 "uint pos"] by (simp add: sint_uint)
  then have "to_u64 (sint pos) = Some pos" "\<not> sint pos < 0" by (simp_all add: to_u64_def)
  with assms(1) that [of "k\<lparr>ks_fds := fd_get_mut (ks_fds k) (RawFd fd) (set_offset pos)\<rparr>"]
  show thesis by (auto simp: fd_on_file_def handle_fd_seek_def seek_target_def fd_get_mut_get)
qed

lemma fd_read_on_file:
  assumes "fd_on_file k fd i off flags p content"
  shows "fst (handle_fd_read k fd n) =
    (let out = take (min (unat n) MAX_READ_LEN) (drop (unat off) content) in (sys_ok (of_nat (length out)), out))"
proof -
  from assms have "read_file (ks_vfs k) i off (min (unat n) MAX_READ_LEN) =
      Inr (take (min (unat n) MAX_READ_LEN) (drop (unat off) content))"
    by (auto simp: fd_on_file_def intro: read_file_eq(1))
  with assms show ?thesis by (auto simp: fd_on_file_def handle_fd_read_def Let_def)
qed

text \<open>
  C38. On a file opened for reading and writing, writing through the descriptor, seeking back to
  where the write started and reading the same number of bytes gives the bytes written, and the
  file has changed by that write alone. The write starts at the offset, or at the end of the file
  in append mode. At most 1 MiB is read back at once, and the file stays within the largest
  vector.
\<close>

theorem write_seek_read_round_trip:
  assumes "fd_on_file k fd i off flags p old" "data \<noteq> []" "length data \<le> MAX_READ_LEN"
    and "is_readable flags" "is_writable flags"
    and "start = write_start k i off flags" "unat start + length data \<le> ISIZE_MAX"
  shows "\<exists>k1 k2. handle_fd_write k fd data = Some (sys_ok (of_nat (length data)), k1) \<and>
     handle_fd_seek k1 fd start 0 = (sys_ok start, k2) \<and>
     fst (handle_fd_read k2 fd (of_nat (length data))) = (sys_ok (of_nat (length data)), data) \<and>
     fs_of (ks_vfs k2) = (fs_of (ks_vfs k))(p \<mapsto> FileNode (spec_write old (unat start) data))"
proof -
  let ?d = "spec_write old (unat start) data"
  obtain k1 where k1: "handle_fd_write k fd data = Some (sys_ok (of_nat (length data)), k1)"
      "fd_on_file k1 fd i (start + of_nat (length data)) flags p ?d"
      "fs_of (ks_vfs k1) = (fs_of (ks_vfs k))(p \<mapsto> FileNode ?d)"
    by (rule fd_write_on_file [OF assms(1,2,6,7)])
  have "unat start < 2 ^ 63" using assms(2,7) by (simp add: ISIZE_MAX_def)
  then obtain k2 where k2: "handle_fd_seek k1 fd start 0 = (sys_ok start, k2)" "fd_on_file k2 fd i start flags p ?d"
      "ks_vfs k2 = ks_vfs k1"
    by (rule fd_seek_set_on_file [OF k1(2)])
  have "unat (of_nat (length data) :: u64) = length data"
    using assms(3) by (intro unat_of_nat_small) (simp add: MAX_READ_LEN_def)
  moreover have "take (length data) (drop (unat start) ?d) = data"
    by (rule nth_equalityI) (auto simp: spec_write_def)
  ultimately show ?thesis
    using k1 k2 assms(3) fd_read_on_file [OF k2(2), of "of_nat (length data)"] by (simp add: Let_def)
qed

section \<open>A state to run\<close>

text \<open>A state with one empty file \<open>/a\<close> open for reading and writing as descriptor 3.\<close>

definition demo_ks :: kernel_state where
  "demo_ks = new_for_test\<lparr>ks_vfs := demo_vfs,
     ks_fds := snd (fd_open new_with_stdio
       \<lparr>fd_kind_of = FsFile 2 0 (OpenFlags O_RDWR), fd_flags_of = fd_flags_default\<rparr>)\<rparr>"

lemma demo_ks_on_file: "fd_on_file demo_ks 3 2 0 (OpenFlags O_RDWR) [''a''] []"
proof -
  have "fd_scan (fdt_entries new_with_stdio) 3 = Some 3"
    by (subst fd_scan.simps) (simp add: new_with_stdio_def Let_def)
  then have "fd_get (ks_fds demo_ks) (RawFd 3) =
      Some \<lparr>fd_kind_of = FsFile 2 0 (OpenFlags O_RDWR), fd_flags_of = fd_flags_default\<rparr>"
    by (simp add: demo_ks_def fd_open_def fd_get_def) (simp add: new_with_stdio_def Let_def)
  with demo_vfs show ?thesis by (simp add: fd_on_file_def demo_ks_def)
qed

lemma demo_write_start: "write_start demo_ks 2 0 (OpenFlags O_RDWR) = 0"
  by (simp add: write_start_def has_append_def O_RDWR_def O_APPEND_def)

theorem write_seek_read_round_trip_witness:
  "\<exists>k1 k2. handle_fd_write demo_ks 3 [7, 8] = Some (sys_ok 2, k1) \<and> handle_fd_seek k1 3 0 0 = (sys_ok 0, k2) \<and>
     fst (handle_fd_read k2 3 2) = (sys_ok 2, [7, 8])"
  using write_seek_read_round_trip [OF demo_ks_on_file, of "[7, 8]" 0] demo_write_start
  by (auto simp: MAX_READ_LEN_def ISIZE_MAX_def is_readable_def is_writable_def O_RDWR_def ACCESS_MASK_def)

section \<open>Where the handlers fall short\<close>

text \<open>The access mode of a descriptor is not checked: a read-only one writes.\<close>

lemma fd_write_ignores_access_mode:
  assumes "fd_on_file k fd i off flags p old" "\<not> is_writable flags" "data \<noteq> []"
    "unat (write_start k i off flags) + length data \<le> ISIZE_MAX"
  shows "\<exists>k'. handle_fd_write k fd data = Some (sys_ok (of_nat (length data)), k') \<and>
     fs_of (ks_vfs k') p = Some (FileNode (spec_write old (unat (write_start k i off flags)) data))"
proof -
  obtain k' where "handle_fd_write k fd data = Some (sys_ok (of_nat (length data)), k')"
      "fs_of (ks_vfs k') = (fs_of (ks_vfs k))(p \<mapsto> FileNode (spec_write old (unat (write_start k i off flags)) data))"
    by (rule fd_write_on_file [OF assms(1,3) refl assms(4)])
  then show ?thesis by simp
qed

text \<open>
  C39. Two permitted calls stop the kernel: seeking a descriptor on a file to the largest signed
  offset succeeds, and writing any byte there panics, because the file would have to grow beyond
  what a vector can hold. No check stands between the seek and the growth.
\<close>

theorem seek_then_write_panics:
  assumes "fd_on_file k fd i off flags p old" "\<not> has_append flags" "length old \<le> 2 ^ 62"
  shows "\<exists>k'. handle_fd_seek k fd (2 ^ 63 - 1) 0 = (sys_ok (2 ^ 63 - 1), k') \<and> handle_fd_write k' fd [b] = None"
proof -
  let ?pos = "2 ^ 63 - 1 :: u64"
  have pos: "unat ?pos = 2 ^ 63 - 1" by simp
  then have "unat ?pos < 2 ^ 63" by simp
  then obtain k' where k': "handle_fd_seek k fd ?pos 0 = (sys_ok ?pos, k')" "fd_on_file k' fd i ?pos flags p old"
    by (rule fd_seek_set_on_file [OF assms(1)])
  from k'(2) obtain d n where d: "fd_get (ks_fds k') (RawFd fd) = Some d" "fd_kind_of d = FsFile i ?pos flags"
    and n: "fmlookup (vfs_inodes (ks_vfs k')) i = Some n" "ino_type n \<noteq> Directory" "ino_data n = old"
    by (auto simp: fd_on_file_def tree_fs_def node_of_def split: if_splits)
  have "write_file (ks_vfs k') i ?pos [b] = None"
    using n assms(3) unfolding write_file_def pos by (simp add: USIZE_MAX_def ISIZE_MAX_def)
  moreover have "write_start k' i ?pos flags = ?pos" using assms(2) by (simp add: write_start_def)
  ultimately have "handle_fd_write k' fd [b] = None" by (simp only: handle_fd_write_file [OF d] option.case)
  with k'(1) show ?thesis by blast
qed

theorem seek_then_write_panics_witness:
  "\<exists>k'. handle_fd_seek demo_ks 3 (2 ^ 63 - 1) 0 = (sys_ok (2 ^ 63 - 1), k') \<and> handle_fd_write k' 3 [1] = None"
  by (rule seek_then_write_panics [OF demo_ks_on_file]) (simp_all add: has_append_def O_RDWR_def O_APPEND_def)







end
