(* ===== verification/Slab_Heap.thy ===== *)
theory Slab_Heap
  imports Kernel_Prelude "HOL-Library.Multiset"
begin

text \<open>
  The kernel heap, \<open>nexacore-kernel/src/bare_metal/heap.rs\<close>: the reclaiming \<open>SlabHeap\<close> that is
  installed as the global allocator, the legacy \<open>BumpHeap\<close>, and the choice of the arena from the
  memory map. \<open>usize\<close> is a 64-bit word. The intrusive free lists live in memory: a memory maps
  the address of an aligned machine word to its value, and the links and sizes of free blocks are
  read and written there. The allocator runs on one CPU with interrupts masked, so each
  compare-exchange loop is its one successful round. A null pointer is zero, and a panic of
  \<open>init\<close> or \<open>pick_region\<close> is \<open>None\<close>. The walk of the large-run list follows memory and is a
  partial function; the invariant shows that it returns.

  Shown here: in every run of allocations, frees of live blocks and client stores into live blocks,
  live blocks are aligned as asked, large enough, inside the arena and pairwise disjoint, and also
  disjoint from everything on the free lists; a freed block is handed out again before the arena
  grows; \<open>pick_region\<close> takes the largest usable region.
\<close>

type_synonym usize = u64

section \<open>The bump heap\<close>

definition UNINIT :: usize where "UNINIT = 0"

record bump_heap =
  bh_base :: usize
  bh_next :: usize
  bh_end :: usize

definition bump_new :: bump_heap where
  "bump_new = \<lparr>bh_base = UNINIT, bh_next = UNINIT, bh_end = UNINIT\<rparr>"

definition bump_init :: "bump_heap \<Rightarrow> usize \<Rightarrow> usize \<Rightarrow> bump_heap option" where
  "bump_init h base len =
     (case checked_add base len of
        None \<Rightarrow> None
      | Some end_addr \<Rightarrow>
          if bh_base h = UNINIT then Some \<lparr>bh_base = base, bh_next = base, bh_end = end_addr\<rparr> else None)"

definition align_up :: "usize \<Rightarrow> usize \<Rightarrow> usize" where
  "align_up addr align = (addr + (align - 1)) AND NOT (align - 1)"

definition bump_alloc :: "bump_heap \<Rightarrow> usize \<Rightarrow> usize \<Rightarrow> usize \<times> bump_heap" where
  "bump_alloc h sz align =
     (if bh_end h = UNINIT then (0, h)
      else
        let aligned = align_up (bh_next h) align
        in case checked_add aligned sz of
             None \<Rightarrow> (0, h)
           | Some new_next \<Rightarrow> if bh_end h < new_next then (0, h) else (aligned, h\<lparr>bh_next := new_next\<rparr>))"

definition bump_used_bytes :: "bump_heap \<Rightarrow> usize" where
  "bump_used_bytes h = saturating_sub (bh_next h) (bh_base h)"

definition bump_total_bytes :: "bump_heap \<Rightarrow> usize" where
  "bump_total_bytes h = saturating_sub (bh_end h) (bh_base h)"

section \<open>Choosing the arena\<close>

definition MIN_HEAP_BYTES :: usize where "MIN_HEAP_BYTES = 4 * 1024 * 1024"
definition HEAP_MAX_BYTES :: usize where "HEAP_MAX_BYTES = 128 * 1024 * 1024"

text \<open>What \<open>pick_region\<close> reads of the boot loader's \<open>MemoryRegion\<close>.\<close>

record memory_region =
  mr_start :: u64
  mr_end :: u64
  mr_usable :: bool

definition pick_step :: "(u64 \<times> u64) option \<Rightarrow> memory_region \<Rightarrow> (u64 \<times> u64) option" where
  "pick_step best region =
     (if \<not> mr_usable region then best
      else
        let len = saturating_sub (mr_end region) (mr_start region)
        in if len < MIN_HEAP_BYTES then best
           else case best of
               None \<Rightarrow> Some (mr_start region, len)
             | Some (cur_start, cur_len) \<Rightarrow>
                 if cur_len < len \<or> (len = cur_len \<and> mr_start region < cur_start)
                 then Some (mr_start region, len) else best)"

definition pick_region :: "memory_region list \<Rightarrow> (usize \<times> usize) option" where
  "pick_region regions =
     (case foldl pick_step None regions of
        None \<Rightarrow> None
      | Some (start, len) \<Rightarrow> Some (start, min len HEAP_MAX_BYTES))"

section \<open>Size classes\<close>

definition SIZE_CLASSES :: "usize list" where
  "SIZE_CLASSES = [16, 32, 64, 128, 256, 512, 1024, 2048, 4096]"

definition NUM_SIZE_CLASSES :: nat where "NUM_SIZE_CLASSES = length SIZE_CLASSES"
definition MAX_SMALL_BYTES :: usize where "MAX_SMALL_BYTES = 4096"
definition PAGE_BYTES :: usize where "PAGE_BYTES = 4096"
definition LARGE_RUN_MIN :: usize where "LARGE_RUN_MIN = 2 * PAGE_BYTES"
definition NULL_LINK :: usize where "NULL_LINK = 0"

definition page_round_up :: "usize \<Rightarrow> usize option" where
  "page_round_up sz = map_option (\<lambda>s. s AND NOT (PAGE_BYTES - 1)) (checked_add sz (PAGE_BYTES - 1))"

definition size_class_index :: "usize \<Rightarrow> usize \<Rightarrow> nat option" where
  "size_class_index sz align =
     (let need = (if align < sz then sz else align)
      in if MAX_SMALL_BYTES < need then None else position (\<lambda>c. need \<le> c) SIZE_CLASSES)"

definition size_class_bytes :: "nat \<Rightarrow> usize option" where
  "size_class_bytes i = (if i < length SIZE_CLASSES then Some (SIZE_CLASSES ! i) else None)"

section \<open>The slab heap\<close>

record slab_heap =
  sh_base :: usize
  sh_next :: usize
  sh_end :: usize
  sh_free :: "usize list"
  sh_large :: usize

type_synonym memory = "usize \<Rightarrow> usize"
type_synonym heap = "slab_heap \<times> memory"

definition slab_new :: slab_heap where
  "slab_new = \<lparr>sh_base = UNINIT, sh_next = UNINIT, sh_end = UNINIT,
     sh_free = replicate NUM_SIZE_CLASSES NULL_LINK, sh_large = NULL_LINK\<rparr>"

definition slab_init :: "slab_heap \<Rightarrow> usize \<Rightarrow> usize \<Rightarrow> slab_heap option" where
  "slab_init h base len =
     (case checked_add base len of
        None \<Rightarrow> None
      | Some end_addr \<Rightarrow>
          if sh_base h = UNINIT then Some (h\<lparr>sh_base := base, sh_end := end_addr, sh_next := base\<rparr>) else None)"

definition slab_used_bytes :: "slab_heap \<Rightarrow> usize" where
  "slab_used_bytes h = saturating_sub (sh_next h) (sh_base h)"

definition slab_total_bytes :: "slab_heap \<Rightarrow> usize" where
  "slab_total_bytes h = saturating_sub (sh_end h) (sh_base h)"

definition free_list_head :: "slab_heap \<Rightarrow> nat \<Rightarrow> usize" where
  "free_list_head h i = (if i < length (sh_free h) then sh_free h ! i else NULL_LINK)"

definition push_free :: "heap \<Rightarrow> nat \<Rightarrow> usize \<Rightarrow> heap" where
  "push_free = (\<lambda>(h, m) idx block.
     if idx < length (sh_free h)
     then (h\<lparr>sh_free := (sh_free h)[idx := block]\<rparr>, m(block := sh_free h ! idx)) else (h, m))"

definition pop_free :: "heap \<Rightarrow> nat \<Rightarrow> usize option \<times> heap" where
  "pop_free = (\<lambda>(h, m) idx.
     if idx < length (sh_free h) then
       let current = sh_free h ! idx
       in if current = NULL_LINK then (None, (h, m))
          else (Some current, (h\<lparr>sh_free := (sh_free h)[idx := m current]\<rparr>, m))
     else (None, (h, m)))"

definition carve :: "slab_heap \<Rightarrow> usize \<Rightarrow> usize \<Rightarrow> (usize \<times> slab_heap) option" where
  "carve h sz align =
     (if sh_end h = UNINIT then None
      else
        let aligned = align_up (sh_next h) align
        in case checked_add aligned sz of
             None \<Rightarrow> None
           | Some new_next \<Rightarrow> if sh_end h < new_next then None else Some (aligned, h\<lparr>sh_next := new_next\<rparr>))"

definition thread_blocks :: "heap \<Rightarrow> nat \<Rightarrow> usize \<Rightarrow> usize \<Rightarrow> nat list \<Rightarrow> heap" where
  "thread_blocks hp idx run cls ks = foldl (\<lambda>hp k. push_free hp idx (run + of_nat k * cls)) hp ks"

definition refill_class :: "heap \<Rightarrow> nat \<Rightarrow> usize \<times> heap" where
  "refill_class = (\<lambda>(h, m) idx.
     case size_class_bytes idx of
       None \<Rightarrow> (0, (h, m))
     | Some cls \<Rightarrow>
         let n = PAGE_BYTES div cls; want = (if n = 0 then 1 else n)
         in (case carve h (cls * want) cls of
               Some (run, h1) \<Rightarrow> (run, thread_blocks (h1, m) idx run cls [1..<unat want])
             | None \<Rightarrow>
                 if want = 1 then (0, (h, m))
                 else (case carve h cls cls of
                         Some (run, h1) \<Rightarrow> (run, (h1, m))
                       | None \<Rightarrow> (0, (h, m)))))"

definition push_large_run :: "heap \<Rightarrow> usize \<Rightarrow> usize \<Rightarrow> heap" where
  "push_large_run = (\<lambda>(h, m) addr sz.
     (h\<lparr>sh_large := addr\<rparr>, m(addr := sh_large h, addr + 8 := sz)))"

text \<open>The found run is unlinked, then its remainder is recycled.\<close>

definition unlink_run :: "heap \<Rightarrow> usize \<Rightarrow> usize \<Rightarrow> heap" where
  "unlink_run = (\<lambda>(h, m) prev_slot nxt.
     if prev_slot = 0 then (h\<lparr>sh_large := nxt\<rparr>, m) else (h, m(prev_slot := nxt)))"

definition recycle :: "heap \<Rightarrow> usize \<Rightarrow> usize \<Rightarrow> heap" where
  "recycle hp addr remainder =
     (if LARGE_RUN_MIN \<le> remainder then push_large_run hp addr remainder
      else if remainder = PAGE_BYTES then push_free hp 8 addr
      else hp)"

partial_function (option) take_loop :: "heap \<Rightarrow> usize \<Rightarrow> usize \<Rightarrow> usize \<Rightarrow> (usize \<times> heap) option" where
  "take_loop hp need prev_slot cur =
     (if cur = NULL_LINK then Some (0, hp)
      else
        let cur_next = snd hp cur; cur_size = snd hp (cur + 8)
        in if need \<le> cur_size
           then Some (cur, recycle (unlink_run hp prev_slot cur_next) (cur + need) (cur_size - need))
           else take_loop hp need cur cur_next)"

definition take_large_run :: "heap \<Rightarrow> usize \<Rightarrow> (usize \<times> heap) option" where
  "take_large_run hp need = take_loop hp need 0 (sh_large (fst hp))"

definition allocate :: "heap \<Rightarrow> usize \<Rightarrow> usize \<Rightarrow> (usize \<times> heap) option" where
  "allocate hp sz align =
     (if sh_end (fst hp) = UNINIT then Some (0, hp)
      else case size_class_index sz align of
          Some idx \<Rightarrow>
            (case pop_free hp idx of
               (Some block, hp1) \<Rightarrow> Some (block, hp1)
             | (None, hp1) \<Rightarrow> Some (refill_class hp1 idx))
        | None \<Rightarrow>
            if PAGE_BYTES < align then Some (0, hp)
            else case page_round_up sz of
                None \<Rightarrow> Some (0, hp)
              | Some run_bytes \<Rightarrow>
                  (case take_large_run hp run_bytes of
                     None \<Rightarrow> None
                   | Some (reused, hp1) \<Rightarrow>
                       if reused \<noteq> 0 then Some (reused, hp1)
                       else (case carve (fst hp1) run_bytes PAGE_BYTES of
                               None \<Rightarrow> Some (0, hp1)
                             | Some (addr, h) \<Rightarrow> Some (addr, (h, snd hp1)))))"

definition heap_free :: "heap \<Rightarrow> usize \<Rightarrow> usize \<Rightarrow> usize \<Rightarrow> heap" where
  "heap_free hp p sz align =
     (if p = 0 then hp
      else case size_class_index sz align of
          Some idx \<Rightarrow> push_free hp idx p
        | None \<Rightarrow>
            if align \<le> PAGE_BYTES
            then (case page_round_up sz of None \<Rightarrow> hp | Some run_bytes \<Rightarrow> push_large_run hp p run_bytes)
            else hp)"

section \<open>Rounding\<close>

lemma unat_add_small: "unat a + n < 2 ^ 64 \<Longrightarrow> unat (a + of_nat n :: u64) = unat a + n"
  by (simp add: unat_word_ariths unat_of_nat)

lemma align_up_spec:
  assumes "unat addr + 2 ^ k \<le> 2 ^ 64" "k < 64"
  shows "2 ^ k dvd unat (align_up addr (2 ^ k))" "unat addr \<le> unat (align_up addr (2 ^ k))"
    "unat (align_up addr (2 ^ k)) < unat addr + 2 ^ k"
proof -
  have "unat (of_nat (2 ^ k) :: u64) = 2 ^ k"
    by (rule unat_of_nat_small) (use power_strict_increasing [OF assms(2), of "2 :: nat"] in simp)
  then have pow: "unat (2 ^ k :: u64) = 2 ^ k" by simp
  then have one: "unat (2 ^ k - 1 :: u64) = 2 ^ k - 1"
    by (subst unat_sub) (auto simp: word_le_nat_alt)
  let ?s = "unat addr + (2 ^ k - 1)"
  have s: "unat (addr + (2 ^ k - 1)) = ?s"
    using assms(1) by (simp add: unat_word_ariths one)
  have eq: "unat (align_up addr (2 ^ k)) = ?s - ?s mod 2 ^ k"
    unfolding align_up_def and_not_mask s ..
  show "2 ^ k dvd unat (align_up addr (2 ^ k))" unfolding eq by (rule dvd_minus_mod)
  have "?s mod 2 ^ k < 2 ^ k" "(0 :: nat) < 2 ^ k" by simp_all
  then show "unat addr \<le> unat (align_up addr (2 ^ k))" "unat (align_up addr (2 ^ k)) < unat addr + 2 ^ k"
    unfolding eq by linarith+
qed

section \<open>Extents\<close>

text \<open>
  An extent is an address and a number of bytes. The owned extents, the blocks on the small lists
  and the runs on the large list form one multiset whose members never overlap.
\<close>

type_synonym extent = "usize \<times> nat"

definition apart :: "extent \<Rightarrow> extent \<Rightarrow> bool" where
  "apart e f \<longleftrightarrow> unat (fst e) + snd e \<le> unat (fst f) \<or> unat (fst f) + snd f \<le> unat (fst e)"

lemma apart_sym: "apart e f = apart f e"
  by (auto simp: apart_def)

definition all_apart :: "extent multiset \<Rightarrow> bool" where
  "all_apart M \<longleftrightarrow> (\<forall>x y N. M = add_mset x (add_mset y N) \<longrightarrow> apart x y)"

lemma all_apart_empty [simp]: "all_apart {#}"
  by (simp add: all_apart_def)

lemma all_apartD: "all_apart (add_mset x (add_mset y N)) \<Longrightarrow> apart x y"
  unfolding all_apart_def by blast

lemma all_apart_add: "all_apart (add_mset x M) \<longleftrightarrow> (\<forall>y \<in># M. apart x y) \<and> all_apart M"
proof
  assume all: "all_apart (add_mset x M)"
  have "apart x y" if y: "y \<in># M" for y
  proof -
    from multi_member_split [OF y] obtain N where "M = add_mset y N" ..
    with all all_apartD show ?thesis by simp
  qed
  moreover have "apart u v" if M: "M = add_mset u (add_mset v N)" for u v N
  proof -
    have "add_mset x M = add_mset u (add_mset v (add_mset x N))" using M by (simp add: add_mset_commute)
    with all all_apartD [of u v "add_mset x N"] show ?thesis by simp
  qed
  ultimately show "(\<forall>y \<in># M. apart x y) \<and> all_apart M" by (simp add: all_apart_def)
next
  assume M: "(\<forall>y \<in># M. apart x y) \<and> all_apart M"
  have "apart u v" if eq: "add_mset x M = add_mset u (add_mset v N)" for u v N
  proof -
    consider "x = u" | "x = v" | "x \<noteq> u" "x \<noteq> v" by blast
    then show ?thesis
    proof cases
      case 1
      with eq M show ?thesis by simp
    next
      case 2
      with eq have "M = add_mset u N" by (simp add: add_mset_commute)
      with M 2 show ?thesis by (simp add: apart_sym)
    next
      case 3
      have "x \<in># add_mset u (add_mset v N)" unfolding eq [symmetric] by simp
      with 3 have "x \<in># N" by simp
      from multi_member_split [OF this] obtain N' where "N = add_mset x N'" ..
      with eq have "add_mset x M = add_mset x (add_mset u (add_mset v N'))" by (simp add: add_mset_commute)
      then have "M = add_mset u (add_mset v N')" by simp
      with M show ?thesis by (auto dest: all_apartD)
    qed
  qed
  then show "all_apart (add_mset x M)" by (simp add: all_apart_def)
qed

text \<open>The two header words of disjoint extents are different cells.\<close>

definition in_arena :: "slab_heap \<Rightarrow> extent \<Rightarrow> bool" where
  "in_arena h e \<longleftrightarrow> unat (sh_base h) \<le> unat (fst e) \<and> 16 \<le> snd e \<and> unat (fst e) + snd e \<le> unat (sh_next h)"

lemma cells_apart:
  assumes "apart (a, n) (b, l)" "in_arena h (a, n)" "in_arena h (b, l)"
  shows "a \<noteq> b" "a + 8 \<noteq> b" "a \<noteq> b + 8" "a + 8 \<noteq> b + 8"
proof -
  have "unat (sh_next h) < 2 ^ 64" using unat_bound [of "sh_next h"] by simp
  then have "unat (a + 8) = unat a + 8" "unat (b + 8) = unat b + 8"
    using unat_add_small [of a 8] unat_add_small [of b 8] assms(2,3) by (simp_all add: in_arena_def)
  then show "a \<noteq> b" "a + 8 \<noteq> b" "a \<noteq> b + 8" "a + 8 \<noteq> b + 8"
    using assms by (auto simp: apart_def in_arena_def)
qed

section \<open>Lists in memory\<close>

fun chain :: "memory \<Rightarrow> usize \<Rightarrow> usize list \<Rightarrow> bool" where
  "chain m h [] \<longleftrightarrow> h = 0"
| "chain m h (x # xs) \<longleftrightarrow> h = x \<and> x \<noteq> 0 \<and> chain m (m x) xs"

fun run_chain :: "memory \<Rightarrow> usize \<Rightarrow> extent list \<Rightarrow> bool" where
  "run_chain m h [] \<longleftrightarrow> h = 0"
| "run_chain m h (x # xs) \<longleftrightarrow>
     h = fst x \<and> fst x \<noteq> 0 \<and> m (fst x + 8) = of_nat (snd x) \<and> run_chain m (m (fst x)) xs"

lemma chain_cong: "(\<And>x. x \<in> set xs \<Longrightarrow> m' x = m x) \<Longrightarrow> chain m' h xs = chain m h xs"
  by (induction xs arbitrary: h) auto

lemma run_chain_cong:
  "(\<And>x. x \<in> set xs \<Longrightarrow> m' (fst x) = m (fst x) \<and> m' (fst x + 8) = m (fst x + 8)) \<Longrightarrow>
     run_chain m' h xs = run_chain m h xs"
  by (induction xs arbitrary: h) auto

definition cls :: "nat \<Rightarrow> nat" where
  "cls i = 2 ^ (i + 4)"

lemma unat_SIZE_CLASSES: "i < 9 \<Longrightarrow> unat (SIZE_CLASSES ! i) = cls i"
proof -
  assume "i < 9"
  then consider "i = 0" | "i = 1" | "i = 2" | "i = 3" | "i = 4" | "i = 5" | "i = 6" | "i = 7" | "i = 8" by linarith
  then show ?thesis by cases (simp_all add: SIZE_CLASSES_def cls_def)
qed

lemma SIZE_CLASSES_power: "i < 9 \<Longrightarrow> SIZE_CLASSES ! i = 2 ^ (i + 4)"
proof -
  assume i: "i < 9"
  then consider "i = 0" | "i = 1" | "i = 2" | "i = 3" | "i = 4" | "i = 5" | "i = 6" | "i = 7" | "i = 8" by linarith
  then show ?thesis by cases (simp_all add: SIZE_CLASSES_def)
qed

definition small_ms :: "(nat \<Rightarrow> usize list) \<Rightarrow> extent multiset" where
  "small_ms fl = (\<Sum>i < 9. image_mset (\<lambda>a. (a, cls i)) (mset (fl i)))"

lemma small_ms_upd:
  assumes "i < 9"
  shows "small_ms (fl(i := b # xs)) = add_mset (b, cls i) (small_ms (fl(i := xs)))"
proof -
  have split: "small_ms g = image_mset (\<lambda>a. (a, cls i)) (mset (g i)) +
      (\<Sum>j \<in> {..<9} - {i}. image_mset (\<lambda>a. (a, cls j)) (mset (g j)))" for g
    unfolding small_ms_def using assms by (subst sum.remove [of _ i]) auto
  have "(\<Sum>j \<in> {..<9} - {i}. image_mset (\<lambda>a. (a, cls j)) (mset ((fl(i := b # xs)) j))) =
      (\<Sum>j \<in> {..<9} - {i}. image_mset (\<lambda>a. (a, cls j)) (mset ((fl(i := xs)) j)))"
    by (rule sum.cong) auto
  then show ?thesis by (simp add: split [of "fl(i := b # xs)"] split [of "fl(i := xs)"])
qed

lemma in_small_ms: "i < 9 \<Longrightarrow> a \<in> set (fl i) \<Longrightarrow> (a, cls i) \<in># small_ms fl"
  unfolding small_ms_def by (subst sum.remove [of _ i]) auto

section \<open>The representation invariant\<close>

text \<open>
  \<open>rep hp fl lg L\<close>: the small lists hold \<open>fl\<close>, the large list holds \<open>lg\<close>, and \<open>L\<close> are the
  extents owned outside the lists. The arena ends at least a page below the top of the address
  space.
\<close>

definition arena_ok :: "slab_heap \<Rightarrow> bool" where
  "arena_ok h \<longleftrightarrow> sh_base h \<noteq> 0 \<and> unat (sh_base h) \<le> unat (sh_next h) \<and>
     unat (sh_next h) \<le> unat (sh_end h) \<and> unat (sh_end h) + 4096 \<le> 2 ^ 64 \<and> length (sh_free h) = 9"

definition lists_ok :: "heap \<Rightarrow> (nat \<Rightarrow> usize list) \<Rightarrow> extent list \<Rightarrow> bool" where
  "lists_ok hp fl lg \<longleftrightarrow>
     (\<forall>i < 9. chain (snd hp) (sh_free (fst hp) ! i) (fl i) \<and> (\<forall>a \<in> set (fl i). cls i dvd unat a)) \<and>
     run_chain (snd hp) (sh_large (fst hp)) lg \<and>
     (\<forall>e \<in> set lg. 4096 dvd unat (fst e) \<and> 4096 dvd snd e \<and> 8192 \<le> snd e)"

abbreviation all_extents :: "(nat \<Rightarrow> usize list) \<Rightarrow> extent list \<Rightarrow> extent multiset \<Rightarrow> extent multiset" where
  "all_extents fl lg L \<equiv> L + small_ms fl + mset lg"

definition rep :: "heap \<Rightarrow> (nat \<Rightarrow> usize list) \<Rightarrow> extent list \<Rightarrow> extent multiset \<Rightarrow> bool" where
  "rep hp fl lg L \<longleftrightarrow> arena_ok (fst hp) \<and> lists_ok hp fl lg \<and> all_apart (all_extents fl lg L) \<and>
     (\<forall>e \<in># all_extents fl lg L. in_arena (fst hp) e)"

lemma repD:
  assumes "rep hp fl lg L"
  shows "arena_ok (fst hp)" "lists_ok hp fl lg" "all_apart (all_extents fl lg L)"
    "e \<in># all_extents fl lg L \<Longrightarrow> in_arena (fst hp) e"
  using assms by (auto simp: rep_def)

text \<open>The invariant rests on the arena, the lists and the extents taken together.\<close>

lemma rep_regroup:
  assumes "rep hp fl lg L" "lists_ok hp' fl' lg'" "all_extents fl' lg' L' = all_extents fl lg L"
    and "arena_ok (fst hp')" "sh_base (fst hp') = sh_base (fst hp)" "sh_next (fst hp') = sh_next (fst hp)"
  shows "rep hp' fl' lg' L'"
  using assms unfolding rep_def in_arena_def by simp

lemma in_arena_nonzero: "arena_ok h \<Longrightarrow> in_arena h e \<Longrightarrow> fst e \<noteq> 0"
  by (auto simp: arena_ok_def in_arena_def unat_eq_0)

lemma owned_nonzero: "rep hp fl lg (add_mset (b, n) L) \<Longrightarrow> b \<noteq> 0"
  using in_arena_nonzero [OF repD(1), of hp fl lg _ "(b, n)"] repD(4) [of hp fl lg _ "(b, n)"] by fastforce

text \<open>The cells of an owned extent are not cells of anything on the lists.\<close>

lemma extent_cells:
  assumes r: "rep hp fl lg L" and x: "all_extents fl lg L = add_mset x M" and e: "e \<in># M"
  shows "fst e \<noteq> fst x" "fst e + 8 \<noteq> fst x" "fst e \<noteq> fst x + 8" "fst e + 8 \<noteq> fst x + 8"
proof -
  have "apart x e" using repD(3) [OF r] e by (simp add: x all_apart_add)
  moreover have "in_arena (fst hp) x" "in_arena (fst hp) e" using repD(4) [OF r] e x by auto
  ultimately show "fst e \<noteq> fst x" "fst e + 8 \<noteq> fst x" "fst e \<noteq> fst x + 8" "fst e + 8 \<noteq> fst x + 8"
    using cells_apart [of "fst x" "snd x" "fst e" "snd e" "fst hp"] by auto
qed

lemma owned_cells:
  assumes r: "rep hp fl lg (add_mset (b, n) L)" and e: "e \<in># all_extents fl lg L"
  shows "fst e \<noteq> b" "fst e + 8 \<noteq> b" "fst e \<noteq> b + 8" "fst e + 8 \<noteq> b + 8"
  using extent_cells [OF r _ e, of "(b, n)"] by simp_all

lemma lists_ok_store:
  assumes r: "rep (h, m) fl lg (add_mset (b, n) L)"
    and m': "\<And>c. c \<noteq> b \<Longrightarrow> c \<noteq> b + 8 \<Longrightarrow> m' c = m c"
  shows "lists_ok (h, m') fl lg"
proof -
  note cells = owned_cells [OF r]
  have "chain m' (sh_free h ! i) (fl i) = chain m (sh_free h ! i) (fl i)" if "i < 9" for i
    by (rule chain_cong) (use that cells in_small_ms in \<open>fastforce intro!: m'\<close>)
  moreover have "run_chain m' (sh_large h) lg = run_chain m (sh_large h) lg"
    by (rule run_chain_cong) (use cells in \<open>fastforce intro!: m'\<close>)
  ultimately show ?thesis using repD(2) [OF r] by (auto simp: lists_ok_def)
qed

text \<open>A client's store into an owned block keeps the lists.\<close>

lemma rep_store:
  assumes r: "rep (h, m) fl lg (add_mset (b, n) L)" and c: "unat b \<le> unat c" "unat c + 8 \<le> unat b + n" "8 dvd unat c - unat b"
  shows "rep (h, m(c := v)) fl lg (add_mset (b, n) L)"
proof -
  have all: "all_apart (add_mset (b, n) (all_extents fl lg L))" using repD(3) [OF r] by simp
  have b: "in_arena h (b, n)" using repD(4) [OF r, of "(b, n)"] by simp
  have "fst e \<noteq> c" "fst e + 8 \<noteq> c" if e: "e \<in># all_extents fl lg L" for e
  proof -
    have "apart (b, n) e" using all e by (simp add: all_apart_add)
    moreover have ie: "in_arena h e" using repD(4) [OF r, of e] e by auto
    moreover have "unat (fst e + 8) = unat (fst e) + 8"
      using unat_add_small [of "fst e" 8] ie unat_bound [of "sh_next h"] by (simp add: in_arena_def)
    ultimately show "fst e \<noteq> c" "fst e + 8 \<noteq> c" using c b by (auto simp: apart_def in_arena_def)
  qed
  then have cells: "\<And>e. e \<in># all_extents fl lg L \<Longrightarrow> fst e \<noteq> c \<and> fst e + 8 \<noteq> c" by blast
  have "chain (m(c := v)) (sh_free h ! i) (fl i) = chain m (sh_free h ! i) (fl i)" if "i < 9" for i
    by (rule chain_cong) (use that cells in_small_ms in fastforce)
  moreover have "run_chain (m(c := v)) (sh_large h) lg = run_chain m (sh_large h) lg"
    by (rule run_chain_cong) (use cells in auto)
  ultimately have "lists_ok (h, m(c := v)) fl lg" using repD(2) [OF r] by (auto simp: lists_ok_def)
  with r show ?thesis by (simp add: rep_def)
qed

lemma push_free_rep:
  assumes r: "rep (h, m) fl lg (add_mset (b, cls i) L)" and i: "i < 9" and b: "cls i dvd unat b"
  shows "rep (push_free (h, m) i b) (fl(i := b # fl i)) lg L"
proof -
  have len: "length (sh_free h) = 9" using repD(1) [OF r] by (simp add: arena_ok_def)
  let ?m = "m(b := sh_free h ! i)"
  have ok: "lists_ok (h, ?m) fl lg" by (rule lists_ok_store [OF r]) simp
  have "b \<noteq> 0" by (rule owned_nonzero [OF r])
  then have "lists_ok (push_free (h, m) i b) (fl(i := b # fl i)) lg"
    using ok i b len by (auto simp: lists_ok_def push_free_def nth_list_update)
  moreover have "all_extents (fl(i := b # fl i)) lg L = all_extents fl lg (add_mset (b, cls i) L)"
    using small_ms_upd [OF i, of fl b "fl i"] by simp
  ultimately show ?thesis
    using r len i by (auto simp: rep_def push_free_def arena_ok_def in_arena_def)
qed

lemma pop_free_rep:
  assumes r: "rep (h, m) fl lg L" and i: "i < 9" and p: "pop_free (h, m) i = (res, hp)"
  shows "case res of
      None \<Rightarrow> hp = (h, m) \<and> fl i = []
    | Some b \<Rightarrow> rep hp (fl(i := tl (fl i))) lg (add_mset (b, cls i) L) \<and> cls i dvd unat b \<and> b = hd (fl i) \<and> fl i \<noteq> []"
proof -
  have len: "length (sh_free h) = 9" using repD(1) [OF r] by (simp add: arena_ok_def)
  have ch: "chain m (sh_free h ! i) (fl i)" using repD(2) [OF r] i by (simp add: lists_ok_def)
  show ?thesis
  proof (cases "fl i")
    case Nil
    with ch p i len show ?thesis by (auto simp: pop_free_def NULL_LINK_def)
  next
    case (Cons b xs)
    with ch have b: "sh_free h ! i = b" "b \<noteq> 0" "chain m (m b) xs" by auto
    then have p': "res = Some b" "hp = (h\<lparr>sh_free := (sh_free h)[i := m b]\<rparr>, m)"
      using p i len by (auto simp: pop_free_def NULL_LINK_def Let_def)
    have "lists_ok hp (fl(i := xs)) lg"
      using repD(2) [OF r] i Cons b len by (auto simp: p' lists_ok_def nth_list_update)
    moreover have "all_extents (fl(i := xs)) lg (add_mset (b, cls i) L) = all_extents fl lg L"
      using small_ms_upd [OF i, of fl b xs] Cons by (simp add: fun_upd_idem)
    moreover have "cls i dvd unat b" using repD(2) [OF r] i Cons by (auto simp: lists_ok_def)
    moreover have "arena_ok (fst hp)" using repD(1) [OF r] by (simp add: p' arena_ok_def)
    ultimately show ?thesis
      using rep_regroup [OF r, of hp "fl(i := xs)" lg "add_mset (b, cls i) L"] Cons by (simp add: p')
  qed
qed

lemma carve_rep:
  assumes r: "rep (h, m) fl lg L" and c: "carve h sz (2 ^ k) = Some (a, h')" and sz: "16 \<le> unat sz" and k: "k \<le> 12"
  shows "rep (h', m) fl lg (add_mset (a, unat sz) L) \<and> 2 ^ k dvd unat a \<and> sh_end h' = sh_end h"
proof -
  note ar = repD(1) [OF r, unfolded fst_conv arena_ok_def]
  let ?a = "align_up (sh_next h) (2 ^ k)"
  from c obtain nn where nn: "checked_add ?a sz = Some nn" "\<not> sh_end h < nn" "a = ?a" "h' = h\<lparr>sh_next := nn\<rparr>"
    by (auto simp: carve_def Let_def split: if_splits option.splits)
  from checked_add_SomeD [OF nn(1)] have un: "unat nn = unat ?a + unat sz" by blast
  have "(2 :: nat) ^ k \<le> 2 ^ 12" using k by (intro power_increasing) simp_all
  then have al: "2 ^ k dvd unat ?a" "unat (sh_next h) \<le> unat ?a"
    using align_up_spec [of "sh_next h" k] ar k by auto
  have le: "unat nn \<le> unat (sh_end h)" using nn(2) by (simp add: word_less_nat_alt)
  have old: "in_arena h e" if "e \<in># all_extents fl lg L" for e using repD(4) [OF r] that by simp
  have "apart (a, unat sz) e" if "e \<in># all_extents fl lg L" for e
    using old [OF that] al(2) nn(3) by (auto simp: apart_def in_arena_def)
  then have "all_apart (add_mset (a, unat sz) (all_extents fl lg L))"
    using repD(3) [OF r] by (simp add: all_apart_add)
  moreover have "in_arena h' e" if e: "e \<in># add_mset (a, unat sz) (all_extents fl lg L)" for e
  proof (cases "e = (a, unat sz)")
    case True
    with al(2) un sz ar nn(3,4) show ?thesis by (simp add: in_arena_def)
  next
    case False
    with e old [of e] have "in_arena h e" by simp
    with al(2) un nn(4) show ?thesis by (simp add: in_arena_def)
  qed
  moreover have "arena_ok h'" using ar al(2) un le nn(4) by (simp add: arena_ok_def)
  moreover have "lists_ok (h', m) fl lg" using repD(2) [OF r] nn(4) by (simp add: lists_ok_def)
  ultimately show ?thesis using al(1) nn(3,4) by (simp add: rep_def)
qed

text \<open>An owned extent split in two.\<close>

lemma rep_split:
  assumes r: "rep hp fl lg (add_mset (a, s + t) L)" and st: "16 \<le> s" "16 \<le> t"
  shows "rep hp fl lg (add_mset (a, s) (add_mset (a + of_nat s, t) L))"
proof -
  let ?M = "all_extents fl lg L"
  have all: "all_apart (add_mset (a, s + t) ?M)" using repD(3) [OF r] by simp
  have ia: "in_arena (fst hp) (a, s + t)" using repD(4) [OF r, of "(a, s + t)"] by simp
  have un: "unat (a + of_nat s) = unat a + s"
    using ia unat_bound [of "sh_next (fst hp)"] st by (intro unat_add_small) (simp add: in_arena_def)
  have "apart (a, s) (a + of_nat s, t)" using un by (simp add: apart_def)
  moreover have "apart (a, s) e" "apart (a + of_nat s, t) e" if "e \<in># ?M" for e
  proof -
    have "apart (a, s + t) e" using all that by (simp add: all_apart_add)
    then show "apart (a, s) e" "apart (a + of_nat s, t) e" by (auto simp: apart_def un)
  qed
  ultimately have "all_apart (add_mset (a, s) (add_mset (a + of_nat s, t) ?M))"
    using all by (auto simp: all_apart_add)
  moreover have "in_arena (fst hp) e" if "e \<in># add_mset (a, s) (add_mset (a + of_nat s, t) ?M)" for e
    using that repD(4) [OF r, of e] ia un st by (auto simp: in_arena_def)
  ultimately show ?thesis using repD(1,2) [OF r] by (simp add: rep_def)
qed

section \<open>Refilling a class\<close>

lemma cls_ge [simp]: "16 \<le> cls i"
  using power_increasing [of 4 "i + 4" "2 :: nat"] by (simp add: cls_def)

lemma SIZE_CLASSES_cls: "i < 9 \<Longrightarrow> SIZE_CLASSES ! i = of_nat (cls i)"
  by (simp add: SIZE_CLASSES_power cls_def)

lemma cls_dvd_add:
  assumes i: "i < 9" and a: "cls i dvd unat a"
  shows "cls i dvd unat (a + of_nat (j * cls i) :: usize)"
proof -
  have "cls i dvd 2 ^ 64" unfolding cls_def using i by (intro le_imp_power_dvd) simp
  then show ?thesis using a by (simp add: unat_word_ariths unat_of_nat dvd_mod)
qed

lemma thread_blocks_rep:
  assumes "rep hp fl lg (add_mset (run + of_nat (j * cls i), (n - j) * cls i) L)"
    and "j < n" "i < 9" "cls i dvd unat run"
  shows "\<exists>fl'. rep (thread_blocks hp i run (of_nat (cls i)) [j..<n]) fl' lg L"
  using assms
proof (induction "n - j" arbitrary: j hp fl)
  case (Suc d)
  let ?b = "run + of_nat (j * cls i)" and ?hp = "push_free hp i (run + of_nat (j * cls i))"
  have al: "cls i dvd unat ?b" by (rule cls_dvd_add) (use Suc.prems in simp_all)
  have step: "thread_blocks hp i run (of_nat (cls i)) [j..<n] = thread_blocks ?hp i run (of_nat (cls i)) [Suc j..<n]"
    using Suc.prems(2) by (simp add: thread_blocks_def upt_conv_Cons)
  show ?case
  proof (cases "Suc j = n")
    case True
    then have "n - j = 1" by simp
    with Suc.prems(1) have r: "rep (fst hp, snd hp) fl lg (add_mset (?b, cls i) L)" by simp
    have "rep ?hp (fl(i := ?b # fl i)) lg L"
      using push_free_rep [OF r Suc.prems(3) al] by simp
    then show ?thesis unfolding step using True by (auto simp: thread_blocks_def)
  next
    case False
    have d: "(n - j) * cls i = cls i + (n - Suc j) * cls i"
      using Suc.prems(2) by (metis Suc_diff_Suc mult_Suc)
    have "16 \<le> (n - Suc j) * cls i"
      using False Suc.prems(2) cls_ge [of i] mult_le_mono [of 1 "n - Suc j" 16 "cls i"] by simp
    from rep_split [OF Suc.prems(1) [unfolded d] cls_ge this]
    have r: "rep (fst hp, snd hp) fl lg (add_mset (?b, cls i) (add_mset (run + of_nat (Suc j * cls i), (n - Suc j) * cls i) L))"
      by (simp add: algebra_simps)
    have "rep ?hp (fl(i := ?b # fl i)) lg (add_mset (run + of_nat (Suc j * cls i), (n - Suc j) * cls i) L)"
      using push_free_rep [OF r Suc.prems(3) al] by simp
    from Suc.hyps(1) [OF _ this] False Suc.hyps(2) Suc.prems(2,3,4)
    show ?thesis unfolding step by simp
  qed
qed simp

lemma unat_cls: "i < 9 \<Longrightarrow> unat (of_nat (cls i) :: usize) = cls i"
  using unat_SIZE_CLASSES [of i] by (simp add: SIZE_CLASSES_cls)

lemma blocks_per_slab:
  assumes i: "i < 9"
  shows "PAGE_BYTES div of_nat (cls i) = (of_nat (2 ^ (8 - i)) :: usize)" "2 ^ (8 - i) * cls i = 4096"
proof -
  have eq: "2 ^ (8 - i) * cls i = 4096"
    using i power_add [of "2 :: nat" "8 - i" "i + 4"] by (simp add: cls_def)
  then have "4096 div cls i = 2 ^ (8 - i)" by (metis cls_ge div_mult_self_is_m less_le_trans zero_less_numeral)
  moreover have "unat (PAGE_BYTES div of_nat (cls i)) = 4096 div cls i"
    using i by (simp add: unat_div PAGE_BYTES_def unat_cls)
  moreover have "(2 :: nat) ^ (8 - i) \<le> 2 ^ 8" by (intro power_increasing) simp_all
  then have "unat (of_nat (2 ^ (8 - i)) :: usize) = 2 ^ (8 - i)" by (intro unat_of_nat_small) simp
  ultimately show "PAGE_BYTES div of_nat (cls i) = (of_nat (2 ^ (8 - i)) :: usize)"
    unfolding word_unat_eq_iff by argo
  show "2 ^ (8 - i) * cls i = 4096" by (fact eq)
qed

lemma refill_class_eq:
  assumes i: "i < 9"
  shows "refill_class (h, m) i =
     (case carve h 4096 (2 ^ (i + 4)) of
        Some (run, h1) \<Rightarrow> (run, thread_blocks (h1, m) i run (of_nat (cls i)) [1..<2 ^ (8 - i)])
      | None \<Rightarrow>
          if i = 8 then (0, (h, m))
          else (case carve h (of_nat (cls i)) (2 ^ (i + 4)) of
                  Some (run, h1) \<Rightarrow> (run, (h1, m))
                | None \<Rightarrow> (0, (h, m))))"
proof -
  let ?w = "of_nat (2 ^ (8 - i)) :: usize"
  have "(2 :: nat) ^ (8 - i) \<le> 2 ^ 8" by (intro power_increasing) simp_all
  then have w: "unat ?w = 2 ^ (8 - i)" by (intro unat_of_nat_small) simp
  then have nz: "?w \<noteq> 0" by (metis power_eq_0_iff unat_0 zero_neq_numeral)
  have one: "?w = 1 \<longleftrightarrow> i = 8"
    using i w by (auto simp: word_unat_eq_iff dest: arg_cong [of _ _ unat])
  have mul: "of_nat (cls i) * ?w = (4096 :: usize)"
    using blocks_per_slab(2) [OF i] by (metis mult.commute of_nat_mult of_nat_numeral)
  have b: "size_class_bytes i = Some (of_nat (cls i))"
    using i SIZE_CLASSES_cls [OF i] by (simp add: size_class_bytes_def SIZE_CLASSES_def)
  have p: "(of_nat (cls i) :: usize) = 2 ^ (i + 4)" by (simp add: cls_def)
  show ?thesis
    unfolding refill_class_def prod.case b option.case blocks_per_slab(1) [OF i] Let_def if_not_P [OF nz] mul one w
    by (simp only: p)
qed

lemma refill_class_rep:
  assumes r: "rep (h, m) fl lg L" and i: "i < 9" and c: "refill_class (h, m) i = (p, hp)"
  shows "\<exists>fl'. if p = 0 then rep hp fl' lg L else rep hp fl' lg (add_mset (p, cls i) L) \<and> cls i dvd unat p"
proof -
  have k: "i + 4 \<le> 12" using i by simp
  show ?thesis
  proof (cases "carve h 4096 (2 ^ (i + 4))")
    case (Some x)
    obtain run h1 where x: "x = (run, h1)" by force
    with c Some i have p: "p = run" "hp = thread_blocks (h1, m) i run (of_nat (cls i)) [1..<2 ^ (8 - i)]"
      by (auto simp: refill_class_eq)
    from carve_rep [OF r Some [unfolded x] _ k]
    have s: "rep (h1, m) fl lg (add_mset (run, 4096) L)" "cls i dvd unat run" by (simp_all add: cls_def)
    have nz: "run \<noteq> 0" by (rule owned_nonzero [OF s(1)])
    show ?thesis
    proof (cases "i = 8")
      case True
      with s p nz show ?thesis by (auto simp: thread_blocks_def cls_def)
    next
      case False
      let ?n = "2 ^ (8 - i) :: nat"
      have n: "1 < ?n" using False i by (intro one_less_power) simp_all
      then have d: "4096 = cls i + (?n - 1) * cls i"
        using blocks_per_slab(2) [OF i] by (metis Suc_diff_1 less_imp_le_nat mult_Suc neq0_conv not_one_le_zero)
      have "16 \<le> (?n - 1) * cls i" using n cls_ge [of i] mult_le_mono [of 1 "?n - 1" 16 "cls i"] by simp
      from rep_split [OF s(1) [unfolded d] cls_ge this]
      have "rep (h1, m) fl lg (add_mset (run + of_nat (1 * cls i), (?n - 1) * cls i) (add_mset (run, cls i) L))"
        by (simp add: add_mset_commute)
      from thread_blocks_rep [OF this n i s(2)] p nz s(2) show ?thesis by auto
    qed
  next
    case None
    show ?thesis
    proof (cases "i = 8 \<or> carve h (of_nat (cls i)) (2 ^ (i + 4)) = None")
      case True
      with None c i r have "p = 0 \<and> hp = (h, m)" by (auto simp: refill_class_eq split: if_splits)
      with r show ?thesis by auto
    next
      case False
      then obtain run h1 where x: "carve h (of_nat (cls i)) (2 ^ (i + 4)) = Some (run, h1)" by auto
      with None c i False have p: "p = run" "hp = (h1, m)" by (auto simp: refill_class_eq)
      from carve_rep [OF r x _ k] i
      have "rep (h1, m) fl lg (add_mset (run, cls i) L)" "cls i dvd unat run"
        by (simp_all add: unat_cls) (simp add: cls_def)
      with p owned_nonzero show ?thesis by auto
    qed
  qed
qed

section \<open>Large runs\<close>

lemma push_large_run_rep:
  assumes r: "rep (h, m) fl lg (add_mset (a, unat sz) L)"
    and a: "4096 dvd unat a" "4096 dvd unat sz" "8192 \<le> unat sz"
  shows "rep (push_large_run (h, m) a sz) fl ((a, unat sz) # lg) L"
proof -
  let ?m = "m(a := sh_large h, a + 8 := sz)"
  have ok: "lists_ok (h, ?m) fl lg" by (rule lists_ok_store [OF r]) simp
  have "lists_ok (push_large_run (h, m) a sz) fl ((a, unat sz) # lg)"
    using ok a owned_nonzero [OF r] by (simp add: lists_ok_def push_large_run_def)
  moreover have "arena_ok (fst (push_large_run (h, m) a sz))"
    using repD(1) [OF r] by (simp add: push_large_run_def arena_ok_def)
  ultimately show ?thesis
    by (intro rep_regroup [OF r]) (simp_all add: push_large_run_def)
qed

lemma run_chain_unlink:
  assumes "run_chain m h (pre @ l # e # post)"
    and "\<And>x. x \<in> set (pre @ e # post) \<Longrightarrow> fst x \<noteq> fst l \<and> fst x + 8 \<noteq> fst l"
  shows "run_chain (m(fst l := m (fst e))) h (pre @ l # post)"
  using assms
proof (induction pre arbitrary: h)
  case Nil
  have "run_chain (m(fst l := m (fst e))) (m (fst e)) post = run_chain m (m (fst e)) post"
    by (rule run_chain_cong) (use Nil.prems(2) in auto)
  with Nil.prems(1) show ?case by (simp del: fun_upd_apply add: fun_upd_same fun_upd_other)
next
  case (Cons x pre)
  then show ?case by auto
qed

lemma unlink_rep:
  assumes r: "rep (h, m) fl (pre @ e # post) L"
    and p: "prev = (if pre = [] then 0 else fst (last pre))"
  shows "rep (unlink_run (h, m) prev (m (fst e))) fl (pre @ post) (add_mset e L)"
proof -
  note ok = repD(2) [OF r, unfolded lists_ok_def fst_conv snd_conv]
  have "lists_ok (unlink_run (h, m) prev (m (fst e))) fl (pre @ post)"
  proof (cases "pre = []")
    case True
    with ok p show ?thesis by (simp add: lists_ok_def unlink_run_def)
  next
    case False
    let ?l = "last pre" and ?b = "butlast pre"
    let ?m = "m(fst ?l := m (fst e))"
    have pre: "pre = ?b @ [?l]" using False by simp
    have all: "all_extents fl (pre @ e # post) L = add_mset ?l (L + small_ms fl + mset (?b @ e # post))"
      by (subst pre) simp
    note cells = extent_cells [OF r all]
    have ch: "run_chain m (sh_large h) (?b @ ?l # e # post)" using ok pre by (metis append.assoc append_Cons append_Nil)
    have "?l \<in> set pre" using False by simp
    then have nz: "fst ?l \<noteq> 0"
      using in_arena_nonzero [OF repD(1) [OF r]] repD(4) [OF r, of ?l] by simp
    have "run_chain ?m (sh_large h) (?b @ ?l # post)"
      by (rule run_chain_unlink [OF ch]) (use cells in auto)
    then have "run_chain ?m (sh_large h) (pre @ post)" by (subst pre) simp
    moreover have "chain ?m (sh_free h ! i) (fl i) = chain m (sh_free h ! i) (fl i)" if "i < 9" for i
      by (rule chain_cong) (use that cells in_small_ms in fastforce)
    ultimately show ?thesis using ok p False nz by (simp add: lists_ok_def unlink_run_def)
  qed
  moreover have "arena_ok (fst (unlink_run (h, m) prev (m (fst e))))"
    using repD(1) [OF r] by (simp add: unlink_run_def arena_ok_def)
  ultimately show ?thesis by (intro rep_regroup [OF r]) (simp_all add: unlink_run_def)
qed

text \<open>The part of a run that is not needed goes back on a list.\<close>

lemma recycle_rep:
  assumes r: "rep (h, m) fl lg (add_mset (c, s) L)" and c: "4096 dvd unat c" and s: "4096 dvd s"
    and need: "4096 dvd unat need" "8192 \<le> unat need" "unat need \<le> s"
  shows "\<exists>fl' lg'. rep (recycle (h, m) (c + need) (of_nat s - need)) fl' lg' (add_mset (c, unat need) L)"
proof -
  have ia: "in_arena h (c, s)" using repD(4) [OF r, of "(c, s)"] by simp
  then have "s < 2 ^ 64" using unat_bound [of "sh_next h"] by (simp add: in_arena_def)
  then have us: "unat (of_nat s :: usize) = s" by (intro unat_of_nat_small) simp
  define t where "t = s - unat need"
  have ut: "unat (of_nat s - need) = t" using need(3) us by (simp add: t_def unat_sub word_le_nat_alt)
  have d: "4096 dvd t" "s = unat need + t" using s need by (simp_all add: t_def)
  have an: "c + of_nat (unat need) = c + need" by simp
  have cn: "4096 dvd unat (c + need)" using c need(1) cls_dvd_add [of 8 c "unat need div 4096"] by (simp add: cls_def)
  from d(1) obtain k where k: "t = 4096 * k" ..
  have "k = 0 \<or> k = 1 \<or> 2 \<le> k" by linarith
  with k have "t = 0 \<or> t = 4096 \<or> 8192 \<le> t" by auto
  then consider "t = 0" | "t = 4096" | "8192 \<le> t" by blast
  then show ?thesis
  proof cases
    case 1
    then have "of_nat s - need = 0" using ut by (simp add: unat_eq_0)
    with r d 1 show ?thesis by (auto simp: recycle_def LARGE_RUN_MIN_def PAGE_BYTES_def)
  next
    case 2
    then have t: "of_nat s - need = 4096" using ut by (simp add: word_unat_eq_iff)
    have "rep (h, m) fl lg (add_mset (c, unat need) (add_mset (c + of_nat (unat need), 4096) L))"
      using r d 2 need by (intro rep_split) simp_all
    then have "rep (h, m) fl lg (add_mset (c + need, cls 8) (add_mset (c, unat need) L))"
      by (simp add: add_mset_commute cls_def)
    from push_free_rep [OF this] cn show ?thesis
      by (auto simp: recycle_def t LARGE_RUN_MIN_def PAGE_BYTES_def cls_def)
  next
    case 3
    then have t: "LARGE_RUN_MIN \<le> of_nat s - need"
      using ut by (simp add: word_le_nat_alt LARGE_RUN_MIN_def PAGE_BYTES_def)
    have "rep (h, m) fl lg (add_mset (c, unat need) (add_mset (c + of_nat (unat need), t) L))"
      using r d 3 need by (intro rep_split) simp_all
    then have "rep (h, m) fl lg (add_mset (c + need, unat (of_nat s - need)) (add_mset (c, unat need) L))"
      by (simp add: add_mset_commute ut)
    from push_large_run_rep [OF this cn] d 3 ut t show ?thesis by (auto simp: recycle_def)
  qed
qed

text \<open>The walk of the large-run list returns: a fitting run, split, or null.\<close>

lemma take_loop_rep:
  assumes "rep (h, m) fl (pre @ rest) L" "run_chain m cur rest"
    and "prev = (if pre = [] then 0 else fst (last pre))"
    and "4096 dvd unat need" "8192 \<le> unat need"
  shows "\<exists>p hp. take_loop (h, m) need prev cur = Some (p, hp) \<and>
     (if p = 0 then hp = (h, m)
      else 4096 dvd unat p \<and> (\<exists>fl' lg'. rep hp fl' lg' (add_mset (p, unat need) L)))"
  using assms(1-3)
proof (induction rest arbitrary: pre cur prev)
  case Nil
  then show ?case by (subst take_loop.simps) (simp add: NULL_LINK_def)
next
  case (Cons e rest)
  have cur: "cur = fst e" "cur \<noteq> 0" "m (cur + 8) = of_nat (snd e)" "run_chain m (m cur) rest"
    using Cons.prems(2) by auto
  have e: "4096 dvd unat (fst e)" "4096 dvd snd e"
    using repD(2) [OF Cons.prems(1)] by (auto simp: lists_ok_def)
  have "in_arena h e" using repD(4) [OF Cons.prems(1), of e] by simp
  then have "snd e < 2 ^ 64" using unat_bound [of "sh_next h"] by (simp add: in_arena_def)
  then have us: "unat (of_nat (snd e) :: usize) = snd e" by (intro unat_of_nat_small) simp
  show ?case
  proof (cases "need \<le> of_nat (snd e)")
    case True
    let ?u = "unlink_run (h, m) prev (m cur)"
    have "rep (fst ?u, snd ?u) fl (pre @ rest) (add_mset (cur, snd e) L)"
      using unlink_rep [OF Cons.prems(1,3)] cur(1) by simp
    from recycle_rep [OF this] e assms(4,5) True us cur(1)
    have "\<exists>fl' lg'. rep (recycle ?u (cur + need) (of_nat (snd e) - need)) fl' lg' (add_mset (cur, unat need) L)"
      by (simp add: word_le_nat_alt)
    with True cur e show ?thesis
      by (subst take_loop.simps) (simp add: NULL_LINK_def)
  next
    case False
    have "take_loop (h, m) need prev cur = take_loop (h, m) need cur (m cur)"
      using False cur by (subst take_loop.simps) (simp add: NULL_LINK_def)
    moreover have "rep (h, m) fl ((pre @ [e]) @ rest) L" using Cons.prems(1) by simp
    ultimately show ?thesis using Cons.IH [of "pre @ [e]" "m cur" cur] cur by simp
  qed
qed

section \<open>Allocating and freeing\<close>

lemma position_Some:
  "position P xs = Some i \<longleftrightarrow> i < length xs \<and> P (xs ! i) \<and> (\<forall>j < i. \<not> P (xs ! j))"
  by (induction xs arbitrary: i) (auto simp: nth_Cons less_Suc_eq_0_disj split: nat.splits)

lemma position_None: "position P xs = None \<longleftrightarrow> (\<forall>x \<in> set xs. \<not> P x)"
  by (induction xs) auto

lemma unat_power2: "k < 64 \<Longrightarrow> unat (2 ^ k :: usize) = 2 ^ k"
  using unat_of_nat_small [where 'w = 64, of "2 ^ k"] power_strict_increasing [of k 64 "2 :: nat"] by simp

text \<open>The bytes and the alignment of the block that serves a request.\<close>

definition block_bytes :: "usize \<Rightarrow> usize \<Rightarrow> nat" where
  "block_bytes sz align =
     (case size_class_index sz align of
        Some i \<Rightarrow> cls i
      | None \<Rightarrow> (case page_round_up sz of Some n \<Rightarrow> unat n | None \<Rightarrow> 0))"

definition block_align :: "usize \<Rightarrow> usize \<Rightarrow> nat" where
  "block_align sz align = (case size_class_index sz align of Some i \<Rightarrow> cls i | None \<Rightarrow> 4096)"

definition servable :: "usize \<Rightarrow> usize \<Rightarrow> bool" where
  "servable sz align \<longleftrightarrow>
     size_class_index sz align \<noteq> None \<or> (align \<le> PAGE_BYTES \<and> page_round_up sz \<noteq> None)"

lemma size_class_Some:
  assumes "size_class_index sz align = Some i"
  shows "i < 9" "unat sz \<le> cls i" "unat align \<le> cls i"
proof -
  from assms have i: "i < 9" and "sz \<le> SIZE_CLASSES ! i \<and> align \<le> SIZE_CLASSES ! i"
    by (auto simp: size_class_index_def Let_def position_Some SIZE_CLASSES_def split: if_splits)
  then show "i < 9" "unat sz \<le> cls i" "unat align \<le> cls i"
    using unat_SIZE_CLASSES [OF i] by (auto simp: word_le_nat_alt)
qed

lemma size_class_None:
  assumes "size_class_index sz align = None"
  shows "4096 < unat sz \<or> 4096 < unat align"
proof (rule ccontr)
  assume "\<not> (4096 < unat sz \<or> 4096 < unat align)"
  then have "sz \<le> 4096" "align \<le> 4096" by (auto simp: word_le_nat_alt)
  with assms show False
    by (auto simp: size_class_index_def Let_def position_None SIZE_CLASSES_def MAX_SMALL_BYTES_def split: if_splits)
qed

lemma page_round_up_spec:
  assumes "page_round_up sz = Some n"
  shows "4096 dvd unat n" "unat sz \<le> unat n" "unat n < unat sz + 4096"
proof -
  from assms obtain t where t: "checked_add sz (PAGE_BYTES - 1) = Some t" "n = t AND NOT (2 ^ 12 - 1)"
    by (auto simp: page_round_up_def PAGE_BYTES_def)
  from checked_add_SomeD [OF t(1)] have "unat t = unat sz + unat (PAGE_BYTES - 1)" by blast
  then have ut: "unat t = unat sz + 4095" by (simp add: PAGE_BYTES_def)
  have n: "unat n = unat t - unat t mod 4096" unfolding t(2) and_not_mask by simp
  show "4096 dvd unat n" unfolding n by (rule dvd_minus_mod)
  have "unat t mod 4096 < 4096" by simp
  then show "unat sz \<le> unat n" "unat n < unat sz + 4096" unfolding n ut by linarith+
qed

lemma large_bytes:
  assumes "size_class_index sz align = None" "align \<le> PAGE_BYTES" "page_round_up sz = Some n"
  shows "8192 \<le> unat n"
proof -
  have "4096 < unat sz"
    using size_class_None [OF assms(1)] assms(2) by (auto simp: word_le_nat_alt PAGE_BYTES_def)
  with page_round_up_spec(1,2) [OF assms(3)] show ?thesis by (auto elim!: dvdE)
qed

lemma block_fits:
  assumes "servable sz (2 ^ k)" "k < 64"
  shows "unat sz \<le> block_bytes sz (2 ^ k)" "2 ^ k dvd block_align sz (2 ^ k)" "16 \<le> block_bytes sz (2 ^ k)"
proof -
  have "unat sz \<le> block_bytes sz (2 ^ k) \<and> 16 \<le> block_bytes sz (2 ^ k)"
  proof (cases "size_class_index sz (2 ^ k)")
    case (Some i)
    with size_class_Some(2) [OF Some] show ?thesis by (simp add: block_bytes_def)
  next
    case None
    with assms obtain n where n: "2 ^ k \<le> PAGE_BYTES" "page_round_up sz = Some n" by (auto simp: servable_def)
    with None page_round_up_spec(2) [OF n(2)] large_bytes [OF None n] show ?thesis by (simp add: block_bytes_def)
  qed
  then show "unat sz \<le> block_bytes sz (2 ^ k)" "16 \<le> block_bytes sz (2 ^ k)" by simp_all
  show "2 ^ k dvd block_align sz (2 ^ k)"
  proof (cases "size_class_index sz (2 ^ k)")
    case (Some i)
    have "(2 :: nat) ^ k \<le> 2 ^ (i + 4)" using size_class_Some(3) [OF Some] assms(2) by (simp add: unat_power2 cls_def)
    then have "k \<le> i + 4" by (rule power_le_imp_le_exp [rotated]) simp
    with Some show ?thesis by (simp add: block_align_def cls_def le_imp_power_dvd)
  next
    case None
    with assms have "(2 :: nat) ^ k \<le> 2 ^ 12" by (simp add: servable_def PAGE_BYTES_def word_le_nat_alt unat_power2)
    then have "k \<le> 12" by (rule power_le_imp_le_exp [rotated]) simp
    then have "(2 :: nat) ^ k dvd 2 ^ 12" by (rule le_imp_power_dvd)
    with None show ?thesis by (simp add: block_align_def)
  qed
qed

lemma allocate_large:
  assumes r: "rep (h, m) fl lg L" and c: "size_class_index sz align = None" "align \<le> PAGE_BYTES" "page_round_up sz = Some n"
  shows "\<exists>p hp. (case take_large_run (h, m) n of
       None \<Rightarrow> None
     | Some (reused, hp1) \<Rightarrow>
         if reused \<noteq> 0 then Some (reused, hp1)
         else (case carve (fst hp1) n PAGE_BYTES of
                 None \<Rightarrow> Some (0, hp1)
               | Some (addr, h) \<Rightarrow> Some (addr, (h, snd hp1)))) = Some (p, hp) \<and>
     (\<exists>fl' lg'. if p = 0 then rep hp fl' lg' L else 4096 dvd unat p \<and> rep hp fl' lg' (add_mset (p, unat n) L))"
proof -
  note n = page_round_up_spec(1) [OF c(3)] large_bytes [OF c]
  have "run_chain m (sh_large h) lg" using repD(2) [OF r] by (simp add: lists_ok_def)
  from take_loop_rep [of h m fl "[]" lg L, OF _ this _ n] r obtain p hp
    where t: "take_large_run (h, m) n = Some (p, hp)"
      and p: "if p = 0 then hp = (h, m)
        else 4096 dvd unat p \<and> (\<exists>fl' lg'. rep hp fl' lg' (add_mset (p, unat n) L))"
    by (auto simp: take_large_run_def)
  show ?thesis
  proof (cases "p = 0")
    case False
    with t p show ?thesis by auto
  next
    case True
    with p have hp: "hp = (h, m)" by simp
    show ?thesis
    proof (cases "carve h n PAGE_BYTES")
      case None
      with t True hp r show ?thesis by auto
    next
      case (Some x)
      obtain a h' where x: "x = (a, h')" by force
      have "carve h n (2 ^ 12) = Some (a, h')" using Some x by (simp add: PAGE_BYTES_def)
      from carve_rep [OF r this] n(2)
      have "rep (h', m) fl lg (add_mset (a, unat n) L)" "4096 dvd unat a" by simp_all
      with t True hp Some x owned_nonzero show ?thesis by auto
    qed
  qed
qed

lemma allocate_rep:
  assumes r: "rep (h, m) fl lg L"
  shows "\<exists>p hp. allocate (h, m) sz align = Some (p, hp) \<and> (\<exists>fl' lg'.
     if p = 0 then rep hp fl' lg' L
     else servable sz align \<and> block_align sz align dvd unat p \<and>
       rep hp fl' lg' (add_mset (p, block_bytes sz align) L))"
proof (cases "sh_end h = UNINIT")
  case True
  with r show ?thesis by (auto simp: allocate_def)
next
  case init: False
  show ?thesis
  proof (cases "size_class_index sz align")
    case (Some i)
    note i = size_class_Some(1) [OF Some]
    obtain res hp1 where p: "pop_free (h, m) i = (res, hp1)" by (cases "pop_free (h, m) i")
    note pop = pop_free_rep [OF r i p]
    have b: "servable sz align = True" "block_align sz align = cls i" "block_bytes sz align = cls i"
      using Some by (simp_all add: servable_def block_align_def block_bytes_def)
    show ?thesis
    proof (cases res)
      case None
      with pop have hp1: "hp1 = (h, m)" by simp
      obtain q hp where q: "refill_class (h, m) i = (q, hp)" by (cases "refill_class (h, m) i")
      have "allocate (h, m) sz align = Some (q, hp)"
        using Some None p q hp1 init by (simp add: allocate_def)
      moreover from refill_class_rep [OF r i q] obtain fl'
        where "if q = 0 then rep hp fl' lg L else rep hp fl' lg (add_mset (q, cls i) L) \<and> cls i dvd unat q" ..
      ultimately show ?thesis unfolding b by (metis (no_types))
    next
      case (Some q)
      have "allocate (h, m) sz align = Some (q, hp1)"
        using \<open>size_class_index sz align = Some i\<close> Some p init by (simp add: allocate_def)
      moreover from pop Some have q: "rep hp1 (fl(i := tl (fl i))) lg (add_mset (q, cls i) L)" "cls i dvd unat q" by auto
      moreover have "q \<noteq> 0" by (rule owned_nonzero [OF q(1)])
      ultimately show ?thesis unfolding b by (metis (no_types))
    qed
  next
    case None
    show ?thesis
    proof (cases "PAGE_BYTES < align \<or> page_round_up sz = None")
      case True
      with None init have "allocate (h, m) sz align = Some (0, (h, m))" by (auto simp: allocate_def)
      with r show ?thesis by auto
    next
      case False
      then obtain n where n: "align \<le> PAGE_BYTES" "page_round_up sz = Some n" by auto
      have b: "servable sz align = True" "block_align sz align = 4096" "block_bytes sz align = unat n"
        using None n by (simp_all add: servable_def block_align_def block_bytes_def)
      have eq: "allocate (h, m) sz align = (case take_large_run (h, m) n of
          None \<Rightarrow> None
        | Some (reused, hp1) \<Rightarrow>
            if reused \<noteq> 0 then Some (reused, hp1)
            else (case carve (fst hp1) n PAGE_BYTES of
                    None \<Rightarrow> Some (0, hp1)
                  | Some (addr, h) \<Rightarrow> Some (addr, (h, snd hp1))))"
        using init None n leD [OF n(1)] by (simp add: allocate_def)
      show ?thesis unfolding b eq using allocate_large [OF r None n] by (simp only: simp_thms)
    qed
  qed
qed

lemma heap_free_rep:
  assumes r: "rep (h, m) fl lg (add_mset (p, block_bytes sz align) L)"
    and "servable sz align" "block_align sz align dvd unat p"
  shows "\<exists>fl' lg'. rep (heap_free (h, m) p sz align) fl' lg' L"
proof (cases "size_class_index sz align")
  case (Some i)
  with r have "rep (h, m) fl lg (add_mset (p, cls i) L)" by (simp add: block_bytes_def)
  from push_free_rep [OF this size_class_Some(1) [OF Some]] assms Some owned_nonzero [OF r] show ?thesis
    by (auto simp: heap_free_def block_align_def)
next
  case None
  then obtain n where n: "align \<le> PAGE_BYTES" "page_round_up sz = Some n" using assms(2) by (auto simp: servable_def)
  with None r have "rep (h, m) fl lg (add_mset (p, unat n) L)" by (simp add: block_bytes_def)
  from push_large_run_rep [OF this] page_round_up_spec(1) [OF n(2)] large_bytes [OF None n] assms(3) None n
    owned_nonzero [OF r] show ?thesis
    by (auto simp: heap_free_def block_align_def)
qed

section \<open>The arena does not move\<close>

definition bounds :: "heap \<Rightarrow> usize \<times> usize" where
  "bounds hp = (sh_base (fst hp), sh_end (fst hp))"

lemma bounds_push_free [simp]: "bounds (push_free hp i b) = bounds hp"
  by (cases hp) (simp add: bounds_def push_free_def)

lemma bounds_pop_free: "pop_free hp i = (res, hp') \<Longrightarrow> bounds hp' = bounds hp"
  by (cases hp) (auto simp: bounds_def pop_free_def Let_def split: if_splits)

lemma bounds_carve_fields: "carve h sz align = Some (a, h') \<Longrightarrow> sh_base h' = sh_base h \<and> sh_end h' = sh_end h"
  by (auto simp: carve_def Let_def split: if_splits option.splits)

lemma bounds_carve: "carve h sz align = Some (a, h') \<Longrightarrow> bounds (h', m') = bounds (h, m)"
  by (auto simp: bounds_def carve_def Let_def split: if_splits option.splits)

lemma bounds_thread_blocks [simp]: "bounds (thread_blocks hp i run c ks) = bounds hp"
  by (induction ks arbitrary: hp) (simp_all add: thread_blocks_def)

lemma bounds_refill_class: "refill_class hp i = (p, hp') \<Longrightarrow> bounds hp' = bounds hp"
  by (cases hp) (auto simp: refill_class_def Let_def split: if_splits option.splits dest: bounds_carve)

lemma bounds_push_large_run [simp]: "bounds (push_large_run hp a sz) = bounds hp"
  by (cases hp) (simp add: bounds_def push_large_run_def)

lemma bounds_unlink_run [simp]: "bounds (unlink_run hp prev nxt) = bounds hp"
  by (cases hp) (simp add: bounds_def unlink_run_def)

lemma bounds_recycle [simp]: "bounds (recycle hp a t) = bounds hp"
  by (simp add: recycle_def)

lemma bounds_take_loop:
  assumes "take_loop hp need prev cur = Some r"
  shows "bounds (snd r) = bounds hp"
proof (rule take_loop.raw_induct [of "\<lambda>hp need prev cur r. bounds (snd r) = bounds hp", OF _ assms])
  fix loop :: "heap \<Rightarrow> usize \<Rightarrow> usize \<Rightarrow> usize \<Rightarrow> (usize \<times> heap) option" and hp need prev cur r
  assume "\<And>hp need prev cur r. loop hp need prev cur = Some r \<Longrightarrow> bounds (snd r) = bounds hp"
  then show "(if cur = NULL_LINK then Some (0, hp)
      else let cur_next = snd hp cur; cur_size = snd hp (cur + 8)
        in if need \<le> cur_size
           then Some (cur, recycle (unlink_run hp prev cur_next) (cur + need) (cur_size - need))
           else loop hp need cur cur_next) = Some r \<Longrightarrow> bounds (snd r) = bounds hp"
    by (auto simp: Let_def split: if_splits)
qed

lemma bounds_allocate:
  assumes "allocate hp sz align = Some (p, hp')"
  shows "bounds hp' = bounds hp"
proof (cases "size_class_index sz align")
  case (Some i)
  with assms show ?thesis
    by (auto simp: allocate_def split: if_splits option.splits prod.splits
      dest!: bounds_pop_free bounds_refill_class)
next
  case None
  with assms show ?thesis
    by (auto simp: allocate_def take_large_run_def split: if_splits option.splits prod.splits
      dest!: bounds_take_loop) (simp add: bounds_def bounds_carve_fields)
qed

lemma bounds_heap_free [simp]: "bounds (heap_free hp p sz align) = bounds hp"
  by (simp add: heap_free_def split: option.splits)

section \<open>Runs\<close>

text \<open>
  A run keeps the blocks handed out and not yet freed, each with the size and the logarithm of the
  alignment it was asked for: an allocation, the release of a live block with its own layout, and a
  client's store of a word inside a live block. \<open>None\<close> is a call that does not return.
\<close>

type_synonym block = "usize \<times> usize \<times> nat"

datatype heap_op =
    HAlloc usize nat
  | HFree nat
  | HStore nat nat usize

fun heap_do :: "heap \<times> block list \<Rightarrow> heap_op \<Rightarrow> (heap \<times> block list) option" where
  "heap_do (hp, live) (HAlloc sz k) =
     (if k < 64
      then (case allocate hp sz (2 ^ k) of
              None \<Rightarrow> None
            | Some (p, hp') \<Rightarrow> Some (hp', if p = 0 then live else (p, sz, k) # live))
      else Some (hp, live))"
| "heap_do (hp, live) (HFree n) =
     (if n < length live
      then (case live ! n of (p, sz, k) \<Rightarrow> Some (heap_free hp p sz (2 ^ k), take n live @ drop (Suc n) live))
      else Some (hp, live))"
| "heap_do (hp, live) (HStore n w v) =
     (if n < length live \<and> 8 * w + 8 \<le> unat (fst (snd (live ! n)))
      then Some ((fst hp, (snd hp)(fst (live ! n) + of_nat (8 * w) := v)), live)
      else Some (hp, live))"

definition heap_step :: "(heap \<times> block list) option \<Rightarrow> heap_op \<Rightarrow> (heap \<times> block list) option" where
  "heap_step st op = Option.bind st (\<lambda>s. heap_do s op)"

definition block_extent :: "block \<Rightarrow> extent" where
  "block_extent b = (case b of (p, sz, k) \<Rightarrow> (p, block_bytes sz (2 ^ k)))"

definition block_ok :: "block \<Rightarrow> bool" where
  "block_ok b = (case b of (p, sz, k) \<Rightarrow> k < 64 \<and> servable sz (2 ^ k) \<and> block_align sz (2 ^ k) dvd unat p)"

definition run_inv :: "usize \<times> usize \<Rightarrow> (heap \<times> block list) option \<Rightarrow> bool" where
  "run_inv be st \<longleftrightarrow> (\<exists>hp live fl lg. st = Some (hp, live) \<and> bounds hp = be \<and>
     rep hp fl lg (image_mset block_extent (mset live)) \<and> (\<forall>b \<in> set live. block_ok b))"

lemma run_invI:
  "rep hp fl lg (image_mset block_extent (mset live)) \<Longrightarrow> bounds hp = be \<Longrightarrow> (\<And>b. b \<in> set live \<Longrightarrow> block_ok b) \<Longrightarrow>
     run_inv be (Some (hp, live))"
  by (auto simp: run_inv_def)

lemma mset_remove_nth: "n < length xs \<Longrightarrow> mset xs = add_mset (xs ! n) (mset (take n xs @ drop (Suc n) xs))"
  by (metis id_take_nth_drop mset.simps(2) mset_append union_mset_add_mset_right)

lemma store_inv:
  assumes r: "rep (h, m) fl lg (image_mset block_extent (mset live))" and b: "bounds (h, m) = be"
    and ok: "\<And>b. b \<in> set live \<Longrightarrow> block_ok b"
    and n: "n < length live" and w: "8 * w + 8 \<le> unat (fst (snd (live ! n)))"
  shows "run_inv be (Some ((h, m(fst (live ! n) + of_nat (8 * w) := v)), live))"
proof -
  obtain p sz k where e: "live ! n = (p, sz, k)" by (cases "live ! n")
  let ?L = "image_mset block_extent (mset (take n live @ drop (Suc n) live))"
  have L: "image_mset block_extent (mset live) = add_mset (p, block_bytes sz (2 ^ k)) ?L"
    unfolding mset_remove_nth [OF n] by (simp add: e block_extent_def)
  have "block_ok (p, sz, k)" using ok nth_mem [OF n] e by metis
  then have fit: "unat sz \<le> block_bytes sz (2 ^ k)" by (auto simp: block_ok_def intro: block_fits)
  have "in_arena h (p, block_bytes sz (2 ^ k))" using repD(4) [OF r, of "(p, block_bytes sz (2 ^ k))"] by (simp add: L)
  then have "unat (p + of_nat (8 * w)) = unat p + 8 * w"
    using unat_bound [of "sh_next h"] w e fit by (intro unat_add_small) (simp add: in_arena_def)
  then have "rep (h, m(p + of_nat (8 * w) := v)) fl lg (add_mset (p, block_bytes sz (2 ^ k)) ?L)"
    using w e fit by (intro rep_store r [unfolded L]) simp_all
  then show ?thesis
    using b ok by (intro run_invI [where fl = fl and lg = lg]) (simp_all add: L e bounds_def)
qed

lemma run_inv_step:
  assumes "run_inv be st"
  shows "run_inv be (heap_step st op)"
proof -
  from assms obtain h m live fl lg where st: "st = Some ((h, m), live)" and b: "bounds (h, m) = be"
    and r: "rep (h, m) fl lg (image_mset block_extent (mset live))" and ok: "\<And>b. b \<in> set live \<Longrightarrow> block_ok b"
    by (auto simp: run_inv_def)
  have nth: "rep (h, m) fl lg (add_mset (block_extent (live ! n))
      (image_mset block_extent (mset (take n live @ drop (Suc n) live))))" if "n < length live" for n
    using r unfolding mset_remove_nth [OF that] image_mset_add_mset .
  note keep = run_invI [OF r b ok]
  show ?thesis
  proof (cases op)
    case (HAlloc sz k)
    show ?thesis
    proof (cases "k < 64")
      case True
      from allocate_rep [OF r, of sz "2 ^ k"] obtain p hp fl' lg' where p: "allocate (h, m) sz (2 ^ k) = Some (p, hp)"
        and res: "if p = 0 then rep hp fl' lg' (image_mset block_extent (mset live))
          else servable sz (2 ^ k) \<and> block_align sz (2 ^ k) dvd unat p \<and>
            rep hp fl' lg' (add_mset (p, block_bytes sz (2 ^ k)) (image_mset block_extent (mset live)))"
        by blast
      have "run_inv be (Some (hp, if p = 0 then live else (p, sz, k) # live))"
        using res ok True b bounds_allocate [OF p]
        by (intro run_invI [where fl = fl' and lg = lg']) (auto simp: block_extent_def block_ok_def split: if_splits)
      with HAlloc st True p show ?thesis by (simp add: heap_step_def)
    next
      case False
      with HAlloc st keep show ?thesis by (simp add: heap_step_def)
    qed
  next
    case (HFree n)
    show ?thesis
    proof (cases "n < length live")
      case True
      obtain p sz k where e: "live ! n = (p, sz, k)" by (cases "live ! n")
      have "block_ok (p, sz, k)" using ok nth_mem [OF True] e by metis
      then have k: "servable sz (2 ^ k)" "block_align sz (2 ^ k) dvd unat p" by (simp_all add: block_ok_def)
      have "block_extent (live ! n) = (p, block_bytes sz (2 ^ k))" by (simp add: e block_extent_def)
      from heap_free_rep [OF nth [OF True, unfolded this] k] obtain fl' lg'
        where "rep (heap_free (h, m) p sz (2 ^ k)) fl' lg' (image_mset block_extent (mset (take n live @ drop (Suc n) live)))"
        by blast
      then have "run_inv be (Some (heap_free (h, m) p sz (2 ^ k), take n live @ drop (Suc n) live))"
        by (rule run_invI) (use b ok in \<open>auto dest: in_set_takeD in_set_dropD\<close>)
      with HFree st True e show ?thesis by (simp add: heap_step_def)
    next
      case False
      with HFree st keep show ?thesis by (simp add: heap_step_def)
    qed
  next
    case (HStore n w v)
    then show ?thesis using store_inv [OF r b ok] st keep by (auto simp: heap_step_def)
  qed
qed

interpretation slab: op_system heap_step "run_inv be" for be
  by unfold_locales (rule run_inv_step)

lemma run_inv_start:
  assumes "slab_init slab_new base len = Some h" "base \<noteq> 0" "unat base + unat len + 4096 \<le> 2 ^ 64"
  shows "run_inv (base, base + len) (Some ((h, m), []))"
proof -
  from assms(1) obtain e where e: "checked_add base len = Some e" "h = slab_new\<lparr>sh_base := base, sh_end := e, sh_next := base\<rparr>"
    by (auto simp: slab_init_def split: option.splits if_splits)
  from checked_add_SomeD [OF e(1)] have ue: "e = base + len" "unat e = unat base + unat len" by blast+
  have free: "length (sh_free h) = 9" "sh_free h ! i = 0" "sh_large h = 0" if "i < 9" for i
    using that nth_replicate [of i 9 "0 :: usize"]
    by (simp_all add: e(2) slab_new_def NUM_SIZE_CLASSES_def SIZE_CLASSES_def NULL_LINK_def numeral_nat nth_Cons'
      del: replicate.simps)
  have ends: "sh_base h = base" "sh_next h = base" "sh_end h = e" by (simp_all add: e(2))
  have "rep (h, m) (\<lambda>i. []) [] {#}"
    using assms(2,3) ue free(1,3) [of 0] free(2)
    by (simp add: rep_def arena_ok_def lists_ok_def small_ms_def ends)
  then show ?thesis
    by (intro run_invI [where fl = "\<lambda>i. []" and lg = "[]"]) (simp_all add: bounds_def e(2) ue)
qed

lemma run_inv_apart:
  assumes "run_inv be (Some (hp, live))" "i < length live" "j < length live" "i \<noteq> j"
  shows "apart (block_extent (live ! i)) (block_extent (live ! j))"
proof -
  from assms(1) obtain fl lg where r: "rep hp fl lg (image_mset block_extent (mset live))" by (auto simp: run_inv_def)
  let ?X = "take i live @ drop (Suc i) live"
  have "live ! j \<in> set ?X"
  proof (cases "j < i")
    case True
    with assms show ?thesis by (auto simp: in_set_conv_nth intro: exI [of _ j])
  next
    case False
    with assms have "live ! j = drop (Suc i) live ! (j - Suc i)" "j - Suc i < length (drop (Suc i) live)" by auto
    then show ?thesis by (metis UnCI nth_mem set_append)
  qed
  moreover have "all_apart (add_mset (block_extent (live ! i)) (image_mset block_extent (mset ?X) + small_ms fl + mset lg))"
    using repD(3) [OF r] unfolding mset_remove_nth [OF assms(2)] by simp
  ultimately show ?thesis by (auto simp: all_apart_add)
qed

section \<open>Properties\<close>

text \<open>
  C1. From a fresh arena, whatever allocations, releases of live blocks and client stores inside
  live blocks run in whatever order, every call returns, and the live blocks are at least as large
  as asked, aligned as asked, not null, inside the arena, and pairwise disjoint.
\<close>

theorem heap_blocks_sound:
  assumes "slab_init slab_new base len = Some h" "base \<noteq> 0" "unat base + unat len + 4096 \<le> 2 ^ 64"
  shows "\<exists>hp live. foldl heap_step (Some ((h, m), [])) ops = Some (hp, live) \<and>
     (\<forall>(p, sz, k) \<in> set live. p \<noteq> 0 \<and> 2 ^ k dvd unat p \<and> unat sz \<le> block_bytes sz (2 ^ k) \<and>
        unat base \<le> unat p \<and> unat p + block_bytes sz (2 ^ k) \<le> unat base + unat len) \<and>
     (\<forall>i < length live. \<forall>j < length live. i \<noteq> j \<longrightarrow> apart (block_extent (live ! i)) (block_extent (live ! j)))"
proof -
  have inv: "run_inv (base, base + len) (foldl heap_step (Some ((h, m), [])) ops)"
    by (rule slab.inv_run [OF run_inv_start [OF assms]])
  then obtain hp live fl lg where st: "foldl heap_step (Some ((h, m), [])) ops = Some (hp, live)"
    and b: "bounds hp = (base, base + len)" and r: "rep hp fl lg (image_mset block_extent (mset live))"
    and ok: "\<And>b. b \<in> set live \<Longrightarrow> block_ok b"
    by (auto simp: run_inv_def)
  have len: "unat (base + len) = unat base + unat len"
    using assms(3) by (simp add: unat_word_ariths)
  have "p \<noteq> 0 \<and> 2 ^ k dvd unat p \<and> unat sz \<le> block_bytes sz (2 ^ k) \<and>
      unat base \<le> unat p \<and> unat p + block_bytes sz (2 ^ k) \<le> unat base + unat len"
    if x: "(p, sz, k) \<in> set live" for p sz k
  proof -
    have "block_extent (p, sz, k) \<in># image_mset block_extent (mset live)" using x by auto
    then have ia: "in_arena (fst hp) (p, block_bytes sz (2 ^ k))" using repD(4) [OF r] by (simp add: block_extent_def)
    have k: "k < 64" "servable sz (2 ^ k)" "block_align sz (2 ^ k) dvd unat p" using ok [OF x] by (simp_all add: block_ok_def)
    with block_fits [OF k(2,1)] in_arena_nonzero [OF repD(1) [OF r] ia] ia b len repD(1) [OF r] show ?thesis
      by (auto simp: in_arena_def bounds_def arena_ok_def intro: dvd_trans)
  qed
  with st run_inv_apart [OF inv [unfolded st]] show ?thesis by blast
qed

theorem heap_blocks_sound_witness:
  "\<exists>h hp live. slab_init slab_new 0x100000 0x400000 = Some h \<and>
     foldl heap_step (Some ((h, \<lambda>_. 0), []))
       [HAlloc 24 3, HAlloc 9000 12, HStore 0 5 7, HFree 0, HAlloc 5000 4] = Some (hp, live) \<and>
     (\<forall>i < length live. \<forall>j < length live. i \<noteq> j \<longrightarrow> apart (block_extent (live ! i)) (block_extent (live ! j)))"
proof -
  have "\<exists>h. slab_init slab_new 0x100000 0x400000 = Some h"
    by (simp add: slab_init_def slab_new_def checked_add_def UNINIT_def)
  then obtain h where h: "slab_init slab_new 0x100000 0x400000 = Some h" ..
  from heap_blocks_sound [OF h, of "\<lambda>_. 0" "[HAlloc 24 3, HAlloc 9000 12, HStore 0 5 7, HFree 0, HAlloc 5000 4]"]
  show ?thesis using h by auto
qed

text \<open>
  C15. A block just freed is the one the next request with the same layout gets, and the heap is
  then as before the free, up to the words written inside the block itself.
\<close>

theorem freed_block_is_reused:
  assumes "length (sh_free h) = NUM_SIZE_CLASSES" "sh_end h \<noteq> UNINIT" "p \<noteq> 0" "servable sz align"
  shows "\<exists>m'. allocate (heap_free (h, m) p sz align) sz align = Some (p, (h, m')) \<and>
     (\<forall>a. a \<noteq> p \<and> a \<noteq> p + 8 \<longrightarrow> m' a = m a)"
proof (cases "size_class_index sz align")
  case (Some i)
  from size_class_Some(1) [OF Some] assms(1) have i: "i < length (sh_free h)"
    by (simp add: NUM_SIZE_CLASSES_def SIZE_CLASSES_def)
  have "allocate (heap_free (h, m) p sz align) sz align = Some (p, (h, m(p := sh_free h ! i)))"
    using Some i assms(2,3)
    by (simp add: allocate_def heap_free_def push_free_def pop_free_def NULL_LINK_def)
  then show ?thesis by auto
next
  case None
  then obtain n where n: "align \<le> PAGE_BYTES" "page_round_up sz = Some n" using assms(4) by (auto simp: servable_def)
  let ?m = "m(p := sh_large h, p + 8 := n)"
  have "take_large_run (h\<lparr>sh_large := p\<rparr>, ?m) n = Some (p, (h, ?m))"
    unfolding take_large_run_def using assms(3)
    by (subst take_loop.simps) (simp add: NULL_LINK_def recycle_def unlink_run_def LARGE_RUN_MIN_def PAGE_BYTES_def)
  then have "allocate (heap_free (h, m) p sz align) sz align = Some (p, (h, ?m))"
    using None n assms(2,3) by (simp add: allocate_def heap_free_def push_large_run_def)
  then show ?thesis by auto
qed

theorem freed_block_is_reused_witness:
  "\<exists>m'. allocate (heap_free (slab_new\<lparr>sh_base := 4096, sh_next := 16384, sh_end := 65536\<rparr>, \<lambda>_. 0) 4096 9000 8) 9000 8 =
     Some (4096, (slab_new\<lparr>sh_base := 4096, sh_next := 16384, sh_end := 65536\<rparr>, m')) \<and>
     (\<forall>a. a \<noteq> 4096 \<and> a \<noteq> 4096 + 8 \<longrightarrow> m' a = 0)"
proof -
  have "servable 9000 8"
    by (simp add: servable_def PAGE_BYTES_def page_round_up_def checked_add_def)
  then show ?thesis
    by (intro freed_block_is_reused) (simp_all add: slab_new_def UNINIT_def)
qed

section \<open>The arena that is chosen\<close>

definition region_fits :: "memory_region \<Rightarrow> bool" where
  "region_fits r \<longleftrightarrow> mr_usable r \<and> MIN_HEAP_BYTES \<le> saturating_sub (mr_end r) (mr_start r)"

definition better :: "u64 \<times> u64 \<Rightarrow> u64 \<times> u64 \<Rightarrow> bool" where
  "better a b \<longleftrightarrow> snd b < snd a \<or> (snd a = snd b \<and> fst a \<le> fst b)"

abbreviation region_pair :: "memory_region \<Rightarrow> u64 \<times> u64" where
  "region_pair r \<equiv> (mr_start r, saturating_sub (mr_end r) (mr_start r))"

lemma better_trans: "better a b \<Longrightarrow> better b c \<Longrightarrow> better a c"
  by (auto simp: better_def)

lemma pick_step_fits:
  "pick_step best r =
     (if region_fits r
      then (case best of None \<Rightarrow> Some (region_pair r) | Some b \<Rightarrow> Some (if better b (region_pair r) then b else region_pair r))
      else best)"
  by (auto simp: pick_step_def region_fits_def better_def Let_def split: option.splits prod.splits)

lemma pick_fold:
  "case foldl pick_step None regions of
     None \<Rightarrow> \<forall>r \<in> set regions. \<not> region_fits r
   | Some b \<Rightarrow> (\<exists>r \<in> set regions. region_fits r \<and> b = region_pair r) \<and>
       (\<forall>r \<in> set regions. region_fits r \<longrightarrow> better b (region_pair r))"
proof (induction regions rule: rev_induct)
  case (snoc r rs)
  have refl: "better b b" for b by (simp add: better_def)
  have lin: "\<not> better a b \<Longrightarrow> better b a" for a b by (auto simp: better_def)
  show ?case
  proof (cases "foldl pick_step None rs")
    case None
    with snoc show ?thesis by (simp add: pick_step_fits [of None r] refl)
  next
    case (Some b)
    with snoc have IH: "\<exists>r \<in> set rs. region_fits r \<and> b = region_pair r"
        "\<And>r. r \<in> set rs \<Longrightarrow> region_fits r \<Longrightarrow> better b (region_pair r)" by auto
    show ?thesis
    proof (cases "region_fits r \<and> \<not> better b (region_pair r)")
      case True
      then have "better (region_pair r) q" if "better b q" for q using that lin better_trans by blast
      with True IH Some show ?thesis by (simp add: pick_step_fits [of "Some b" r] refl)
    next
      case False
      with IH Some show ?thesis by (auto simp: pick_step_fits [of "Some b" r])
    qed
  qed
qed simp

text \<open>
  C16. \<open>pick_region\<close> panics exactly when no usable region has four MiB. Otherwise it takes a usable
  region of the greatest length, of those the one with the lowest start, and at most 128 MiB of it.
\<close>

theorem pick_region_largest:
  "case pick_region regions of
     None \<Rightarrow> \<forall>r \<in> set regions. \<not> region_fits r
   | Some (start, len) \<Rightarrow> \<exists>r \<in> set regions. region_fits r \<and> start = mr_start r \<and>
       len = min (mr_end r - mr_start r) HEAP_MAX_BYTES \<and>
       (\<forall>q \<in> set regions. region_fits q \<longrightarrow>
          mr_end q - mr_start q < mr_end r - mr_start r \<or>
          (mr_end q - mr_start q = mr_end r - mr_start r \<and> mr_start r \<le> mr_start q))"
proof -
  have sat: "saturating_sub (mr_end r) (mr_start r) = mr_end r - mr_start r" if "region_fits r" for r
    using that by (auto simp: region_fits_def saturating_sub_def MIN_HEAP_BYTES_def split: if_splits)
  show ?thesis
    using pick_fold [of regions] by (fastforce simp: pick_region_def better_def sat split: option.splits)
qed

theorem pick_region_largest_witness:
  "pick_region [\<lparr>mr_start = 0, mr_end = 0x500000, mr_usable = True\<rparr>, \<lparr>mr_start = 0x1000000, mr_end = 0x2000000, mr_usable = True\<rparr>] =
     Some (0x1000000, 0x1000000)"
  using pick_region_largest [of "[\<lparr>mr_start = 0, mr_end = 0x500000, mr_usable = True\<rparr>, \<lparr>mr_start = 0x1000000, mr_end = 0x2000000, mr_usable = True\<rparr>]"]
  by (auto simp: region_fits_def saturating_sub_def MIN_HEAP_BYTES_def HEAP_MAX_BYTES_def split: option.splits)

text \<open>
  An alignment that carries the cursor past the top of the address space wraps it: the request
  reports out of memory although the cursor has moved below the arena, and the next request is
  served from there.
\<close>

lemma bump_alloc_wraps:
  "let h = \<lparr>bh_base = 0xFFFFFFFF80000000, bh_next = 0xFFFFFFFF80000010, bh_end = 0xFFFFFFFF81000000\<rparr>
   in case bump_alloc h 64 (2 ^ 31) of (p, h1) \<Rightarrow> p = 0 \<and> bh_next h1 = 64 \<and> fst (bump_alloc h1 16 16) = 64"
  by (simp add: bump_alloc_def align_up_def checked_add_def UNINIT_def)

end
