(* ===== verification/Paging.thy ===== *)
theory Paging
  imports Frame_Allocator
begin

text \<open>
  The four-level page tables of \<open>nexacore-kernel/src/bare_metal/paging.rs\<close>. Physical memory is an
  array of frames: a memory maps the base address of a 4 KiB frame and an index below 512 to a
  64-bit word. The direct map shows the word \<open>i\<close> of the frame at \<open>p\<close> at the virtual address
  \<open>phys_offset + p + 8 i\<close>, so \<open>table_ptr(p)\<close> followed by \<open>entry(i)\<close> is the memory at \<open>p\<close> and
  \<open>i\<close>. The frame allocator is an argument of the operations that allocate: the function
  \<open>alloc_frame\<close> and its state. TLB invalidation has no effect on memory and is left out.

  Shown here: seen as a map from pages to frames with access rights, mapping a page leaves the
  frame and the rights of every other page, whether or not huge pages are split on the way, but for
  the user bit that a user mapping sets in the tables above it; the tables stay a tree of distinct frames that are not free; every word written
  is in a table of that tree or in a frame just taken from the allocator; the range check accepts
  exactly the ranges whose every byte is mapped with the rights asked for.
\<close>

section \<open>Entries\<close>

definition PTE_PRESENT :: u64 where "PTE_PRESENT = push_bit 0 1"
definition PTE_WRITABLE :: u64 where "PTE_WRITABLE = push_bit 1 1"
definition PTE_USER :: u64 where "PTE_USER = push_bit 2 1"
definition PTE_HUGE :: u64 where "PTE_HUGE = push_bit 7 1"
definition PTE_NO_EXEC :: u64 where "PTE_NO_EXEC = push_bit 63 1"

definition HUGE_1G_FRAME_MASK :: u64 where "HUGE_1G_FRAME_MASK = 0x000FFFFFC0000000"
definition HUGE_1G_OFFSET_MASK :: u64 where "HUGE_1G_OFFSET_MASK = 0x000000003FFFFFFF"
definition HUGE_2M_FRAME_MASK :: u64 where "HUGE_2M_FRAME_MASK = 0x000FFFFFFFE00000"
definition HUGE_2M_OFFSET_MASK :: u64 where "HUGE_2M_OFFSET_MASK = 0x00000000001FFFFF"

text \<open>A \<open>PageTableEntry\<close> is a transparent 64-bit word.\<close>

type_synonym page_table_entry = u64

definition is_present :: "page_table_entry \<Rightarrow> bool" where
  "is_present e \<longleftrightarrow> e AND PTE_PRESENT \<noteq> 0"

definition pte_phys :: "page_table_entry \<Rightarrow> phys_addr" where
  "pte_phys e = PhysAddr (e AND 0x000FFFFFFFFFF000)"

definition set_frame :: "phys_addr \<Rightarrow> u64 \<Rightarrow> page_table_entry" where
  "set_frame frame flags = (phys_u64 frame AND 0x000FFFFFFFFFF000) OR flags"

type_synonym raw_page_table = "nat \<Rightarrow> page_table_entry"
type_synonym phys_mem = "u64 \<Rightarrow> raw_page_table"

definition empty_table :: raw_page_table where
  "empty_table = (\<lambda>_. 0)"

definition table_entry :: "phys_mem \<Rightarrow> phys_addr \<Rightarrow> nat \<Rightarrow> page_table_entry" where
  "table_entry mem p idx = mem (phys_u64 p) idx"

definition set_entry :: "phys_mem \<Rightarrow> phys_addr \<Rightarrow> nat \<Rightarrow> page_table_entry \<Rightarrow> phys_mem" where
  "set_entry mem p idx e = mem(phys_u64 p := (mem (phys_u64 p))(idx := e))"

definition zero_table :: "phys_mem \<Rightarrow> phys_addr \<Rightarrow> phys_mem" where
  "zero_table mem p = mem(phys_u64 p := empty_table)"

datatype page_level = Pml4 | Pdpt | Pd | Pt

definition level_shift :: "page_level \<Rightarrow> nat" where
  "level_shift level = (case level of Pml4 \<Rightarrow> 39 | Pdpt \<Rightarrow> 30 | Pd \<Rightarrow> 21 | Pt \<Rightarrow> 12)"

definition virt_index :: "virt_addr \<Rightarrow> page_level \<Rightarrow> nat" where
  "virt_index virt level = unat (drop_bit (level_shift level) (virt_u64 virt) AND 0x1FF)"

section \<open>Walking the tables\<close>

record page_mapper =
  phys_offset :: u64
  root_phys :: phys_addr

definition translate_in :: "phys_mem \<Rightarrow> phys_addr \<Rightarrow> virt_addr \<Rightarrow> phys_addr option" where
  "translate_in mem root virt =
     (let pml4e = table_entry mem root (virt_index virt Pml4)
      in if \<not> is_present pml4e then None
         else let pdpte = table_entry mem (pte_phys pml4e) (virt_index virt Pdpt)
           in if \<not> is_present pdpte then None
              else if pdpte AND PTE_HUGE \<noteq> 0
              then Some (PhysAddr ((pdpte AND HUGE_1G_FRAME_MASK) + (virt_u64 virt AND HUGE_1G_OFFSET_MASK)))
              else let pde = table_entry mem (pte_phys pdpte) (virt_index virt Pd)
                in if \<not> is_present pde then None
                   else if pde AND PTE_HUGE \<noteq> 0
                   then Some (PhysAddr ((pde AND HUGE_2M_FRAME_MASK) + (virt_u64 virt AND HUGE_2M_OFFSET_MASK)))
                   else let pte = table_entry mem (pte_phys pde) (virt_index virt Pt)
                     in if \<not> is_present pte then None
                        else Some (PhysAddr (phys_u64 (pte_phys pte) + (virt_u64 virt AND 0xFFF))))"

definition translate :: "phys_mem \<Rightarrow> page_mapper \<Rightarrow> virt_addr \<Rightarrow> phys_addr option" where
  "translate mem pm virt =
     (let pml4e = table_entry mem (root_phys pm) (virt_index virt Pml4)
      in if \<not> is_present pml4e then None
         else let pdpte = table_entry mem (pte_phys pml4e) (virt_index virt Pdpt)
           in if \<not> is_present pdpte then None
              else if pdpte AND PTE_HUGE \<noteq> 0
              then let frame = pdpte AND HUGE_1G_FRAME_MASK; offset = virt_u64 virt AND HUGE_1G_OFFSET_MASK
                in Some (PhysAddr (frame + offset))
              else let pde = table_entry mem (pte_phys pdpte) (virt_index virt Pd)
                in if \<not> is_present pde then None
                   else if pde AND PTE_HUGE \<noteq> 0
                   then let frame = pde AND HUGE_2M_FRAME_MASK; offset = virt_u64 virt AND HUGE_2M_OFFSET_MASK
                     in Some (PhysAddr (frame + offset))
                   else let pte = table_entry mem (pte_phys pde) (virt_index virt Pt)
                     in if \<not> is_present pte then None
                        else let page_offset = virt_u64 virt AND 0xFFF
                          in Some (PhysAddr (phys_u64 (pte_phys pte) + page_offset)))"

definition page_access_in :: "phys_mem \<Rightarrow> phys_addr \<Rightarrow> virt_addr \<Rightarrow> bool option" where
  "page_access_in mem root virt =
     (let pml4e = table_entry mem root (virt_index virt Pml4)
      in if \<not> is_present pml4e then None
         else let writable = (pml4e AND PTE_WRITABLE \<noteq> 0);
             pdpte = table_entry mem (pte_phys pml4e) (virt_index virt Pdpt)
           in if \<not> is_present pdpte then None
              else let writable = (writable \<and> pdpte AND PTE_WRITABLE \<noteq> 0)
                in if pdpte AND PTE_HUGE \<noteq> 0 then Some writable
                   else let pde = table_entry mem (pte_phys pdpte) (virt_index virt Pd)
                     in if \<not> is_present pde then None
                        else let writable = (writable \<and> pde AND PTE_WRITABLE \<noteq> 0)
                          in if pde AND PTE_HUGE \<noteq> 0 then Some writable
                             else let pte = table_entry mem (pte_phys pde) (virt_index virt Pt)
                               in if \<not> is_present pte then None
                                  else Some (writable \<and> pte AND PTE_WRITABLE \<noteq> 0))"

function range_loop :: "phys_mem \<Rightarrow> phys_addr \<Rightarrow> u64 \<Rightarrow> u64 \<Rightarrow> bool \<Rightarrow> bool" where
  "range_loop mem root page end_addr write =
     (if page < end_addr
      then (case page_access_in mem root (VirtAddr page) of
              None \<Rightarrow> False
            | Some writable \<Rightarrow>
                if \<not> write \<or> writable
                then (case checked_add page 0x1000 of
                        None \<Rightarrow> False
                      | Some nxt \<Rightarrow> range_loop mem root nxt end_addr write)
                else False)
      else True)"
  by pat_completeness auto
termination
  by (relation "measure (\<lambda>(mem, root, page, end_addr, write). unat end_addr - unat page)")
    (auto simp: word_less_nat_alt dest!: checked_add_SomeD)

declare range_loop.simps [simp del]

definition range_accessible_in :: "phys_mem \<Rightarrow> phys_addr \<Rightarrow> virt_addr \<Rightarrow> u64 \<Rightarrow> bool \<Rightarrow> bool" where
  "range_accessible_in mem root virt len write =
     (if len = 0 then True
      else case checked_add (virt_u64 virt) len of
          None \<Rightarrow> False
        | Some end_addr \<Rightarrow> range_loop mem root (virt_u64 virt AND NOT 0xFFF) end_addr write)"

section \<open>Mapping and unmapping\<close>

type_synonym 'a frame_source = "'a \<Rightarrow> phys_addr option \<times> 'a"

definition intermediate_flags :: "u64 \<Rightarrow> u64" where
  "intermediate_flags flags =
     (if flags AND PTE_USER \<noteq> 0 then PTE_PRESENT OR PTE_WRITABLE OR PTE_USER
      else PTE_PRESENT OR PTE_WRITABLE)"

definition split_2m_pde :: "'a frame_source \<Rightarrow> phys_mem \<Rightarrow> page_table_entry \<Rightarrow> nat \<Rightarrow> 'a \<Rightarrow>
    phys_addr option \<times> phys_mem \<times> 'a" where
  "split_2m_pde alloc mem pde skip_idx a =
     (let huge_frame = pde AND HUGE_2M_FRAME_MASK;
          child_flags = (pde AND 0xFFF AND NOT PTE_HUGE) OR (pde AND PTE_NO_EXEC) OR PTE_PRESENT
      in case alloc a of
           (None, a1) \<Rightarrow> (None, mem, a1)
         | (Some pt_frame, a1) \<Rightarrow>
             (Some pt_frame,
              foldl (\<lambda>mem k. if k \<noteq> skip_idx
                             then set_entry mem pt_frame k
                               (set_frame (PhysAddr (huge_frame + of_nat k * 0x1000)) child_flags)
                             else mem)
                (zero_table mem pt_frame) [0..<512], a1))"

definition split_1g_pdpte :: "'a frame_source \<Rightarrow> phys_mem \<Rightarrow> page_table_entry \<Rightarrow> 'a \<Rightarrow>
    phys_addr option \<times> phys_mem \<times> 'a" where
  "split_1g_pdpte alloc mem pdpte a =
     (let huge_frame = pdpte AND HUGE_1G_FRAME_MASK;
          child_flags = (pdpte AND 0xFFF) OR (pdpte AND PTE_NO_EXEC) OR PTE_PRESENT OR PTE_HUGE
      in case alloc a of
           (None, a1) \<Rightarrow> (None, mem, a1)
         | (Some pd_frame, a1) \<Rightarrow>
             (Some pd_frame,
              foldl (\<lambda>mem k. set_entry mem pd_frame k
                       (set_frame (PhysAddr (huge_frame + of_nat k * 0x200000)) child_flags))
                (zero_table mem pd_frame) [0..<512], a1))"

text \<open>
  One level of \<open>map_4k_into\<close>: the table below entry \<open>idx\<close> of the table at \<open>table\<close>, made present,
  split out of a huge page or opened to the user as needed.
\<close>

definition next_table :: "'a frame_source \<Rightarrow> page_level \<Rightarrow> phys_mem \<Rightarrow> phys_addr \<Rightarrow> nat \<Rightarrow> nat \<Rightarrow> u64 \<Rightarrow> 'a \<Rightarrow>
    phys_addr option \<times> phys_mem \<times> 'a" where
  "next_table alloc level mem table idx pt_idx flags a =
     (let e = table_entry mem table idx
      in if is_present e
         then if level \<noteq> Pml4 \<and> e AND PTE_HUGE \<noteq> 0
           then (case (if level = Pdpt then split_1g_pdpte alloc mem e a
                       else split_2m_pde alloc mem e pt_idx a) of
                   (None, mem1, a1) \<Rightarrow> (None, mem1, a1)
                 | (Some new, mem1, a1) \<Rightarrow>
                     let entry_flags = (if e AND PTE_USER \<noteq> 0 then intermediate_flags flags OR PTE_USER
                                        else intermediate_flags flags)
                     in (Some new, set_entry mem1 table idx (set_frame new entry_flags), a1))
           else (Some (pte_phys e),
                 if flags AND PTE_USER \<noteq> 0 \<and> e AND PTE_USER = 0
                 then set_entry mem table idx (set_frame (pte_phys e) (intermediate_flags flags))
                 else mem, a)
         else case alloc a of
             (None, a1) \<Rightarrow> (None, mem, a1)
           | (Some f, a1) \<Rightarrow>
               (Some f, set_entry (zero_table mem f) table idx (set_frame f (intermediate_flags flags)), a1))"

definition map_4k_into :: "'a frame_source \<Rightarrow> phys_mem \<Rightarrow> phys_addr \<Rightarrow> virt_addr \<Rightarrow> phys_addr \<Rightarrow> u64 \<Rightarrow> 'a \<Rightarrow>
    bool \<times> phys_mem \<times> 'a" where
  "map_4k_into alloc mem root virt phys flags a =
     (let pt_idx = virt_index virt Pt
      in case next_table alloc Pml4 mem root (virt_index virt Pml4) pt_idx flags a of
           (None, mem1, a1) \<Rightarrow> (False, mem1, a1)
         | (Some pdpt_phys, mem1, a1) \<Rightarrow>
             (case next_table alloc Pdpt mem1 pdpt_phys (virt_index virt Pdpt) pt_idx flags a1 of
                (None, mem2, a2) \<Rightarrow> (False, mem2, a2)
              | (Some pd_phys, mem2, a2) \<Rightarrow>
                  (case next_table alloc Pd mem2 pd_phys (virt_index virt Pd) pt_idx flags a2 of
                     (None, mem3, a3) \<Rightarrow> (False, mem3, a3)
                   | (Some pt_phys, mem3, a3) \<Rightarrow>
                       if is_present (table_entry mem3 pt_phys pt_idx) then (False, mem3, a3)
                       else (True, set_entry mem3 pt_phys pt_idx (set_frame phys (flags OR PTE_PRESENT)), a3))))"

definition map_4k :: "'a frame_source \<Rightarrow> phys_mem \<Rightarrow> page_mapper \<Rightarrow> virt_addr \<Rightarrow> phys_addr \<Rightarrow> u64 \<Rightarrow> 'a \<Rightarrow>
    bool \<times> phys_mem \<times> 'a" where
  "map_4k alloc mem pm virt phys flags a = map_4k_into alloc mem (root_phys pm) virt phys flags a"

definition unmap_4k :: "phys_mem \<Rightarrow> page_mapper \<Rightarrow> virt_addr \<Rightarrow> bool \<times> phys_mem" where
  "unmap_4k mem pm virt =
     (let pml4e = table_entry mem (root_phys pm) (virt_index virt Pml4)
      in if \<not> is_present pml4e then (False, mem)
         else let pdpte = table_entry mem (pte_phys pml4e) (virt_index virt Pdpt)
           in if \<not> is_present pdpte then (False, mem)
              else let pde = table_entry mem (pte_phys pdpte) (virt_index virt Pd)
                in if \<not> is_present pde then (False, mem)
                   else let pte = table_entry mem (pte_phys pde) (virt_index virt Pt)
                     in if \<not> is_present pte then (False, mem)
                        else (True, set_entry mem (pte_phys pde) (virt_index virt Pt) 0))"

section \<open>Words\<close>

abbreviation ADDR_MASK :: u64 where
  "ADDR_MASK \<equiv> 0x000FFFFFFFFFF000"

lemma frame_masks:
  "ADDR_MASK = mask 52 AND NOT (2 ^ 12 - 1)"
  "HUGE_2M_FRAME_MASK = mask 52 AND NOT (2 ^ 21 - 1)"
  "HUGE_1G_FRAME_MASK = mask 52 AND NOT (2 ^ 30 - 1)"
  by (simp_all add: HUGE_2M_FRAME_MASK_def HUGE_1G_FRAME_MASK_def mask_eq_exp_minus_1)

lemma offset_masks:
  "(0xFFF :: u64) = mask 12" "HUGE_2M_OFFSET_MASK = mask 21" "HUGE_1G_OFFSET_MASK = mask 30"
  by (simp_all add: HUGE_2M_OFFSET_MASK_def HUGE_1G_OFFSET_MASK_def mask_eq_exp_minus_1)

lemma unat_and_mask: "unat (x AND mask k :: u64) = unat x mod 2 ^ k"
  by (metis take_bit_eq_mask unsigned_take_bit_eq take_bit_eq_mod)

lemma unat_frame_mask:
  assumes "k \<le> 52"
  shows "unat (x AND (mask 52 AND NOT (2 ^ k - 1)) :: u64) = unat x mod 2 ^ 52 - unat x mod 2 ^ k"
proof -
  have "unat (x AND (mask 52 AND NOT (2 ^ k - 1))) = unat (x AND mask 52) - unat (x AND mask 52) mod 2 ^ k"
    by (simp only: and_not_mask flip: and.assoc)
  moreover have "unat x mod 2 ^ 52 mod 2 ^ k = unat x mod 2 ^ k"
    by (rule mod_mod_cancel [OF le_imp_power_dvd [OF assms]])
  ultimately show ?thesis by (simp add: unat_and_mask)
qed

text \<open>The addresses of frames: what an entry can hold.\<close>

definition frame_ok :: "u64 \<Rightarrow> bool" where
  "frame_ok f \<longleftrightarrow> f AND ADDR_MASK = f"

lemma frame_ok_iff: "frame_ok f \<longleftrightarrow> 4096 dvd unat f \<and> unat f < 2 ^ 52"
proof -
  have "frame_ok f \<longleftrightarrow> unat f mod 2 ^ 52 - unat f mod 2 ^ 12 = unat f"
    unfolding frame_ok_def word_unat_eq_iff frame_masks(1) by (subst unat_frame_mask) simp_all
  also have "\<dots> \<longleftrightarrow> 4096 dvd unat f \<and> unat f < 2 ^ 52"
  proof
    assume eq: "unat f mod 2 ^ 52 - unat f mod 2 ^ 12 = unat f"
    have "unat f mod 2 ^ 52 < 2 ^ 52" "unat f mod 2 ^ 52 \<le> unat f" by simp_all
    with eq have "unat f < 2 ^ 52" "unat f mod 2 ^ 12 = 0 \<or> unat f = 0" by linarith+
    then show "4096 dvd unat f \<and> unat f < 2 ^ 52" by (auto simp: dvd_eq_mod_eq_0)
  qed (simp add: dvd_eq_mod_eq_0)
  finally show ?thesis .
qed

lemma frame_ok_pte_phys [simp]: "frame_ok (phys_u64 (pte_phys e))"
  by (simp add: frame_ok_def pte_phys_def and.assoc)

lemma pte_phys_set_frame: "frame_ok f \<Longrightarrow> flags AND ADDR_MASK = 0 \<Longrightarrow> pte_phys (set_frame (PhysAddr f) flags) = PhysAddr f"
  by (simp add: pte_phys_def set_frame_def frame_ok_def bit.conj_disj_distrib2)

lemma flag_set_frame:
  assumes "flag AND ADDR_MASK = 0"
  shows "set_frame f flags AND flag = flags AND flag"
proof -
  have "(phys_u64 f AND ADDR_MASK) AND flag = phys_u64 f AND (flag AND ADDR_MASK)" by (simp only: ac_simps)
  then have "(phys_u64 f AND ADDR_MASK) AND flag = 0" using assms by simp
  then show ?thesis by (simp add: set_frame_def bit.conj_disj_distrib2)
qed

lemmas pte_flag_defs = PTE_PRESENT_def PTE_WRITABLE_def PTE_USER_def PTE_HUGE_def PTE_NO_EXEC_def

lemma pte_flags_disjoint [simp]:
  "PTE_PRESENT AND ADDR_MASK = 0" "PTE_WRITABLE AND ADDR_MASK = 0" "PTE_USER AND ADDR_MASK = 0"
  "PTE_HUGE AND ADDR_MASK = 0" "PTE_NO_EXEC AND ADDR_MASK = 0"
  by (simp_all add: pte_flag_defs)

section \<open>The tables as a map of pages\<close>

text \<open>
  \<open>pidx l v\<close> is the index of \<open>v\<close> at level \<open>l\<close>, from the root at level 4 to the leaf tables at level
  1. \<open>resolve m l f v\<close> is what the tables below the frame \<open>f\<close> give for \<open>v\<close>: a physical address, and
  the rights the processor grants there, which are write and user only if every level grants them
  and no-execute if some level says so.
\<close>

definition pidx :: "nat \<Rightarrow> u64 \<Rightarrow> nat" where
  "pidx l v = unat (drop_bit (9 * l + 3) v AND 0x1FF)"

abbreviation wr :: "u64 \<Rightarrow> bool" where "wr e \<equiv> e AND PTE_WRITABLE \<noteq> 0"
abbreviation us :: "u64 \<Rightarrow> bool" where "us e \<equiv> e AND PTE_USER \<noteq> 0"
abbreviation nx :: "u64 \<Rightarrow> bool" where "nx e \<equiv> e AND PTE_NO_EXEC \<noteq> 0"
abbreviation hg :: "u64 \<Rightarrow> bool" where "hg e \<equiv> e AND PTE_HUGE \<noteq> 0"
abbreviation ent_frame :: "u64 \<Rightarrow> u64" where "ent_frame e \<equiv> e AND ADDR_MASK"

definition is_leaf :: "nat \<Rightarrow> u64 \<Rightarrow> bool" where
  "is_leaf l e \<longleftrightarrow> l = 1 \<or> (l \<le> 3 \<and> hg e)"

definition leaf_addr :: "nat \<Rightarrow> u64 \<Rightarrow> u64 \<Rightarrow> u64" where
  "leaf_addr l e v =
     (if l = 1 then ent_frame e + (v AND 0xFFF)
      else if l = 2 then (e AND HUGE_2M_FRAME_MASK) + (v AND HUGE_2M_OFFSET_MASK)
      else (e AND HUGE_1G_FRAME_MASK) + (v AND HUGE_1G_OFFSET_MASK))"

type_synonym mapping_of = "u64 \<times> bool \<times> bool \<times> bool"

definition under :: "u64 \<Rightarrow> mapping_of option \<Rightarrow> mapping_of option" where
  "under e = map_option (\<lambda>(p, w, u, x). (p, wr e \<and> w, us e \<and> u, nx e \<or> x))"

fun resolve :: "phys_mem \<Rightarrow> nat \<Rightarrow> u64 \<Rightarrow> u64 \<Rightarrow> mapping_of option" where
  "resolve m 0 f v = None"
| "resolve m (Suc l) f v =
     (let e = m f (pidx (Suc l) v)
      in if \<not> is_present e then None
         else if is_leaf (Suc l) e then Some (leaf_addr (Suc l) e v, wr e, us e, nx e)
         else under e (resolve m l (ent_frame e) v))"

lemma pidx_div: "pidx l v = unat v div 2 ^ (9 * l + 3) mod 2 ^ 9"
proof -
  have "(0x1FF :: u64) = mask 9" by (simp add: mask_eq_exp_minus_1)
  then have "pidx l v = unat (drop_bit (9 * l + 3) v) mod 2 ^ 9" by (simp only: pidx_def unat_and_mask)
  also have "unat (drop_bit (9 * l + 3) v) = unat v div 2 ^ (9 * l + 3)"
    unfolding unat_drop_bit_eq by (rule drop_bit_eq_div)
  finally show ?thesis .
qed

lemma pidx_less [simp]: "pidx l v < 512"
  by (simp add: pidx_div)

lemma virt_index_pidx:
  "virt_index (VirtAddr v) Pml4 = pidx 4 v" "virt_index (VirtAddr v) Pdpt = pidx 3 v"
  "virt_index (VirtAddr v) Pd = pidx 2 v" "virt_index (VirtAddr v) Pt = pidx 1 v"
  by (simp_all add: virt_index_def pidx_def level_shift_def)

lemma resolve_4:
  "resolve m 4 f v =
     (let e4 = m f (pidx 4 v)
      in if \<not> is_present e4 then None
         else let e3 = m (ent_frame e4) (pidx 3 v)
           in if \<not> is_present e3 then None
              else if hg e3 then under e4 (Some (leaf_addr 3 e3 v, wr e3, us e3, nx e3))
              else let e2 = m (ent_frame e3) (pidx 2 v)
                in if \<not> is_present e2 then None
                   else if hg e2 then under e4 (under e3 (Some (leaf_addr 2 e2 v, wr e2, us e2, nx e2)))
                   else let e1 = m (ent_frame e2) (pidx 1 v)
                     in if \<not> is_present e1 then None
                        else under e4 (under e3 (under e2 (Some (leaf_addr 1 e1 v, wr e1, us e1, nx e1)))))"
  by (simp add: numeral_eq_Suc is_leaf_def under_def Let_def)

lemma translate_in_resolve:
  "translate_in m (PhysAddr r) (VirtAddr v) = map_option (\<lambda>x. PhysAddr (fst x)) (resolve m 4 r v)"
  unfolding resolve_4 translate_in_def
  by (simp add: virt_index_pidx table_entry_def pte_phys_def leaf_addr_def under_def Let_def)

lemma page_access_in_resolve:
  "page_access_in m (PhysAddr r) (VirtAddr v) = map_option (\<lambda>x. fst (snd x)) (resolve m 4 r v)"
  unfolding resolve_4 page_access_in_def
  by (simp add: virt_index_pidx table_entry_def pte_phys_def under_def Let_def conj_ac)

lemma translate_eq_translate_in: "translate m pm v = translate_in m (root_phys pm) v"
  by (simp add: translate_def translate_in_def Let_def)

section \<open>The tables as a tree of frames\<close>

text \<open>
  \<open>child l e\<close> is the table an entry of a level \<open>l\<close> table points to, \<open>ptabs m l f\<close> the frames of the
  tables at and below \<open>f\<close>, and \<open>ptree m l f\<close> says that no table is reached twice and that entries
  pointing to tables are writable and executable, as the kernel makes them.
\<close>

definition child :: "nat \<Rightarrow> u64 \<Rightarrow> u64 option" where
  "child l e = (if is_present e \<and> \<not> is_leaf l e then Some (ent_frame e) else None)"

fun ptabs :: "phys_mem \<Rightarrow> nat \<Rightarrow> u64 \<Rightarrow> u64 set" where
  "ptabs m 0 f = {}"
| "ptabs m (Suc l) f =
     insert f (\<Union>i \<in> {..<512}. case child (Suc l) (m f i) of None \<Rightarrow> {} | Some g \<Rightarrow> ptabs m l g)"

definition below :: "phys_mem \<Rightarrow> nat \<Rightarrow> u64 \<Rightarrow> nat \<Rightarrow> u64 set" where
  "below m l f i = (case child (Suc l) (m f i) of None \<Rightarrow> {} | Some g \<Rightarrow> ptabs m l g)"

fun ptree :: "phys_mem \<Rightarrow> nat \<Rightarrow> u64 \<Rightarrow> bool" where
  "ptree m 0 f \<longleftrightarrow> True"
| "ptree m (Suc l) f \<longleftrightarrow>
     (\<forall>i < 512. f \<notin> below m l f i \<and> (\<forall>j < 512. i \<noteq> j \<longrightarrow> below m l f i \<inter> below m l f j = {}) \<and>
        (\<forall>g. child (Suc l) (m f i) = Some g \<longrightarrow> ptree m l g \<and> wr (m f i) \<and> \<not> nx (m f i)))"

lemma ptabs_below: "ptabs m (Suc l) f = insert f (\<Union>i \<in> {..<512}. below m l f i)"
  by (simp add: below_def)

declare ptabs.simps(2) [simp del]

lemma resolve_Suc:
  "is_present (m f (pidx (Suc l) v)) \<Longrightarrow> \<not> is_leaf (Suc l) (m f (pidx (Suc l) v)) \<Longrightarrow>
     resolve m (Suc l) f v = under (m f (pidx (Suc l) v)) (resolve m l (ent_frame (m f (pidx (Suc l) v))) v)"
  by (simp add: Let_def)

text \<open>
  \<open>leaf_user m l f v\<close> is the user bit of the entry that maps \<open>v\<close>, whatever the entries above it
  say. Code in user mode reaches \<open>v\<close> only if it is set.
\<close>

fun leaf_user :: "phys_mem \<Rightarrow> nat \<Rightarrow> u64 \<Rightarrow> u64 \<Rightarrow> bool" where
  "leaf_user m 0 f v \<longleftrightarrow> False"
| "leaf_user m (Suc l) f v \<longleftrightarrow>
     (let e = m f (pidx (Suc l) v)
      in is_present e \<and> (if is_leaf (Suc l) e then us e else leaf_user m l (ent_frame e) v))"

declare leaf_user.simps(2) [simp del]

lemma leaf_user_Suc:
  "is_present (m f (pidx (Suc l) v)) \<Longrightarrow> \<not> is_leaf (Suc l) (m f (pidx (Suc l) v)) \<Longrightarrow>
     leaf_user m (Suc l) f v = leaf_user m l (ent_frame (m f (pidx (Suc l) v))) v"
  by (simp add: leaf_user.simps)

definition user_access :: "mapping_of option \<Rightarrow> bool" where
  "user_access r \<longleftrightarrow> (\<exists>p w x. r = Some (p, w, True, x))"

lemma leaf_user_needed: "user_access (resolve m l f v) \<Longrightarrow> leaf_user m l f v"
  by (induction l arbitrary: f)
    (auto simp: user_access_def under_def leaf_user.simps Let_def split: if_splits)

text \<open>What a table gives depends on the frames of its tree only.\<close>

lemma ptabs_cong_all:
  assumes "\<And>g. g \<in> ptabs m l f \<Longrightarrow> m' g = m g"
  shows "ptabs m' l f = ptabs m l f \<and> ptree m' l f = ptree m l f \<and> resolve m' l f v = resolve m l f v \<and>
    leaf_user m' l f v = leaf_user m l f v"
  using assms
proof (induction l arbitrary: f)
  case (Suc l)
  have f: "m' f = m f" using Suc.prems by (simp add: ptabs_below)
  have IH: "ptabs m' l g = ptabs m l g \<and> ptree m' l g = ptree m l g \<and> resolve m' l g v = resolve m l g v \<and>
      leaf_user m' l g v = leaf_user m l g v"
    if "child (Suc l) (m f i) = Some g" "i < 512" for i g
  proof (rule Suc.IH)
    fix k
    assume "k \<in> ptabs m l g"
    then have "k \<in> below m l f i" using that by (simp add: below_def)
    then show "m' k = m k" using that(2) by (intro Suc.prems) (auto simp: ptabs_below)
  qed
  have b: "below m' l f i = below m l f i" if "i < 512" for i
    using IH [OF _ that] by (auto simp: below_def f split: option.splits)
  have "ptree m' (Suc l) f = ptree m (Suc l) f" using IH b by (auto simp: f)
  moreover have "resolve m' (Suc l) f v = resolve m (Suc l) f v"
    using IH [of "pidx (Suc l) v"] by (simp add: f child_def Let_def)
  moreover have "leaf_user m' (Suc l) f v = leaf_user m (Suc l) f v"
    using IH [of "pidx (Suc l) v"]
    by (cases "is_present (m f (pidx (Suc l) v))") (simp_all add: f child_def leaf_user.simps Let_def)
  ultimately show ?case using b by (simp add: ptabs_below)
qed simp

lemmas ptabs_cong = ptabs_cong_all [THEN conjunct1] ptabs_cong_all [THEN conjunct2, THEN conjunct1]
  ptabs_cong_all [THEN conjunct2, THEN conjunct2, THEN conjunct1]

text \<open>Replacing the subtree below one entry leaves the subtrees of the other entries alone.\<close>

lemma subtree_update:
  assumes T: "ptree m (Suc l) f" and i: "i < 512"
    and out: "\<And>g. g \<notin> S \<Longrightarrow> g \<noteq> f \<Longrightarrow> m' g = m g"
    and row: "\<And>j. j < 512 \<Longrightarrow> j \<noteq> i \<Longrightarrow> m' f j = m f j"
    and S: "\<And>j. j < 512 \<Longrightarrow> j \<noteq> i \<Longrightarrow> S \<inter> below m l f j = {}"
    and new: "child (Suc l) (m' f i) = Some g" "ptree m' l g" "f \<notin> ptabs m' l g" "ptabs m' l g \<subseteq> S"
      "wr (m' f i)" "\<not> nx (m' f i)"
  shows "ptree m' (Suc l) f" and "ptabs m' (Suc l) f \<subseteq> ptabs m (Suc l) f \<union> ptabs m' l g"
    and "pidx (Suc l) v \<noteq> i \<Longrightarrow> resolve m' (Suc l) f v = resolve m (Suc l) f v"
    and "pidx (Suc l) v \<noteq> i \<Longrightarrow> leaf_user m' (Suc l) f v = leaf_user m (Suc l) f v"
proof -
  have keep: "ptabs m' l h = ptabs m l h \<and> ptree m' l h = ptree m l h \<and> resolve m' l h v = resolve m l h v \<and>
      leaf_user m' l h v = leaf_user m l h v"
    if "j < 512" "j \<noteq> i" "child (Suc l) (m f j) = Some h" for j h
  proof (rule ptabs_cong_all)
    fix k
    assume "k \<in> ptabs m l h"
    then have "k \<in> below m l f j" using that by (simp add: below_def)
    then show "m' k = m k" using S [OF that(1,2)] T that(1) by (intro out) auto
  qed
  have b: "below m' l f j = below m l f j" if "j < 512" "j \<noteq> i" for j
    using keep [OF that] row [OF that] by (auto simp: below_def split: option.splits)
  have bi: "below m' l f i = ptabs m' l g" using new(1) by (simp add: below_def)
  show "ptree m' (Suc l) f"
    unfolding ptree.simps
  proof (intro allI impI conjI)
    fix j k :: nat
    assume j: "j < 512" and k: "k < 512" and jk: "j \<noteq> k"
    show "below m' l f j \<inter> below m' l f k = {}"
    proof (cases "j = i \<or> k = i")
      case True
      with S [OF j] S [OF k] b [OF j] b [OF k] bi new(4) jk show ?thesis by (auto; blast)
    next
      case False
      with T j k jk b [OF j] b [OF k] show ?thesis by simp
    qed
  next
    fix j :: nat
    assume j: "j < 512"
    show "f \<notin> below m' l f j" using T b [OF j] bi new(3) j by (cases "j = i") auto
  next
    fix j :: nat and h
    assume j: "j < 512" and h: "child (Suc l) (m' f j) = Some h"
    show "ptree m' l h" "wr (m' f j)" "\<not> nx (m' f j)"
      using T new j h keep [OF j] row [OF j] by (cases "j = i"; auto)+
  qed
  show "ptabs m' (Suc l) f \<subseteq> ptabs m (Suc l) f \<union> ptabs m' l g"
    using b bi i by (auto simp: ptabs_below)
  show "resolve m' (Suc l) f v = resolve m (Suc l) f v" if "pidx (Suc l) v \<noteq> i"
    using keep [OF pidx_less that] row [OF pidx_less that] by (simp add: child_def Let_def)
  show "leaf_user m' (Suc l) f v = leaf_user m (Suc l) f v" if "pidx (Suc l) v \<noteq> i"
    using keep [OF pidx_less that] row [OF pidx_less that]
    by (cases "is_present (m f (pidx (Suc l) v))") (simp_all add: child_def leaf_user.simps Let_def)
qed

section \<open>One level of mapping\<close>

lemma fold_set_entry:
  "foldl (\<lambda>mem k. if P k then set_entry mem p k (E k) else mem) mem ks =
     mem(phys_u64 p := \<lambda>k. if k \<in> set ks \<and> P k then E k else mem (phys_u64 p) k)"
  by (induction ks rule: rev_induct) (auto simp: set_entry_def fun_eq_iff)

lemma split_2m_pde_eq:
  "split_2m_pde alloc mem pde skip_idx a =
     (case alloc a of
        (None, a1) \<Rightarrow> (None, mem, a1)
      | (Some f, a1) \<Rightarrow> (Some f, mem(phys_u64 f := \<lambda>k. if k < 512 \<and> k \<noteq> skip_idx
          then set_frame (PhysAddr ((pde AND HUGE_2M_FRAME_MASK) + of_nat k * 0x1000))
            ((pde AND 0xFFF AND NOT PTE_HUGE) OR (pde AND PTE_NO_EXEC) OR PTE_PRESENT) else 0), a1))"
  by (simp add: split_2m_pde_def Let_def fold_set_entry zero_table_def empty_table_def cong: if_cong split: prod.splits option.splits)

lemma split_1g_pdpte_eq:
  "split_1g_pdpte alloc mem pdpte a =
     (case alloc a of
        (None, a1) \<Rightarrow> (None, mem, a1)
      | (Some f, a1) \<Rightarrow> (Some f, mem(phys_u64 f := \<lambda>k. if k < 512
          then set_frame (PhysAddr ((pdpte AND HUGE_1G_FRAME_MASK) + of_nat k * 0x200000))
            ((pdpte AND 0xFFF) OR (pdpte AND PTE_NO_EXEC) OR PTE_PRESENT OR PTE_HUGE) else 0), a1))"
  using fold_set_entry [of "\<lambda>_. True"]
  by (simp add: split_1g_pdpte_def Let_def zero_table_def empty_table_def cong: if_cong split: prod.splits option.splits)

lemma intermediate_flags_bits:
  "intermediate_flags fl AND ADDR_MASK = 0" "is_present (set_frame g (intermediate_flags fl))"
  "wr (set_frame g (intermediate_flags fl))" "\<not> nx (set_frame g (intermediate_flags fl))"
  "\<not> hg (set_frame g (intermediate_flags fl))" "us (set_frame g (intermediate_flags fl)) \<longleftrightarrow> us fl"
  by (simp_all add: intermediate_flags_def is_present_def flag_set_frame)
    (simp_all add: pte_flag_defs)

lemma intermediate_user_bits:
  "(intermediate_flags fl OR PTE_USER) AND ADDR_MASK = 0" "is_present (set_frame g (intermediate_flags fl OR PTE_USER))"
  "wr (set_frame g (intermediate_flags fl OR PTE_USER))" "\<not> nx (set_frame g (intermediate_flags fl OR PTE_USER))"
  "\<not> hg (set_frame g (intermediate_flags fl OR PTE_USER))" "us (set_frame g (intermediate_flags fl OR PTE_USER))"
  by (simp_all add: intermediate_flags_def is_present_def flag_set_frame)
    (simp_all add: pte_flag_defs)

text \<open>The addresses a split page table gives are those of the huge page.\<close>

lemma split_frame:
  fixes e H :: u64
  assumes "k < 512" and n: "n = 12 \<or> n = 21" and H_def: "H = e AND (mask 52 AND NOT (2 ^ (n + 9) - 1))"
  shows "unat (H + of_nat k * 2 ^ n) = unat H + k * 2 ^ n" and "unat H + k * 2 ^ n < 2 ^ 52"
    and "2 ^ n dvd unat H + k * 2 ^ n"
proof -
  have H: "unat H = unat e mod 2 ^ 52 - unat e mod 2 ^ (n + 9)"
    unfolding H_def using n by (intro unat_frame_mask) auto
  have dvd: "2 ^ (n + 9) dvd unat H"
  proof -
    have "unat e mod 2 ^ 52 mod 2 ^ (n + 9) = unat e mod 2 ^ (n + 9)"
      using n by (intro mod_mod_cancel le_imp_power_dvd) auto
    then show ?thesis unfolding H by (metis dvd_minus_mod)
  qed
  then obtain q where q: "unat H = 2 ^ (n + 9) * q" ..
  have "unat e mod 2 ^ 52 < 2 ^ 52" by simp
  then have "unat H < 2 ^ 52" unfolding H by (rule le_less_trans [OF diff_le_self])
  with q n have "q < 2 ^ (43 - n)" by auto
  then have "Suc q \<le> 2 ^ (43 - n)" by simp
  then have "2 ^ (n + 9) * Suc q \<le> 2 ^ (n + 9) * 2 ^ (43 - n)" by (rule mult_le_mono2)
  also have "\<dots> = (2 :: nat) ^ 52" using n by auto
  finally have "unat H + 2 ^ (n + 9) \<le> 2 ^ 52" by (simp add: q)
  moreover have "k * 2 ^ n + 2 ^ n \<le> 2 ^ (n + 9)" using assms(1) n by auto
  ultimately have le: "unat H + k * 2 ^ n + 2 ^ n \<le> 2 ^ 52" by linarith
  then show lt: "unat H + k * 2 ^ n < 2 ^ 52" using n by auto
  have "unat (of_nat (k * 2 ^ n) :: u64) = k * 2 ^ n" using lt by (intro unat_of_nat_small) simp
  then show "unat (H + of_nat k * 2 ^ n) = unat H + k * 2 ^ n"
    using lt by (simp add: unat_word_ariths)
  show "2 ^ n dvd unat H + k * 2 ^ n" using dvd by (metis dvd_add dvd_mult dvd_refl dvd_trans le_add1 le_imp_power_dvd)
qed

lemma split_offset: "l = 1 \<or> l = 2 \<Longrightarrow> of_nat (pidx l w) * 2 ^ (9 * l + 3) + (w AND mask (9 * l + 3)) = w AND mask (9 * l + 12)"
proof -
  assume l: "l = 1 \<or> l = 2"
  let ?n = "9 * l + 3" let ?u = "unat w"
  have p: "pidx l w = ?u div 2 ^ ?n mod 2 ^ 9"
    by (rule pidx_div)
  have e: "pidx l w * 2 ^ ?n + ?u mod 2 ^ ?n = ?u mod 2 ^ (?n + 9)"
    unfolding p power_add [of 2 ?n 9] mod_mult2_eq [of ?u "2 ^ ?n" "2 ^ 9"] by (simp only: mult.commute add.commute)
  have lt: "?u mod 2 ^ (?n + 9) < 2 ^ 64"
    by (rule less_trans [OF mod_less_divisor]) (use l in auto)
  have "of_nat (pidx l w * 2 ^ ?n + ?u mod 2 ^ ?n) = (of_nat (?u mod 2 ^ (?n + 9)) :: u64)"
    by (simp only: e)
  moreover have "(of_nat (?u mod 2 ^ k) :: u64) = w AND mask k" for k
    by (metis unat_and_mask of_nat_unat ucast_id)
  ultimately show ?thesis by (simp add: add.assoc)
qed

lemma frame_mask_id:
  assumes "2 ^ n dvd unat x" "unat x < 2 ^ 52" "n \<le> 52"
  shows "x AND (mask 52 AND NOT (2 ^ n - 1)) = (x :: u64)"
  unfolding word_unat_eq_iff using assms by (subst unat_frame_mask) (simp_all add: dvd_eq_mod_eq_0)

lemma flag_bit: "e AND push_bit n 1 \<noteq> 0 \<longleftrightarrow> bit (e :: u64) n"
proof -
  have "e AND push_bit n 1 = (if bit e n then push_bit n 1 else 0)"
    by (rule bit_word_eqI) (auto simp: bit_simps)
  moreover have "bit e n \<Longrightarrow> push_bit n 1 \<noteq> (0 :: u64)"
    by (auto simp: push_bit_eq_mult dest: bit_imp_le_length)
  ultimately show ?thesis by simp
qed

text \<open>
  What mapping one page may do to another: the physical address and the write and execute
  rights stay, access from user mode is not withdrawn, and it is granted only if \<open>c\<close> holds. In
  \<open>keeps\<close>, \<open>c\<close> says that the page mapped is a user page and that the entry of the other
  page has the user bit itself, which stays as it was.
\<close>

fun grows :: "bool \<Rightarrow> mapping_of option \<Rightarrow> mapping_of option \<Rightarrow> bool" where
  "grows c None r1 \<longleftrightarrow> r1 = None"
| "grows c (Some (p, w, u, x)) r1 \<longleftrightarrow> (\<exists>u1. r1 = Some (p, w, u1, x) \<and> (u \<longrightarrow> u1) \<and> (u1 \<longrightarrow> u \<or> c))"

definition keeps :: "bool \<Rightarrow> phys_mem \<Rightarrow> phys_mem \<Rightarrow> nat \<Rightarrow> u64 \<Rightarrow> u64 \<Rightarrow> bool" where
  "keeps c m m1 l f v \<longleftrightarrow>
     grows (c \<and> leaf_user m l f v) (resolve m l f v) (resolve m1 l f v) \<and> leaf_user m1 l f v = leaf_user m l f v"

lemma grows_refl [simp]: "grows c r r"
  by (cases "(c, r, r)" rule: grows.cases) auto

lemma grows_trans: "grows c r r1 \<Longrightarrow> grows c r1 r2 \<Longrightarrow> grows c r r2"
  by (cases "(c, r, r1)" rule: grows.cases) auto

lemma grows_under:
  "wr e \<Longrightarrow> \<not> nx e \<Longrightarrow> wr e1 \<Longrightarrow> \<not> nx e1 \<Longrightarrow> (us e \<longrightarrow> us e1) \<Longrightarrow> (us e1 \<longrightarrow> us e \<or> c) \<Longrightarrow> (user_access r1 \<longrightarrow> b) \<Longrightarrow>
     grows (c \<and> b) r r1 \<Longrightarrow> grows (c \<and> b) (under e r) (under e1 r1)"
  by (cases "(c \<and> b, r, r1)" rule: grows.cases) (auto simp: under_def user_access_def)

lemma under_id: "wr e \<Longrightarrow> \<not> nx e \<Longrightarrow> (user_access r \<longrightarrow> us e) \<Longrightarrow> under e r = r"
  by (cases r) (auto simp: under_def user_access_def)

lemma keeps_refl [simp]: "keeps c m m l f v"
  by (simp add: keeps_def)

lemma keeps_same: "resolve m1 l f v = resolve m l f v \<Longrightarrow> leaf_user m1 l f v = leaf_user m l f v \<Longrightarrow> keeps c m m1 l f v"
  by (simp add: keeps_def)

lemma keeps_trans: "keeps c m m1 l f v \<Longrightarrow> keeps c m1 m2 l f v \<Longrightarrow> keeps c m m2 l f v"
  by (auto simp: keeps_def intro: grows_trans)

lemma keeps_None: "keeps c m m1 l f v \<Longrightarrow> resolve m l f v = None \<Longrightarrow> resolve m1 l f v = None"
  by (simp add: keeps_def)

text \<open>One level up, below entries that may differ in the user bit.\<close>

lemma keeps_under:
  assumes "keeps c m m1 l g v"
    and "child (Suc l) (m f (pidx (Suc l) v)) = Some g" "child (Suc l) (m1 f (pidx (Suc l) v)) = Some g"
    and "wr (m f (pidx (Suc l) v))" "\<not> nx (m f (pidx (Suc l) v))" "wr (m1 f (pidx (Suc l) v))" "\<not> nx (m1 f (pidx (Suc l) v))"
    and "us (m f (pidx (Suc l) v)) \<longrightarrow> us (m1 f (pidx (Suc l) v))" "us (m1 f (pidx (Suc l) v)) \<longrightarrow> us (m f (pidx (Suc l) v)) \<or> c"
  shows "keeps c m m1 (Suc l) f v"
proof -
  have e: "is_present (m f (pidx (Suc l) v))" "\<not> is_leaf (Suc l) (m f (pidx (Suc l) v))" "ent_frame (m f (pidx (Suc l) v)) = g"
      "is_present (m1 f (pidx (Suc l) v))" "\<not> is_leaf (Suc l) (m1 f (pidx (Suc l) v))" "ent_frame (m1 f (pidx (Suc l) v)) = g"
    using assms(2,3) by (auto simp: child_def split: if_splits)
  note eqs = resolve_Suc [of m f l v, OF e(1,2), unfolded e(3)] leaf_user_Suc [of m f l v, OF e(1,2), unfolded e(3)]
    resolve_Suc [of m1 f l v, OF e(4,5), unfolded e(6)] leaf_user_Suc [of m1 f l v, OF e(4,5), unfolded e(6)]
  show ?thesis
    unfolding keeps_def eqs
    using assms(1) [unfolded keeps_def] leaf_user_needed [of m1 l g v] by (intro conjI grows_under assms(4-9)) blast+
qed

text \<open>
  What one level of mapping leaves: \<open>g\<close> is the table below entry \<open>i\<close> of \<open>f\<close>, \<open>F\<close> and \<open>F1\<close> are the
  free frames before and after.
\<close>

definition step_post :: "phys_mem \<Rightarrow> u64 set \<Rightarrow> nat \<Rightarrow> u64 \<Rightarrow> nat \<Rightarrow> nat \<Rightarrow> u64 \<Rightarrow> u64 \<Rightarrow> phys_mem \<Rightarrow> u64 set \<Rightarrow> bool" where
  "step_post m F l f i k flags g m1 F1 \<longleftrightarrow>
     child (Suc l) (m1 f i) = Some g \<and> wr (m1 f i) \<and> \<not> nx (m1 f i) \<and> (us flags \<longrightarrow> us (m1 f i)) \<and>
     ptree m1 l g \<and> f \<notin> ptabs m1 l g \<and> ptabs m1 l g \<subseteq> below m l f i \<union> (F - F1) \<and> F1 \<subseteq> F \<and>
     (\<forall>h. h \<noteq> f \<and> h \<notin> F - F1 \<longrightarrow> m1 h = m h) \<and> (\<forall>j. j \<noteq> i \<longrightarrow> m1 f j = m f j) \<and>
     (\<forall>w. pidx (Suc l) w = i \<longrightarrow>
        (if l = 1 \<and> is_present (m f i) \<and> hg (m f i) \<and> pidx 1 w = k then resolve m1 l g w = None
         else keeps (us flags) m m1 (Suc l) f w))"

lemma step_post_hole:
  assumes "step_post m F l f i k flags g m1 F1" "pidx (Suc l) w = i" "l = 1 \<and> is_present (m f i) \<and> hg (m f i)" "pidx 1 w = k"
  shows "resolve m1 l g w = None"
proof -
  from assms(1,2) have "if l = 1 \<and> is_present (m f i) \<and> hg (m f i) \<and> pidx 1 w = k then resolve m1 l g w = None
      else keeps (us flags) m m1 (Suc l) f w"
    unfolding step_post_def by blast
  with assms(3,4) show ?thesis by (simp del: resolve.simps)
qed

lemma step_post_None:
  assumes st: "step_post m F l f (pidx (Suc l) v) k flags g m1 F1" and "resolve m (Suc l) f v = None"
  shows "resolve m1 l g v = None"
proof -
  note s = st [unfolded step_post_def]
  have "resolve m1 (Suc l) f v = under (m1 f (pidx (Suc l) v)) (resolve m1 l g v)"
    using s by (auto simp: child_def Let_def split: if_splits)
  moreover have "if l = 1 \<and> is_present (m f (pidx (Suc l) v)) \<and> hg (m f (pidx (Suc l) v)) \<and> pidx 1 v = k
      then resolve m1 l g v = None else keeps (us flags) m m1 (Suc l) f v"
    using s by blast
  then have "resolve m1 l g v = None \<or> keeps (us flags) m m1 (Suc l) f v"
    by (rule if_split [THEN iffD1, THEN conjE]) blast
  then have "resolve m1 l g v = None \<or> resolve m1 (Suc l) f v = None"
    by (rule disj_forward) (assumption, erule keeps_None [OF _ assms(2)])
  ultimately show ?thesis by (auto simp: under_def simp del: resolve.simps)
qed

lemma ptabs_Suc_self: "f \<in> ptabs m (Suc l) f"
  by (simp add: ptabs_below)

lemma below_sub: "i < 512 \<Longrightarrow> below m l f i \<subseteq> ptabs m (Suc l) f"
  by (auto simp: ptabs_below)

lemma step_post_sub:
  assumes "step_post m F l f (pidx (Suc l) v) k flags g m1 F1" "F \<inter> ptabs m (Suc l) f = {}"
  shows "ptree m1 l g" "F1 \<inter> ptabs m1 l g = {}"
proof -
  show "ptree m1 l g" using assms(1) unfolding step_post_def by blast
  have "ptabs m1 l g \<subseteq> below m l f (pidx (Suc l) v) \<union> (F - F1)" "F1 \<subseteq> F"
    using assms(1) unfolding step_post_def by blast+
  then show "F1 \<inter> ptabs m1 l g = {}"
    using assms(2) below_sub [OF pidx_less, of m l f "Suc l" v] by blast
qed

lemma step_existing:
  assumes T: "ptree m (Suc l) f" and i: "i < 512" and e: "is_present (m f i)" "\<not> is_leaf (Suc l) (m f i)" and l: "0 < l"
    and m1: "m1 = (if us flags \<and> \<not> us (m f i)
      then set_entry m (PhysAddr f) i (set_frame (pte_phys (m f i)) (intermediate_flags flags)) else m)"
  shows "step_post m F l f i k flags (ent_frame (m f i)) m1 F"
proof -
  let ?e = "m f i" let ?g = "ent_frame ?e" let ?e1 = "m1 f i"
  have ch: "child (Suc l) ?e = Some ?g" using e by (simp add: child_def)
  have eb: "wr ?e" "\<not> nx ?e" and fb: "f \<notin> below m l f i" and Tg: "ptree m l ?g" using T i ch by auto
  have below: "below m l f i = ptabs m l ?g" using ch by (simp add: below_def)
  have out: "m1 h = m h" if "h \<noteq> f" for h using that by (simp add: m1 set_entry_def)
  have row: "m1 f j = m f j" if "j \<noteq> i" for j using that by (simp add: m1 set_entry_def)
  have sub: "ptabs m1 l ?g = ptabs m l ?g \<and> ptree m1 l ?g = ptree m l ?g \<and> resolve m1 l ?g w = resolve m l ?g w \<and>
      leaf_user m1 l ?g w = leaf_user m l ?g w" for w
    using fb below by (intro ptabs_cong_all out) auto
  have e1: "is_present ?e1 \<and> \<not> is_leaf (Suc l) ?e1 \<and> ent_frame ?e1 = ?g \<and> wr ?e1 \<and> \<not> nx ?e1 \<and> (us flags \<longrightarrow> us ?e1) \<and>
      (us ?e \<longrightarrow> us ?e1) \<and> (us ?e1 \<longrightarrow> us ?e \<or> us flags)"
  proof (cases "us flags \<and> \<not> us ?e")
    case True
    have "pte_phys (set_frame (PhysAddr ?g) (intermediate_flags flags)) = PhysAddr ?g"
      by (rule pte_phys_set_frame) (simp_all add: frame_ok_def and.assoc intermediate_flags_bits)
    with True l show ?thesis
      by (simp add: m1 set_entry_def is_leaf_def intermediate_flags_bits pte_phys_def)
  next
    case False
    with e eb show ?thesis by (auto simp: m1)
  qed
  have "keeps (us flags) m m1 (Suc l) f w" if w: "pidx (Suc l) w = i" for w
    by (rule keeps_under [OF keeps_same]) (use sub [of w] ch e1 eb in \<open>auto simp: w child_def\<close>)
  moreover have "\<not> (l = 1 \<and> hg ?e)" using e(2) by (auto simp: is_leaf_def)
  ultimately show ?thesis
    unfolding step_post_def using e1 sub Tg fb below out row by (auto simp: child_def)
qed

text \<open>A new table whose entries point to no table.\<close>

lemma ptree_leaves:
  assumes "\<And>j. j < 512 \<Longrightarrow> child (Suc l) (m g j) = None"
  shows "ptree m (Suc l) g" "ptabs m (Suc l) g = {g}"
  using assms by (simp_all add: ptabs_below below_def)

lemma step_new:
  assumes T: "ptree m (Suc (Suc l)) f" and i: "i < 512" and F: "g \<in> F" "F \<inter> ptabs m (Suc (Suc l)) f = {}"
    and g: "frame_ok g" and fl: "fl AND ADDR_MASK = 0"
    and new: "is_present (set_frame (PhysAddr g) fl)" "wr (set_frame (PhysAddr g) fl)" "\<not> nx (set_frame (PhysAddr g) fl)"
      "\<not> hg (set_frame (PhysAddr g) fl)" "us flags \<longrightarrow> us (set_frame (PhysAddr g) fl)"
    and t: "\<And>j. j < 512 \<Longrightarrow> child (Suc l) (t j) = None"
    and m1: "m1 = set_entry (m(g := t)) (PhysAddr f) i (set_frame (PhysAddr g) fl)"
    and res: "\<And>w. pidx (Suc (Suc l)) w = i \<Longrightarrow>
        if l = 0 \<and> is_present (m f i) \<and> hg (m f i) \<and> pidx 1 w = k then \<not> is_present (t k)
        else resolve m (Suc (Suc l)) f w =
          (if is_present (t (pidx (Suc l) w))
           then Some (leaf_addr (Suc l) (t (pidx (Suc l) w)) w, wr (t (pidx (Suc l) w)), us (t (pidx (Suc l) w)),
             nx (t (pidx (Suc l) w))) else None) \<and>
          leaf_user m (Suc (Suc l)) f w = (is_present (t (pidx (Suc l) w)) \<and> us (t (pidx (Suc l) w)))"
    and usr: "\<And>w. pidx (Suc (Suc l)) w = i \<Longrightarrow> user_access (resolve m (Suc (Suc l)) f w) \<Longrightarrow> us (set_frame (PhysAddr g) fl)"
  shows "step_post m F (Suc l) f i k flags g m1 (F - {g})"
proof -
  have gf: "g \<noteq> f" using F ptabs_Suc_self [of f m "Suc l"] by blast
  let ?e1 = "m1 f i"
  have e1: "?e1 = set_frame (PhysAddr g) fl" by (simp add: m1 set_entry_def)
  have mg: "m1 g = t" using gf by (simp add: m1 set_entry_def)
  have ent: "ent_frame ?e1 = g" using pte_phys_set_frame [OF g fl] by (simp add: e1 pte_phys_def)
  have lf: "is_present ?e1" "\<not> is_leaf (Suc (Suc l)) ?e1" using new by (simp_all add: e1 is_leaf_def)
  have Tg: "ptree m1 (Suc l) g" "ptabs m1 (Suc l) g = {g}" by (rule ptree_leaves; simp add: mg t)+
  have leaf: "is_present (t j) \<Longrightarrow> is_leaf (Suc l) (t j)" if "j < 512" for j
    using t [OF that] by (auto simp: child_def split: if_splits)
  have rg: "resolve m1 (Suc l) g w = (if is_present (t (pidx (Suc l) w)) then Some (leaf_addr (Suc l) (t (pidx (Suc l) w)) w,
      wr (t (pidx (Suc l) w)), us (t (pidx (Suc l) w)), nx (t (pidx (Suc l) w))) else None)" for w
    using leaf [OF pidx_less] by (simp add: mg Let_def)
  have "if Suc l = 1 \<and> is_present (m f i) \<and> hg (m f i) \<and> pidx 1 w = k then resolve m1 (Suc l) g w = None
      else keeps (us flags) m m1 (Suc (Suc l)) f w"
    if w: "pidx (Suc (Suc l)) w = i" for w
  proof -
    have up: "resolve m1 (Suc (Suc l)) f w = under ?e1 (resolve m1 (Suc l) g w)"
        "leaf_user m1 (Suc (Suc l)) f w = leaf_user m1 (Suc l) g w"
      using resolve_Suc [of m1 f "Suc l" w] leaf_user_Suc [of m1 f "Suc l" w] lf w ent by (simp_all del: resolve.simps)
    have lg: "leaf_user m1 (Suc l) g w = (is_present (t (pidx (Suc l) w)) \<and> us (t (pidx (Suc l) w)))"
      using leaf [OF pidx_less] by (auto simp: mg leaf_user.simps Let_def)
    have "keeps (us flags) m m1 (Suc (Suc l)) f w"
      if r: "resolve m (Suc (Suc l)) f w = resolve m1 (Suc l) g w" "leaf_user m (Suc (Suc l)) f w = leaf_user m1 (Suc l) g w"
    proof (rule keeps_same)
      show "resolve m1 (Suc (Suc l)) f w = resolve m (Suc (Suc l)) f w"
        unfolding up r(1) e1 using new(2,3) usr [OF w, unfolded r(1)] by (intro under_id) blast+
      show "leaf_user m1 (Suc (Suc l)) f w = leaf_user m (Suc (Suc l)) f w" by (simp only: up r(2))
    qed
    with res [OF w] rg [of w] lg show ?thesis by (auto simp del: resolve.simps split: if_splits)
  qed
  moreover have "child (Suc (Suc l)) ?e1 = Some g" using lf ent by (simp add: child_def)
  moreover have "m1 h = m h" if "h \<noteq> f" "h \<notin> F - (F - {g})" for h using that F(1) by (auto simp: m1 set_entry_def)
  moreover have "m1 f j = m f j" if "j \<noteq> i" for j using that gf by (simp add: m1 set_entry_def)
  ultimately show ?thesis
    unfolding step_post_def Tg(2) using Tg(1) new F(1) gf unfolding e1 by blast
qed

lemma is_present_0 [simp]: "\<not> is_present 0"
  by (simp add: is_present_def)

lemma pte_bits:
  "is_present e \<longleftrightarrow> bit e 0" "wr e \<longleftrightarrow> bit e 1" "us e \<longleftrightarrow> bit e 2" "hg e \<longleftrightarrow> bit e 7" "nx e \<longleftrightarrow> bit e 63"
  unfolding is_present_def pte_flag_defs by (rule flag_bit)+

lemma low_bits: "bit (0xFFF :: u64) n \<longleftrightarrow> n < 12"
  by (auto simp: offset_masks(1) bit_mask_iff)

lemma child_2m_flags:
  fixes e :: u64
  defines "c \<equiv> (e AND 0xFFF AND NOT PTE_HUGE) OR (e AND PTE_NO_EXEC) OR PTE_PRESENT"
  shows "c AND ADDR_MASK = 0" "bit c 0" "bit c 1 \<longleftrightarrow> bit e 1" "bit c 63 \<longleftrightarrow> bit e 63" "bit c 2 \<longleftrightarrow> bit e 2"
proof -
  have "e AND 0xFFF AND NOT PTE_HUGE AND ADDR_MASK = e AND NOT PTE_HUGE AND (0xFFF AND ADDR_MASK)" by (simp only: ac_simps)
  moreover have "e AND PTE_NO_EXEC AND ADDR_MASK = e AND (PTE_NO_EXEC AND ADDR_MASK)" by (simp only: ac_simps)
  ultimately show "c AND ADDR_MASK = 0"
    unfolding c_def bit.conj_disj_distrib2 by (simp add: and.assoc)
  show "bit c 0" "bit c 1 \<longleftrightarrow> bit e 1" "bit c 63 \<longleftrightarrow> bit e 63" "bit c 2 \<longleftrightarrow> bit e 2"
    unfolding c_def bit_or_iff bit_and_iff low_bits bit_not_iff pte_flag_defs bit_push_bit_iff bit_1_iff by simp_all
qed

lemma child_1g_flags:
  fixes e :: u64
  defines "c \<equiv> (e AND 0xFFF) OR (e AND PTE_NO_EXEC) OR PTE_PRESENT OR PTE_HUGE"
  shows "c AND ADDR_MASK = 0" "bit c 0" "bit c 7" "bit c 1 \<longleftrightarrow> bit e 1" "bit c 63 \<longleftrightarrow> bit e 63" "bit c 2 \<longleftrightarrow> bit e 2"
proof -
  show "c AND ADDR_MASK = 0"
    unfolding c_def bit.conj_disj_distrib2 by (simp add: and.assoc)
  show "bit c 0" "bit c 7" "bit c 1 \<longleftrightarrow> bit e 1" "bit c 63 \<longleftrightarrow> bit e 63" "bit c 2 \<longleftrightarrow> bit e 2"
    unfolding c_def bit_or_iff bit_and_iff low_bits pte_flag_defs bit_push_bit_iff bit_1_iff by simp_all
qed

lemma bit_set_frame:
  assumes "\<not> bit ADDR_MASK n"
  shows "bit (set_frame p fl) n \<longleftrightarrow> bit fl n"
  using assms unfolding set_frame_def bit_or_iff bit_and_iff by blast

lemma addr_mask_flags: "\<not> bit ADDR_MASK 0" "\<not> bit ADDR_MASK 1" "\<not> bit ADDR_MASK 2" "\<not> bit ADDR_MASK 7" "\<not> bit ADDR_MASK 63"
  unfolding frame_masks(1) by (simp_all add: bit_and_iff bit_mask_iff bit_not_iff flip: mask_eq_exp_minus_1)

lemmas set_frame_bits = addr_mask_flags [THEN bit_set_frame]

text \<open>The entries of a page table that replaces a 2 MiB page, and of a directory that replaces a 1 GiB page.\<close>

lemma split_2m_leaf:
  fixes e w :: u64
  defines "c \<equiv> (e AND 0xFFF AND NOT PTE_HUGE) OR (e AND PTE_NO_EXEC) OR PTE_PRESENT"
  defines "x \<equiv> set_frame (PhysAddr ((e AND HUGE_2M_FRAME_MASK) + of_nat (pidx 1 w) * 0x1000)) c"
  shows "is_present x" "wr x = wr e" "nx x = nx e" "us x = us e" "leaf_addr 1 x w = leaf_addr 2 e w"
proof -
  show "is_present x" "wr x = wr e" "nx x = nx e" "us x = us e"
    unfolding pte_bits x_def set_frame_bits c_def using child_2m_flags(2-5) [of e] by blast+
  let ?H = "e AND HUGE_2M_FRAME_MASK" let ?a = "?H + of_nat (pidx 1 w) * 2 ^ 12"
  have a: "unat ?a = unat ?H + pidx 1 w * 2 ^ 12" "unat ?H + pidx 1 w * 2 ^ 12 < 2 ^ 52" "2 ^ 12 dvd unat ?H + pidx 1 w * 2 ^ 12"
    by (rule split_frame [where e = e]; simp add: frame_masks)+
  then have "frame_ok ?a" by (simp add: frame_ok_iff)
  then have "ent_frame x = ?a"
    using pte_phys_set_frame [of ?a c] child_2m_flags(1) [of e] by (simp add: x_def c_def pte_phys_def)
  then show "leaf_addr 1 x w = leaf_addr 2 e w"
    using split_offset [of 1 w] by (simp add: leaf_addr_def offset_masks add.assoc)
qed

lemma split_1g_leaf:
  fixes e w :: u64
  defines "c \<equiv> (e AND 0xFFF) OR (e AND PTE_NO_EXEC) OR PTE_PRESENT OR PTE_HUGE"
  defines "x \<equiv> set_frame (PhysAddr ((e AND HUGE_1G_FRAME_MASK) + of_nat (pidx 2 w) * 0x200000)) c"
  shows "is_present x" "hg x" "wr x = wr e" "nx x = nx e" "us x = us e" "leaf_addr 2 x w = leaf_addr 3 e w"
proof -
  show "is_present x" "hg x" "wr x = wr e" "nx x = nx e" "us x = us e"
    unfolding pte_bits x_def set_frame_bits c_def using child_1g_flags(2-6) [of e] by blast+
  let ?H = "e AND HUGE_1G_FRAME_MASK" let ?a = "?H + of_nat (pidx 2 w) * 2 ^ 21"
  have a: "unat ?a = unat ?H + pidx 2 w * 2 ^ 21" "unat ?H + pidx 2 w * 2 ^ 21 < 2 ^ 52" "2 ^ 21 dvd unat ?H + pidx 2 w * 2 ^ 21"
    by (rule split_frame [where e = e]; simp add: frame_masks)+
  have id: "?a AND HUGE_2M_FRAME_MASK = ?a"
    unfolding frame_masks(2) using a by (intro frame_mask_id) simp_all
  have "c AND HUGE_2M_FRAME_MASK = c AND (ADDR_MASK AND HUGE_2M_FRAME_MASK)" by (simp add: HUGE_2M_FRAME_MASK_def)
  also have "\<dots> = (c AND ADDR_MASK) AND HUGE_2M_FRAME_MASK" by (simp only: and.assoc)
  also have "\<dots> = 0" using child_1g_flags(1) [of e] by (simp add: c_def)
  finally have c: "c AND HUGE_2M_FRAME_MASK = 0" .
  have "(?a AND ADDR_MASK) AND HUGE_2M_FRAME_MASK = ?a AND HUGE_2M_FRAME_MASK"
    by (simp add: and.assoc HUGE_2M_FRAME_MASK_def)
  then have "x AND HUGE_2M_FRAME_MASK = ?a"
    using id c by (simp add: x_def set_frame_def bit.conj_disj_distrib2)
  then show "leaf_addr 2 x w = leaf_addr 3 e w"
    using split_offset [of 2 w] by (simp add: leaf_addr_def offset_masks add.assoc)
qed

section \<open>Mapping a page\<close>

text \<open>What mapping needs of a frame allocator: a frame it hands out was free and is not free any more.\<close>

locale frame_supply =
  fixes alloc :: "'a frame_source" and avail :: "'a \<Rightarrow> u64 set" and ready :: "'a \<Rightarrow> bool"
  assumes alloc_Some: "ready a \<Longrightarrow> alloc a = (Some f, a1) \<Longrightarrow>
      phys_u64 f \<in> avail a \<and> avail a1 = avail a - {phys_u64 f} \<and> ready a1"
    and alloc_None: "ready a \<Longrightarrow> alloc a = (None, a1) \<Longrightarrow> a1 = a \<and> avail a = {}"
    and avail_ok: "ready a \<Longrightarrow> finite (avail a) \<and> (\<forall>g \<in> avail a. frame_ok g)"

definition level_no :: "page_level \<Rightarrow> nat" where
  "level_no level = (case level of Pml4 \<Rightarrow> 4 | Pdpt \<Rightarrow> 3 | Pd \<Rightarrow> 2 | Pt \<Rightarrow> 1)"

lemma next_table_split:
  assumes T: "ptree m (Suc (Suc l)) f" and i: "i < 512" and e: "is_present (m f i)" "l < 2" "hg (m f i)"
    and lev: "level = (if l = 2 then Pml4 else if l = 1 then Pdpt else Pd)" "l \<le> 2"
    and al: "alloc a = (Some g, b)"
    and n: "next_table alloc level m (PhysAddr f) i k flags a = (res, m1, a1)"
    and F: "F \<inter> ptabs m (Suc (Suc l)) f = {}" "phys_u64 g \<in> F"
  shows "res = Some g \<and> a1 = b \<and>
     (frame_ok (phys_u64 g) \<longrightarrow> step_post m F (Suc l) f i k flags (phys_u64 g) m1 (F - {phys_u64 g}))"
proof -
  let ?e = "m f i"
  let ?fl = "if us ?e then intermediate_flags flags OR PTE_USER else intermediate_flags flags"
  let ?t1 = "\<lambda>k. if k < 512 then set_frame (PhysAddr ((?e AND HUGE_1G_FRAME_MASK) + of_nat k * 0x200000))
      ((?e AND 0xFFF) OR (?e AND PTE_NO_EXEC) OR PTE_PRESENT OR PTE_HUGE) else 0"
  let ?t0 = "\<lambda>j. if j < 512 \<and> j \<noteq> k then set_frame (PhysAddr ((?e AND HUGE_2M_FRAME_MASK) + of_nat j * 0x1000))
      ((?e AND 0xFFF AND NOT PTE_HUGE) OR (?e AND PTE_NO_EXEC) OR PTE_PRESENT) else 0"
  let ?t = "if l = 1 then ?t1 else ?t0"
  have m1: "res = Some g" "a1 = b" "m1 = set_entry (m(phys_u64 g := ?t)) (PhysAddr f) i (set_frame (PhysAddr (phys_u64 g)) ?fl)"
    using n e lev al
    by (auto simp: next_table_def table_entry_def split_1g_pdpte_eq split_2m_pde_eq Let_def split: if_splits)
  have fl: "?fl AND ADDR_MASK = 0" "is_present (set_frame h ?fl)" "wr (set_frame h ?fl)" "\<not> nx (set_frame h ?fl)"
      "\<not> hg (set_frame h ?fl)" "us flags \<longrightarrow> us (set_frame h ?fl)" for h
    using intermediate_flags_bits intermediate_user_bits by auto
  have t1: "hg (?t1 j)" if "j < 512" for j
    using that child_1g_flags(3) [of ?e] by (simp only: if_True pte_bits set_frame_bits)
  have ch: "child (Suc l) (?t j) = None" if "j < 512" for j
    using e(2) t1 [OF that] by (auto simp: child_def is_leaf_def)
  have leaf: "resolve m (Suc (Suc l)) f w = Some (leaf_addr (Suc (Suc l)) ?e w, wr ?e, us ?e, nx ?e)"
    if "pidx (Suc (Suc l)) w = i" for w
    using that e by (simp add: is_leaf_def Let_def)
  have lu: "leaf_user m (Suc (Suc l)) f w = us ?e" if "pidx (Suc (Suc l)) w = i" for w
    using that e by (simp add: is_leaf_def leaf_user.simps Let_def)
  have rs: "if l = 0 \<and> is_present ?e \<and> hg ?e \<and> pidx 1 w = k then \<not> is_present (?t k)
      else resolve m (Suc (Suc l)) f w =
        (if is_present (?t (pidx (Suc l) w))
         then Some (leaf_addr (Suc l) (?t (pidx (Suc l) w)) w, wr (?t (pidx (Suc l) w)), us (?t (pidx (Suc l) w)),
           nx (?t (pidx (Suc l) w))) else None) \<and>
        leaf_user m (Suc (Suc l)) f w = (is_present (?t (pidx (Suc l) w)) \<and> us (?t (pidx (Suc l) w)))"
    if w: "pidx (Suc (Suc l)) w = i" for w
  proof (cases "l = 1")
    case True
    with leaf [OF w] lu [OF w] split_1g_leaf [of ?e w] show ?thesis
      by (simp add: numeral_2_eq_2 numeral_3_eq_3 del: resolve.simps)
  next
    case False
    with e(2) have "l = 0" by simp
    with leaf [OF w] lu [OF w] split_2m_leaf [of ?e w] e show ?thesis
      by (simp add: numeral_2_eq_2 numeral_3_eq_3 del: resolve.simps)
  qed
  have "step_post m F (Suc l) f i k flags (phys_u64 g) m1 (F - {phys_u64 g})" if "frame_ok (phys_u64 g)"
  proof (rule step_new [OF T i F(2,1) that fl ch m1(3) rs])
    show "us (set_frame (PhysAddr (phys_u64 g)) ?fl)" if "pidx (Suc (Suc l)) w = i" "user_access (resolve m (Suc (Suc l)) f w)" for w
      using that(2) leaf [OF that(1)] intermediate_user_bits(6) by (auto simp: user_access_def simp del: resolve.simps)
  qed
  with m1 show ?thesis by blast
qed

text \<open>\<open>map_4k_into\<close> by recursion over the levels.\<close>

fun map_rec :: "'a frame_source \<Rightarrow> nat \<Rightarrow> phys_mem \<Rightarrow> phys_addr \<Rightarrow> u64 \<Rightarrow> phys_addr \<Rightarrow> u64 \<Rightarrow> 'a \<Rightarrow>
    bool \<times> phys_mem \<times> 'a" where
  "map_rec alloc 0 m t v p flags a = (False, m, a)"
| "map_rec alloc (Suc 0) m t v p flags a =
     (if is_present (table_entry m t (pidx 1 v)) then (False, m, a)
      else (True, set_entry m t (pidx 1 v) (set_frame p (flags OR PTE_PRESENT)), a))"
| "map_rec alloc (Suc (Suc l)) m t v p flags a =
     (case next_table alloc (if l = 2 then Pml4 else if l = 1 then Pdpt else Pd) m t (pidx (Suc (Suc l)) v) (pidx 1 v) flags a of
        (None, m1, a1) \<Rightarrow> (False, m1, a1)
      | (Some t1, m1, a1) \<Rightarrow> map_rec alloc (Suc l) m1 t1 v p flags a1)"

lemma map_4k_into_rec: "map_4k_into alloc m t (VirtAddr v) p flags a = map_rec alloc 4 m t v p flags a"
  by (simp add: map_4k_into_def numeral_eq_Suc virt_index_pidx [unfolded numeral_eq_Suc] split: option.splits prod.splits)

definition same_page :: "nat \<Rightarrow> u64 \<Rightarrow> u64 \<Rightarrow> bool" where
  "same_page l v w \<longleftrightarrow> (\<forall>k \<in> {1..l}. pidx k w = pidx k v)"

lemma same_page_Suc: "same_page (Suc l) v w \<longleftrightarrow> same_page l v w \<and> pidx (Suc l) w = pidx (Suc l) v"
  by (auto simp: same_page_def le_Suc_eq)

definition map_post :: "phys_mem \<Rightarrow> u64 set \<Rightarrow> nat \<Rightarrow> u64 \<Rightarrow> u64 \<Rightarrow> u64 \<Rightarrow> u64 \<Rightarrow> bool \<Rightarrow> phys_mem \<Rightarrow> u64 set \<Rightarrow> bool" where
  "map_post m F l f v p flags done m1 F1 \<longleftrightarrow>
     ptree m1 l f \<and> ptabs m1 l f \<subseteq> ptabs m l f \<union> (F - F1) \<and> F1 \<subseteq> F \<and>
     (\<forall>h. h \<notin> ptabs m l f \<union> (F - F1) \<longrightarrow> m1 h = m h) \<and>
     (\<forall>w. if done \<and> same_page l v w
          then resolve m1 l f w = Some (p + (w AND 0xFFF), wr flags, us flags, nx flags)
          else keeps (us flags) m m1 l f w)"

lemma child_1 [simp]: "child (Suc 0) e = None"
  by (simp add: child_def is_leaf_def)

lemma map_leaf_post:
  assumes p: "frame_ok p" "flags AND ADDR_MASK = 0"
    and e: "map_rec alloc (Suc 0) m (PhysAddr f) v (PhysAddr p) flags a = (done, m1, a1)"
  shows "a1 = a \<and> map_post m F (Suc 0) f v p flags done m1 F"
proof (cases "is_present (m f (pidx 1 v))")
  case True
  with e have "m1 = m" "\<not> done" "a1 = a" by (simp_all add: table_entry_def)
  then show ?thesis by (simp add: map_post_def below_def)
next
  case False
  let ?e = "set_frame (PhysAddr p) (flags OR PTE_PRESENT)"
  from e False have m1: "m1 = m(f := (m f)(pidx 1 v := ?e))" "done" "a1 = a"
    by (auto simp: table_entry_def set_entry_def)
  have fl: "(flags OR PTE_PRESENT) AND ADDR_MASK = 0" using p(2) by (simp add: bit.conj_disj_distrib2)
  have ent: "ent_frame ?e = p" using pte_phys_set_frame [OF p(1) fl] by (simp add: pte_phys_def)
  have b: "is_present ?e" "wr ?e = wr flags" "us ?e = us flags" "nx ?e = nx flags"
    unfolding pte_bits set_frame_bits by (simp_all add: bit_or_iff PTE_PRESENT_def bit_1_iff)
  have t: "ptabs m1 (Suc 0) f = {f}" "ptabs m (Suc 0) f = {f}" "ptree m1 (Suc 0) f"
    by (rule ptree_leaves; simp)+
  have r1: "resolve m1 (Suc 0) f w = Some (p + (w AND 0xFFF), wr flags, us flags, nx flags)" if "pidx 1 w = pidx 1 v" for w
    using that b ent by (simp add: m1 is_leaf_def leaf_addr_def Let_def)
  have r2: "resolve m1 (Suc 0) f w = resolve m (Suc 0) f w" if "pidx 1 w \<noteq> pidx 1 v" for w
    using that by (simp add: m1 Let_def)
  have "leaf_user m1 (Suc 0) f w = leaf_user m (Suc 0) f w" if "pidx 1 w \<noteq> pidx 1 v" for w
    using that by (simp add: m1 leaf_user.simps Let_def)
  with r2 have r2: "keeps (us flags) m m1 (Suc 0) f w" if "pidx 1 w \<noteq> pidx 1 v" for w
    using that by (intro keeps_same) blast+
  have "same_page (Suc 0) v w \<longleftrightarrow> pidx 1 w = pidx 1 v" for w by (auto simp: same_page_def)
  with t r1 r2 m1 show ?thesis by (simp add: map_post_def del: resolve.simps ptree.simps)
qed

text \<open>Mapping in the subtree below an entry, after the step that leads there.\<close>

lemma map_post_under:
  assumes T: "ptree m (Suc l) f" and l: "0 < l" and dis: "F \<inter> ptabs m (Suc l) f = {}"
    and st: "step_post m F l f (pidx (Suc l) v) (pidx 1 v) flags g m1 F1"
    and rest: "map_post m1 F1 l g v p flags done m2 F2"
    and hole: "l = 1 \<and> is_present (m f (pidx (Suc l) v)) \<and> hg (m f (pidx (Suc l) v)) \<Longrightarrow> done"
  shows "map_post m F (Suc l) f v p flags done m2 F2"
proof -
  let ?i = "pidx (Suc l) v"
  let ?S = "below m l f ?i \<union> (F - F2)"
  have f: "f \<notin> F" "f \<notin> below m l f ?i" using dis ptabs_Suc_self [of f m l] T by auto
  note s = st [unfolded step_post_def] and r = rest [unfolded map_post_def]
  have FF: "F1 \<subseteq> F" "F2 \<subseteq> F1" using s r by auto
  have tab1: "ptabs m1 l g \<subseteq> below m l f ?i \<union> (F - F1)" using s by blast
  have tab2: "ptabs m2 l g \<subseteq> ?S" using tab1 r FF by blast
  have out: "m2 h = m h" if "h \<notin> ?S" "h \<noteq> f" for h
  proof -
    have "h \<notin> ptabs m1 l g \<union> (F1 - F2)" using that tab1 FF by blast
    then have "m2 h = m1 h" using r by blast
    moreover have "m1 h = m h" using that FF s by blast
    ultimately show ?thesis by simp
  qed
  have mf: "m2 f = m1 f"
  proof -
    have "f \<notin> ptabs m1 l g \<union> (F1 - F2)" using f tab1 FF by blast
    then show ?thesis using r by blast
  qed
  have row: "m2 f j = m f j" if "j \<noteq> ?i" for j using that s mf by simp
  have sib: "?S \<inter> below m l f j = {}" if "j < 512" "j \<noteq> ?i" for j
  proof -
    have "below m l f ?i \<inter> below m l f j = {}" using T that pidx_less [of "Suc l" v] by simp
    then show ?thesis using dis below_sub [OF that(1), of m l f] by blast
  qed
  have c2: "child (Suc l) (m2 f ?i) = Some g" "wr (m2 f ?i)" "\<not> nx (m2 f ?i)" using s mf by auto
  have T2: "ptree m2 l g" "f \<notin> ptabs m2 l g" using r tab2 f by auto
  note up = subtree_update [OF T pidx_less out row sib c2(1) T2 tab2 c2(2,3)]
  have res: "resolve m2 (Suc l) f w = under (m1 f ?i) (resolve m2 l g w)" if "pidx (Suc l) w = ?i" for w
    using c2(1) that mf by (auto simp: child_def Let_def split: if_splits)
  have res1: "resolve m1 (Suc l) f w = under (m1 f ?i) (resolve m1 l g w)" if "pidx (Suc l) w = ?i" for w
    using s that by (auto simp: child_def Let_def split: if_splits)
  have "if done \<and> same_page (Suc l) v w
      then resolve m2 (Suc l) f w = Some (p + (w AND 0xFFF), wr flags, us flags, nx flags)
      else keeps (us flags) m m2 (Suc l) f w" for w
  proof (cases "pidx (Suc l) w = ?i")
    case False
    then show ?thesis using up(3,4) by (simp add: same_page_Suc keeps_same del: resolve.simps)
  next
    case w: True
    show ?thesis
    proof (cases "done \<and> same_page l v w")
      case True
      with r w s res [OF w] show ?thesis by (auto simp: same_page_Suc under_def simp del: resolve.simps)
    next
      case False
      then have "keeps (us flags) m1 m2 l g w" using r by presburger
      then have "keeps (us flags) m1 m2 (Suc l) f w"
        by (rule keeps_under) (use s in \<open>auto simp: mf w\<close>)
      moreover have "\<not> (l = 1 \<and> is_present (m f ?i) \<and> hg (m f ?i) \<and> pidx 1 w = pidx 1 v)"
        using False hole by (auto simp: same_page_def)
      then have "keeps (us flags) m m1 (Suc l) f w" using s w by presburger
      ultimately have "keeps (us flags) m m2 (Suc l) f w" by (rule keeps_trans [rotated])
      moreover have "\<not> (done \<and> same_page (Suc l) v w)" using False by (auto simp: same_page_Suc)
      ultimately show ?thesis by (simp only: if_False)
    qed
  qed
  moreover have "ptabs m2 (Suc l) f \<subseteq> ptabs m (Suc l) f \<union> (F - F2)"
    using up(2) tab2 below_sub [OF pidx_less, of m l f "Suc l" v] by blast
  moreover have "m2 h = m h" if "h \<notin> ptabs m (Suc l) f \<union> (F - F2)" for h
    using that out below_sub [OF pidx_less, of m l f "Suc l" v] ptabs_Suc_self [of f m l] by blast
  ultimately show ?thesis unfolding map_post_def using up(1) FF by blast
qed

context frame_supply
begin

lemma next_table_step:
  assumes T: "ptree m (Suc (Suc l)) f" and r: "ready a" and F: "avail a \<inter> ptabs m (Suc (Suc l)) f = {}" and i: "i < 512"
    and lev: "level = (if l = 2 then Pml4 else if l = 1 then Pdpt else Pd)" "l \<le> 2"
    and n: "next_table alloc level m (PhysAddr f) i k flags a = (res, m1, a1)"
  shows "case res of
      None \<Rightarrow> m1 = m \<and> a1 = a
    | Some g \<Rightarrow> ready a1 \<and> step_post m (avail a) (Suc l) f i k flags (phys_u64 g) m1 (avail a1)"
proof -
  let ?e = "m f i"
  consider (absent) "\<not> is_present ?e" | (huge) "is_present ?e" "l < 2" "hg ?e"
    | (table) "is_present ?e" "\<not> (l < 2 \<and> hg ?e)" by blast
  then show ?thesis
  proof cases
    case absent
    obtain q b where al: "alloc a = (q, b)" by fastforce
    show ?thesis
    proof (cases q)
      case None
      with n absent al alloc_None [OF r] show ?thesis by (auto simp: next_table_def table_entry_def)
    next
      case (Some g)
      note s = alloc_Some [OF r al [unfolded Some]]
      have m1: "res = Some g" "a1 = b" "m1 = set_entry (m(phys_u64 g := empty_table)) (PhysAddr f) i
          (set_frame (PhysAddr (phys_u64 g)) (intermediate_flags flags))"
        using n absent al Some by (auto simp: next_table_def table_entry_def zero_table_def)
      have "step_post m (avail a) (Suc l) f i k flags (phys_u64 g) m1 (avail a - {phys_u64 g})"
        by (rule step_new [OF T i _ F _ _ _ _ _ _ _ _ m1(3)])
          (use s avail_ok [OF r] absent in \<open>auto simp: intermediate_flags_bits empty_table_def child_def user_access_def leaf_user.simps\<close>)
      with m1 s show ?thesis by simp
    qed
  next
    case huge
    obtain q b where al: "alloc a = (q, b)" by fastforce
    show ?thesis
    proof (cases q)
      case None
      with n huge al lev alloc_None [OF r] show ?thesis
        by (auto simp: next_table_def table_entry_def split_1g_pdpte_eq split_2m_pde_eq split: if_splits)
    next
      case (Some g)
      note s = alloc_Some [OF r al [unfolded Some]]
      from next_table_split [OF T i huge lev al [unfolded Some] n F s [THEN conjunct1]] s avail_ok [OF r]
      show ?thesis by auto
    qed
  next
    case table
    have m1: "res = Some (pte_phys ?e)" "a1 = a" "m1 = (if us flags \<and> \<not> us ?e
        then set_entry m (PhysAddr f) i (set_frame (pte_phys ?e) (intermediate_flags flags)) else m)"
      using n table lev by (auto simp: next_table_def table_entry_def Let_def split: if_splits)
    have "\<not> is_leaf (Suc (Suc l)) ?e" using table lev(2) by (auto simp: is_leaf_def)
    from step_existing [OF T i table(1) this _ m1(3)] m1(1,2) r show ?thesis by (simp add: pte_phys_def)
  qed
qed

lemma map_rec_post:
  assumes "ptree m l f" "ready a" "avail a \<inter> ptabs m l f = {}" "0 < l" "l \<le> 4"
    and p: "frame_ok p" "flags AND ADDR_MASK = 0"
    and "map_rec alloc l m (PhysAddr f) v (PhysAddr p) flags a = (done, m1, a1)"
  shows "ready a1 \<and> map_post m (avail a) l f v p flags done m1 (avail a1)"
  using assms(1-5,8)
proof (induction l arbitrary: m f a rule: less_induct)
  case (less l)
  show ?case
  proof (cases "l = 1")
    case True
    with less.prems(6) have "map_rec alloc (Suc 0) m (PhysAddr f) v (PhysAddr p) flags a = (done, m1, a1)" by simp
    from map_leaf_post [OF p this, of "avail a"] less.prems(2) True show ?thesis by (simp del: resolve.simps ptree.simps)
  next
    case False
    define k where "k = l - 2"
    with False less.prems(4) have l: "l = Suc (Suc k)" by simp
    obtain res m2 a2 where n: "next_table alloc (if k = 2 then Pml4 else if k = 1 then Pdpt else Pd) m (PhysAddr f)
        (pidx (Suc (Suc k)) v) (pidx 1 v) flags a = (res, m2, a2)"
      by (rule prod_cases3)
    have k: "k \<le> 2" using less.prems(5) l by simp
    note T = less.prems(1) [unfolded l] and F = less.prems(3) [unfolded l]
    note step = next_table_step [OF T less.prems(2) F pidx_less refl k n]
    show ?thesis
    proof (cases res)
      case None
      with step have "m2 = m" "a2 = a" by simp_all
      with n None less.prems(6) have "m1 = m" "a1 = a" "\<not> done" unfolding l by auto
      with less.prems(1,2) show ?thesis by (simp add: map_post_def del: ptree.simps resolve.simps)
    next
      case (Some g)
      let ?g = "phys_u64 g"
      from step Some have r2: "ready a2"
        and st: "step_post m (avail a) (Suc k) f (pidx (Suc (Suc k)) v) (pidx 1 v) flags ?g m2 (avail a2)" by auto
      have rec: "map_rec alloc (Suc k) m2 (PhysAddr ?g) v (PhysAddr p) flags a2 = (done, m1, a1)"
        using less.prems(6) n Some by (simp add: l)
      have IH: "ready a1 \<and> map_post m2 (avail a2) (Suc k) ?g v p flags done m1 (avail a1)"
        using step_post_sub [OF st F] by (intro less.IH [OF _ _ r2 _ _ _ rec]) (use k l in \<open>simp_all del: ptree.simps\<close>)
      have hole: "done" if h: "Suc k = 1 \<and> is_present (m f (pidx (Suc (Suc k)) v)) \<and> hg (m f (pidx (Suc (Suc k)) v))"
      proof -
        from step_post_hole [OF st refl _ refl] h have "resolve m2 (Suc k) ?g v = None" by blast
        with h have "resolve m2 1 ?g v = None" by simp
        then have "\<not> is_present (m2 ?g (pidx 1 v))" by (simp add: is_leaf_def Let_def split: if_splits)
        with rec h show ?thesis by (auto simp: table_entry_def)
      qed
      have "map_post m (avail a) (Suc (Suc k)) f v p flags done m1 (avail a1)"
        by (rule map_post_under [OF T _ F st IH [THEN conjunct2]]) (simp, rule hole)
      with IH l show ?thesis by blast
    qed
  qed
qed

lemma next_table_supplied:
  assumes "ready a" "0 < card (avail a)" "next_table alloc level m t i k flags a = (res, m1, a1)"
  shows "res \<noteq> None \<and> card (avail a) \<le> Suc (card (avail a1))"
proof -
  obtain q b where al: "alloc a = (q, b)" by fastforce
  have q: "q \<noteq> None"
  proof
    assume "q = None"
    with alloc_None [OF assms(1), of b] al have "avail a = {}" by simp
    with assms(2) show False by simp
  qed
  then obtain g where "q = Some g" by blast
  with alloc_Some [OF assms(1)] al have "avail b = avail a - {phys_u64 g}" by blast
  then have "card (avail a) \<le> Suc (card (avail b))"
    using card_Suc_Diff1 avail_ok [OF assms(1)] by (cases "phys_u64 g \<in> avail a") (simp_all add: card_Diff_singleton_if)
  with assms(3) al q show ?thesis
    by (auto simp: next_table_def split_1g_pdpte_def split_2m_pde_def Let_def split: if_splits)
qed

lemma map_rec_succeeds:
  assumes "ptree m l f" "ready a" "avail a \<inter> ptabs m l f = {}" "0 < l" "l \<le> 4" "resolve m l f v = None" "l \<le> Suc (card (avail a))"
  shows "fst (map_rec alloc l m (PhysAddr f) v p flags a)"
  using assms
proof (induction l arbitrary: m f a rule: less_induct)
  case (less l)
  show ?case
  proof (cases "l = 1")
    case True
    with less.prems(6) have "\<not> is_present (m f (pidx 1 v))" by (auto simp: is_leaf_def Let_def split: if_splits)
    with True show ?thesis by (simp add: table_entry_def)
  next
    case False
    define k where "k = l - 2"
    with False less.prems(4) have l: "l = Suc (Suc k)" by simp
    have k: "k \<le> 2" using less.prems(5) l by simp
    obtain res m2 a2 where n: "next_table alloc (if k = 2 then Pml4 else if k = 1 then Pdpt else Pd) m (PhysAddr f)
        (pidx (Suc (Suc k)) v) (pidx 1 v) flags a = (res, m2, a2)"
      by (rule prod_cases3)
    note T = less.prems(1) [unfolded l] and F = less.prems(3) [unfolded l]
    have sup: "res \<noteq> None" "card (avail a) \<le> Suc (card (avail a2))"
      using next_table_supplied [OF less.prems(2) _ n] less.prems(7) l by auto
    then obtain g where g: "res = Some g" by blast
    from next_table_step [OF T less.prems(2) F pidx_less refl k n] g have r2: "ready a2"
      and st: "step_post m (avail a) (Suc k) f (pidx (Suc (Suc k)) v) (pidx 1 v) flags (phys_u64 g) m2 (avail a2)" by auto
    have "resolve m2 (Suc k) (phys_u64 g) v = None" by (rule step_post_None [OF st less.prems(6) [unfolded l]])
    then have "fst (map_rec alloc (Suc k) m2 (PhysAddr (phys_u64 g)) v p flags a2)"
      using step_post_sub [OF st F] r2 sup(2) less.prems(5,7) l by (intro less.IH) (simp_all del: resolve.simps ptree.simps)
    then show ?thesis using n g by (simp add: l)
  qed
qed

text \<open>Only the tables on the way to the page and frames just taken are written.\<close>

lemma map_rec_path:
  assumes T: "ptree m (Suc (Suc k)) f" and r: "ready a" and F: "avail a \<inter> ptabs m (Suc (Suc k)) f = {}" and k: "k \<le> 2"
    and p: "frame_ok p" "flags AND ADDR_MASK = 0"
    and e: "map_rec alloc (Suc (Suc k)) m (PhysAddr f) v (PhysAddr p) flags a = (ok, m1, a1)"
  defines "i \<equiv> pidx (Suc (Suc k)) v"
  shows "(\<forall>h. h \<noteq> f \<and> h \<notin> below m (Suc k) f i \<union> (avail a - avail a1) \<longrightarrow> m1 h = m h) \<and> (\<forall>j. j \<noteq> i \<longrightarrow> m1 f j = m f j) \<and>
     below m1 (Suc k) f i \<subseteq> below m (Suc k) f i \<union> (avail a - avail a1)"
proof -
  obtain res m2 a2 where n: "next_table alloc (if k = 2 then Pml4 else if k = 1 then Pdpt else Pd) m (PhysAddr f)
      i (pidx 1 v) flags a = (res, m2, a2)"
    by (rule prod_cases3)
  note step = next_table_step [OF T r F pidx_less refl k n [unfolded i_def]]
  show ?thesis
  proof (cases res)
    case None
    with step have "m2 = m" "a2 = a" by simp_all
    with n None e have "m1 = m" "a1 = a" unfolding i_def by auto
    then show ?thesis by simp
  next
    case (Some g)
    let ?g = "phys_u64 g"
    from step Some have r2: "ready a2" and st: "step_post m (avail a) (Suc k) f i (pidx 1 v) flags ?g m2 (avail a2)"
      by (auto simp: i_def)
    have "map_rec alloc (Suc k) m2 (PhysAddr ?g) v (PhysAddr p) flags a2 = (ok, m1, a1)"
      using e n Some by (simp add: i_def)
    from map_rec_post [OF _ r2 _ _ _ p this] step_post_sub [OF st [unfolded i_def] F] k
    have P: "map_post m2 (avail a2) (Suc k) ?g v p flags ok m1 (avail a1)" by (simp del: ptree.simps)
    note s = st [unfolded step_post_def] and q = P [unfolded map_post_def]
    have f: "f \<notin> avail a" using F ptabs_Suc_self by blast
    have t2: "ptabs m2 (Suc k) ?g \<subseteq> below m (Suc k) f i \<union> (avail a - avail a2)" "avail a2 \<subseteq> avail a" "f \<notin> ptabs m2 (Suc k) ?g"
      using s by blast+
    have t1: "ptabs m1 (Suc k) ?g \<subseteq> ptabs m2 (Suc k) ?g \<union> (avail a2 - avail a1)" "avail a1 \<subseteq> avail a2" using q by blast+
    have mf: "m1 f = m2 f" using q t2 f by blast
    have out: "m1 h = m h" if "h \<noteq> f" "h \<notin> below m (Suc k) f i \<union> (avail a - avail a1)" for h
    proof -
      have "m2 h = m h" using s that t1 by blast
      moreover have "h \<notin> ptabs m2 (Suc k) ?g \<union> (avail a2 - avail a1)" using that t1(2) t2(1,2) by blast
      then have "m1 h = m2 h" using q by blast
      ultimately show ?thesis by simp
    qed
    have "below m1 (Suc k) f i = ptabs m1 (Suc k) ?g" using s by (simp add: below_def mf)
    then have "below m1 (Suc k) f i \<subseteq> below m (Suc k) f i \<union> (avail a - avail a1)" using t1 t2 by blast
    moreover have "m1 f j = m f j" if "j \<noteq> i" for j using s that by (simp add: mf)
    ultimately show ?thesis using out by blast
  qed
qed

lemma map_rec_uses:
  assumes "ptree m l f" "ready a" "avail a \<inter> ptabs m l f = {}" "0 < l" "l \<le> 4"
  shows "card (avail a) < l + card (avail (snd (snd (map_rec alloc l m (PhysAddr f) v p flags a))))"
  using assms
proof (induction l arbitrary: m f a rule: less_induct)
  case (less l)
  show ?case
  proof (cases "l = 1 \<or> card (avail a) = 0")
    case True
    with less.prems(4) show ?thesis by auto
  next
    case False
    define k where "k = l - 2"
    with False less.prems(4) have l: "l = Suc (Suc k)" by linarith
    have k: "k \<le> 2" using less.prems(5) l by simp
    obtain res m2 a2 where n: "next_table alloc (if k = 2 then Pml4 else if k = 1 then Pdpt else Pd) m (PhysAddr f)
        (pidx (Suc (Suc k)) v) (pidx 1 v) flags a = (res, m2, a2)"
      by (rule prod_cases3)
    note T = less.prems(1) [unfolded l] and F = less.prems(3) [unfolded l]
    have sup: "res \<noteq> None" "card (avail a) \<le> Suc (card (avail a2))"
      using next_table_supplied [OF less.prems(2) _ n] False by blast+
    then obtain g where g: "res = Some g" by blast
    from next_table_step [OF T less.prems(2) F pidx_less refl k n] g have r2: "ready a2"
      and st: "step_post m (avail a) (Suc k) f (pidx (Suc (Suc k)) v) (pidx 1 v) flags (phys_u64 g) m2 (avail a2)" by auto
    have "card (avail a2) < Suc k + card (avail (snd (snd (map_rec alloc (Suc k) m2 (PhysAddr (phys_u64 g)) v p flags a2))))"
      using step_post_sub [OF st F] r2 less.prems(5) l by (intro less.IH) (simp_all del: ptree.simps)
    then show ?thesis using n g sup(2) by (simp add: l)
  qed
qed

end

section \<open>The frame allocator supplies the tables\<close>

definition free_frames :: "frame_alloc \<Rightarrow> u64 set" where
  "free_frames a = (\<lambda>i. phys_u64 (frame_addr a i)) ` free_set a"

definition frames_ready :: "frame_alloc \<Rightarrow> bool" where
  "frames_ready a \<longleftrightarrow> frame_inv a \<and> unat (fa_base a) + CAPACITY a * 4096 \<le> 2 ^ 52"

lemma free_frames_ok:
  assumes "frames_ready a" "i < CAPACITY a"
  shows "frame_ok (phys_u64 (frame_addr a i))"
proof -
  have "i * 4096 + 4096 \<le> CAPACITY a * 4096" using assms(2) by simp
  moreover have "unat (phys_u64 (frame_addr a i)) mod 4096 = 0"
    using frame_addr_facts(2) [of a i] assms
    by (simp add: frames_ready_def FRAME_BYTES_def word_unat_eq_iff unat_mod)
  ultimately show ?thesis
    using frame_addr_facts(1) [of a i] assms by (auto simp: frame_ok_iff frames_ready_def)
qed

lemma free_frames_alloc:
  assumes r: "frames_ready a" and al: "alloc_frame a = (Some f, a1)"
  shows "phys_u64 f \<in> free_frames a \<and> free_frames a1 = free_frames a - {phys_u64 f} \<and> frames_ready a1"
proof -
  let ?i = "Min (free_set a)"
  from al have ne: "free_set a \<noteq> {}" and f: "f = frame_addr a ?i"
    and a1: "a1 = (set_frame_bit a ?i)\<lparr>fa_free := saturating_sub (fa_free a) 1\<rparr>"
    by (auto simp: alloc_frame_first_fit Let_def split: if_splits)
  have i: "?i \<in> free_set a" by (rule Min_free_set [OF ne])
  then have ic: "?i < CAPACITY a" by (simp add: free_set_def)
  have addr: "frame_addr a1 = frame_addr a" by (rule frame_addr_cong) (simp add: a1)
  have "free_frames a1 = (\<lambda>j. phys_u64 (frame_addr a j)) ` (free_set a - {?i})"
    by (simp add: free_frames_def addr) (simp add: a1 free_set_set [OF ic])
  moreover have "phys_u64 (frame_addr a j) \<noteq> phys_u64 f" if "j \<in> free_set a - {?i}" for j
    using that frame_addr_inj [of a j ?i] r ic
    by (auto simp: f frames_ready_def free_set_def intro: phys_addr.expand)
  ultimately have "free_frames a1 = free_frames a - {phys_u64 f}"
    unfolding free_frames_def using i by (auto simp: f)
  moreover have "frame_inv a1" using frame_inv_alloc [of a] r al by (simp add: frames_ready_def)
  ultimately show ?thesis
    using r i by (auto simp: frames_ready_def free_frames_def f a1)
qed

interpretation kframes: frame_supply alloc_frame free_frames frames_ready
proof
  show "phys_u64 f \<in> free_frames a \<and> free_frames a1 = free_frames a - {phys_u64 f} \<and> frames_ready a1"
    if "frames_ready a" "alloc_frame a = (Some f, a1)" for a f a1
    by (rule free_frames_alloc [OF that])
  show "a1 = a \<and> free_frames a = {}" if "alloc_frame a = (None, a1)" for a a1
    using that by (auto simp: alloc_frame_first_fit Let_def free_frames_def split: if_splits)
  show "finite (free_frames a) \<and> (\<forall>g \<in> free_frames a. frame_ok g)" if "frames_ready a" for a
    using free_frames_ok [OF that] by (auto simp: free_frames_def free_set_def)
qed

section \<open>Pages\<close>

text \<open>Two addresses are on the same page when they agree on bits 12 to 47.\<close>

lemma digits_eq:
  fixes a c x y B :: nat
  assumes "a < B" "c < B"
  shows "a + B * x = c + B * y \<longleftrightarrow> a = c \<and> x = y"
proof
  assume "a + B * x = c + B * y"
  then have "(a + B * x) mod B = (c + B * y) mod B" "(a + B * x) div B = (c + B * y) div B" by simp_all
  then show "a = c \<and> x = y" using assms by simp
qed simp

lemma same_page_iff: "same_page 4 v w \<longleftrightarrow> unat v mod 2 ^ 48 div 4096 = unat w mod 2 ^ 48 div 4096"
proof -
  let ?P = "\<lambda>n u :: u64. unat u div 2 ^ 12 mod 2 ^ (9 * n)"
  have split: "?P (Suc n) u = ?P n u + 2 ^ (9 * n) * pidx (Suc n) u" for n u
  proof -
    have "?P (Suc n) u = unat u div 2 ^ 12 mod (2 ^ (9 * n) * 2 ^ 9)" by (simp add: power_add mult.commute)
    also have "\<dots> = 2 ^ (9 * n) * (unat u div 2 ^ 12 div 2 ^ (9 * n) mod 2 ^ 9) + ?P n u"
      by (rule mod_mult2_eq)
    also have "unat u div 2 ^ 12 div 2 ^ (9 * n) = unat u div 2 ^ (9 * Suc n + 3)"
      by (simp add: power_add flip: div_mult2_eq)
    finally show ?thesis by (simp add: pidx_div)
  qed
  have "same_page n v w \<longleftrightarrow> ?P n v = ?P n w" for n
  proof (induction n)
    case 0
    then show ?case by (simp add: same_page_def)
  next
    case (Suc n)
    have "?P n u < 2 ^ (9 * n)" for u by simp
    then have "?P n v + 2 ^ (9 * n) * pidx (Suc n) v = ?P n w + 2 ^ (9 * n) * pidx (Suc n) w \<longleftrightarrow>
        ?P n v = ?P n w \<and> pidx (Suc n) v = pidx (Suc n) w"
      by (intro digits_eq)
    with Suc split show ?case by (auto simp: same_page_Suc)
  qed
  from this [of 4] show ?thesis
    using mod_mult2_eq [of "unat v" "2 ^ 12" "2 ^ 36"] mod_mult2_eq [of "unat w" "2 ^ 12" "2 ^ 36"]
    by (simp add: div_add1_eq)
qed

lemma resolve_page_cong:
  assumes "same_page l v w"
  shows "map_option snd (resolve m l f w) = map_option snd (resolve m l f v)"
  using assms
proof (induction l arbitrary: f)
  case (Suc l)
  have "map_option snd (under e r) = map_option (\<lambda>(w, u, x). (wr e \<and> w, us e \<and> u, nx e \<or> x)) (map_option snd r)" for e r
    by (cases r) (auto simp: under_def)
  then have "map_option snd (under e (resolve m l g w)) = map_option snd (under e (resolve m l g v))" for e g
    using Suc by (simp add: same_page_Suc del: option.map_comp)
  with Suc.prems show ?case by (simp add: same_page_Suc Let_def)
qed simp

section \<open>The range check\<close>

definition byte_ok :: "phys_mem \<Rightarrow> phys_addr \<Rightarrow> bool \<Rightarrow> u64 \<Rightarrow> bool" where
  "byte_ok m root write b \<longleftrightarrow> (case page_access_in m root (VirtAddr b) of None \<Rightarrow> False | Some w \<Rightarrow> write \<longrightarrow> w)"

lemma byte_ok_page:
  assumes "4096 dvd unat page" "unat page \<le> unat b" "unat b < unat page + 4096"
  shows "byte_ok m root write b = byte_ok m root write page"
proof -
  obtain q where q: "unat page = 4096 * q" using assms(1) ..
  then have "unat b div 4096 = unat page div 4096" using assms(2,3) by (intro div_nat_eqI) simp_all
  moreover have "unat x mod 2 ^ 48 div 4096 = unat x div 4096 mod 2 ^ 36" for x :: u64
    using mod_mult2_eq [of "unat x" "2 ^ 12" "2 ^ 36"] by (simp add: div_add1_eq)
  ultimately have "same_page 4 page b" unfolding same_page_iff by simp
  then have "map_option (fst \<circ> snd) (resolve m 4 (phys_u64 root) b) = map_option (fst \<circ> snd) (resolve m 4 (phys_u64 root) page)"
    using resolve_page_cong [of 4 page b m "phys_u64 root"] by (metis option.map_comp)
  then have "page_access_in m root (VirtAddr b) = page_access_in m root (VirtAddr page)"
    using page_access_in_resolve [of m "phys_u64 root"] by (simp add: comp_def)
  then show ?thesis by (simp add: byte_ok_def)
qed

lemma range_loop_unfold:
  "range_loop m root page e write \<longleftrightarrow>
     (page < e \<longrightarrow> byte_ok m root write page \<and>
        (case checked_add page 0x1000 of None \<Rightarrow> False | Some nxt \<Rightarrow> range_loop m root nxt e write))"
  by (subst range_loop.simps) (auto simp: byte_ok_def split: option.splits)

lemma u64_bound: "unat (x :: u64) < 2 ^ 64"
  using unsigned_less [of x, where 'a = nat] by simp

lemma u64_range_all:
  assumes "n \<le> 2 ^ 64"
  shows "(\<forall>b :: u64. k \<le> unat b \<and> unat b < n \<longrightarrow> P b) \<longleftrightarrow> (\<forall>b \<in> {k..<n}. P (of_nat b))"
proof (intro iffI ballI allI impI)
  fix b assume "\<forall>b :: u64. k \<le> unat b \<and> unat b < n \<longrightarrow> P b" "b \<in> {k..<n}"
  then show "P (of_nat b)" using assms unat_of_nat_small [of b, where 'w = 64] by simp
next
  fix b :: u64 assume "\<forall>b \<in> {k..<n}. P (of_nat b)" "k \<le> unat b \<and> unat b < n"
  then have "unat b \<in> {k..<n}" "\<forall>b \<in> {k..<n}. P (of_nat b)" by simp_all
  from bspec [OF this(2,1)] show "P b" by simp
qed

lemma range_loop_exact:
  assumes "4096 dvd unat page"
  shows "range_loop m root page e wrt \<longleftrightarrow>
    (page < e \<longrightarrow> unat e \<le> 2 ^ 64 - 4096 \<and> (\<forall>b. unat page \<le> unat b \<and> unat b < unat e \<longrightarrow> byte_ok m root wrt b))"
  using assms
proof (induction m root page e wrt rule: range_loop.induct)
  case (1 m root page e wrt)
  show ?case
  proof (cases "page < e")
    case False
    then show ?thesis by (subst range_loop_unfold) simp
  next
    case True
    then have pe: "unat page < unat e" by (simp add: word_less_nat_alt)
    obtain q where q: "unat page = 4096 * q" using 1(2) ..
    show ?thesis
    proof (cases "checked_add page 0x1000")
      case None
      then have "2 ^ 64 - 4096 \<le> unat page" by (simp add: checked_add_None_iff)
      with pe True None show ?thesis by (subst range_loop_unfold) simp
    next
      case (Some nxt)
      from checked_add_SomeD [OF Some, THEN conjunct2] have n: "unat nxt = unat page + 4096" by simp
      with u64_bound [of nxt] q have top: "unat nxt \<le> 2 ^ 64 - 4096" by simp
      have dvd: "4096 dvd unat nxt" using n q by simp
      have IH: "range_loop m root nxt e wrt \<longleftrightarrow> (nxt < e \<longrightarrow> unat e \<le> 2 ^ 64 - 4096 \<and>
          (\<forall>b. unat nxt \<le> unat b \<and> unat b < unat e \<longrightarrow> byte_ok m root wrt b))"
        if ok: "byte_ok m root wrt page"
      proof -
        from ok obtain w where "page_access_in m root (VirtAddr page) = Some w" "\<not> wrt \<or> w"
          by (auto simp: byte_ok_def split: option.splits)
        from 1(1) [OF True this Some dvd] show ?thesis .
      qed
      have "range_loop m root page e wrt \<longleftrightarrow> byte_ok m root wrt page \<and> range_loop m root nxt e wrt"
        using True Some by (subst range_loop_unfold) simp
      also have "\<dots> \<longleftrightarrow> unat e \<le> 2 ^ 64 - 4096 \<and> (\<forall>b. unat page \<le> unat b \<and> unat b < unat e \<longrightarrow> byte_ok m root wrt b)"
        (is "?L \<longleftrightarrow> ?R")
      proof
        assume L: ?L
        show ?R
        proof (intro conjI allI impI)
          show "unat e \<le> 2 ^ 64 - 4096" using L IH top by (cases "nxt < e") (auto simp: word_less_nat_alt)
          fix b :: u64
          assume b: "unat page \<le> unat b \<and> unat b < unat e"
          show "byte_ok m root wrt b"
            using L IH b byte_ok_page [OF 1(2), of b] n by (cases "unat b < unat nxt") (auto simp: word_less_nat_alt)
        qed
      next
        assume R: ?R
        have "byte_ok m root wrt page" using R pe by blast
        moreover have "unat page \<le> unat b" if "unat nxt \<le> unat b" for b :: u64 using that n by simp
        ultimately show ?L using IH R by blast
      qed
      finally show ?thesis using True by simp
    qed
  qed
qed

section \<open>Unmapping a page\<close>

text \<open>\<open>unmap_4k\<close> by recursion over the levels. It does not look at the huge-page bit.\<close>

fun unmap_rec :: "nat \<Rightarrow> phys_mem \<Rightarrow> u64 \<Rightarrow> u64 \<Rightarrow> bool \<times> phys_mem" where
  "unmap_rec 0 m f v = (False, m)"
| "unmap_rec (Suc 0) m f v =
     (if is_present (m f (pidx 1 v)) then (True, set_entry m (PhysAddr f) (pidx 1 v) 0) else (False, m))"
| "unmap_rec (Suc (Suc l)) m f v =
     (let e = m f (pidx (Suc (Suc l)) v)
      in if is_present e then unmap_rec (Suc l) m (ent_frame e) v else (False, m))"

lemma unmap_4k_rec: "unmap_4k m pm (VirtAddr v) = unmap_rec 4 m (phys_u64 (root_phys pm)) v"
  by (simp add: unmap_4k_def numeral_eq_Suc virt_index_pidx [unfolded numeral_eq_Suc] table_entry_def pte_phys_def Let_def)

fun small_pages :: "nat \<Rightarrow> phys_mem \<Rightarrow> u64 \<Rightarrow> u64 \<Rightarrow> bool" where
  "small_pages 0 m f v \<longleftrightarrow> True"
| "small_pages (Suc l) m f v \<longleftrightarrow>
     (let e = m f (pidx (Suc l) v)
      in is_present e \<longrightarrow> (l = 0 \<or> \<not> is_leaf (Suc l) e) \<and> small_pages l m (ent_frame e) v)"

definition unmap_post :: "nat \<Rightarrow> phys_mem \<Rightarrow> u64 \<Rightarrow> u64 \<Rightarrow> bool \<Rightarrow> phys_mem \<Rightarrow> bool" where
  "unmap_post l m f v done m1 \<longleftrightarrow>
     ptree m1 l f \<and> ptabs m1 l f \<subseteq> ptabs m l f \<and> (\<forall>h. h \<notin> ptabs m l f \<longrightarrow> m1 h = m h) \<and>
     (done \<longleftrightarrow> resolve m l f v \<noteq> None) \<and>
     (\<forall>w. resolve m1 l f w = (if done \<and> same_page l v w then None else resolve m l f w))"

lemma unmap_rec_post:
  assumes "ptree m l f" "0 < l" "small_pages l m f v" "unmap_rec l m f v = (done, m1)"
  shows "unmap_post l m f v done m1"
  using assms
proof (induction l arbitrary: f rule: less_induct)
  case (less l)
  show ?case
  proof (cases "l = 1")
    case True
    have t: "ptabs m2 (Suc 0) f = {f}" "ptree m2 (Suc 0) f" for m2 by (rule ptree_leaves; simp)+
    have sp: "same_page (Suc 0) v w \<longleftrightarrow> pidx (Suc 0) w = pidx (Suc 0) v" for w by (auto simp: same_page_def)
    show ?thesis
      using less.prems(4) True t unfolding unmap_post_def
      by (auto simp: sp set_entry_def is_leaf_def Let_def simp del: ptree.simps split: if_splits)
  next
    case False
    define k where "k = l - 2"
    with False less.prems(2) have l: "l = Suc (Suc k)" by simp
    let ?i = "pidx (Suc (Suc k)) v" let ?e = "m f ?i" let ?g = "ent_frame ?e"
    show ?thesis
    proof (cases "is_present ?e")
      case False
      with less.prems l show ?thesis by (auto simp: unmap_post_def Let_def simp del: ptree.simps)
    next
      case e: True
      with less.prems(3) l have nl: "\<not> is_leaf (Suc (Suc k)) ?e" and sm: "small_pages (Suc k) m ?g v"
        by (auto simp: Let_def)
      have ch: "child (Suc (Suc k)) ?e = Some ?g" using e nl by (simp add: child_def)
      have bel: "below m (Suc k) f ?i = ptabs m (Suc k) ?g" using ch by (simp add: below_def)
      note T = less.prems(1) [unfolded l]
      have Tg: "ptree m (Suc k) ?g" "wr ?e" "\<not> nx ?e" "f \<notin> ptabs m (Suc k) ?g"
        using T [unfolded ptree.simps(2) [of m "Suc k"]] ch pidx_less [of "Suc (Suc k)" v] unfolding bel [symmetric] by blast+
      have "unmap_rec (Suc k) m ?g v = (done, m1)" using less.prems(4) e by (simp add: l)
      from less.IH [OF _ Tg(1) _ sm this] l have P: "unmap_post (Suc k) m ?g v done m1" by simp
      note P' = P [unfolded unmap_post_def]
      have mf: "m1 f = m f" using P' Tg(4) by blast
      have sib: "ptabs m (Suc k) ?g \<inter> below m (Suc k) f j = {}" if "j < 512" "j \<noteq> ?i" for j
        using T that pidx_less [of "Suc (Suc k)" v] unfolding bel [symmetric] by simp
      have out: "m1 h = m h" if "h \<notin> ptabs m (Suc k) ?g" "h \<noteq> f" for h using P' that(1) by blast
      have row: "m1 f j = m f j" if "j \<noteq> ?i" for j by (simp add: mf)
      have T1: "ptree m1 (Suc k) ?g" "f \<notin> ptabs m1 (Suc k) ?g" "ptabs m1 (Suc k) ?g \<subseteq> ptabs m (Suc k) ?g"
        using P' Tg(4) by blast+
      have c1: "child (Suc (Suc k)) (m1 f ?i) = Some ?g" using ch by (simp add: mf)
      have e1: "wr (m1 f ?i)" "\<not> nx (m1 f ?i)" unfolding mf by (rule Tg(2), rule Tg(3))
      note up = subtree_update [OF T pidx_less out row sib c1 T1 e1]
      have res: "resolve m2 (Suc (Suc k)) f w = under ?e (resolve m2 (Suc k) ?g w)"
        if "m2 f = m f" "pidx (Suc (Suc k)) w = ?i" for m2 w
        using resolve_Suc [of m2 f "Suc k" w] e nl that by (simp del: resolve.simps)
      have "resolve m1 l f w = (if done \<and> same_page l v w then None else resolve m l f w)" for w
        using P' res [of m1 w] res [of m w] mf up(3) [of w] unfolding l
        by (cases "pidx (Suc (Suc k)) w = ?i") (auto simp: same_page_Suc [of "Suc k"] under_def simp del: resolve.simps)
      moreover have "done \<longleftrightarrow> resolve m l f v \<noteq> None"
        using P' res [of m v] unfolding l by (auto simp: under_def simp del: resolve.simps)
      moreover have "ptabs m (Suc k) ?g \<subseteq> ptabs m l f"
        using below_sub [OF pidx_less, of m "Suc k" f "Suc (Suc k)" v] unfolding l bel .
      ultimately show ?thesis
        unfolding unmap_post_def using up(1,2) T1(3) P' l by blast
    qed
  qed
qed

lemma unmap_4k_exact:
  assumes "ptree m 4 (phys_u64 (root_phys pm))" "small_pages 4 m (phys_u64 (root_phys pm)) v"
    and "unmap_4k m pm (VirtAddr v) = (done, m1)"
  shows "unmap_post 4 m (phys_u64 (root_phys pm)) v done m1"
  using unmap_rec_post [of m 4] assms by (simp add: unmap_4k_rec del: ptree.simps)

text \<open>
  On an address inside a 2 MiB page, \<open>unmap_4k\<close> takes the data of the page for a page table: it
  reports success, overwrites a word of the data with zero, and the page stays mapped.
\<close>

lemma unmap_4k_huge_page:
  fixes v :: u64 and m :: phys_mem and pm :: page_mapper
  defines "e4 \<equiv> m (phys_u64 (root_phys pm)) (pidx 4 v)"
  defines "e3 \<equiv> m (ent_frame e4) (pidx 3 v)"
  defines "e2 \<equiv> m (ent_frame e3) (pidx 2 v)"
  assumes walk: "is_present e4" "is_present e3" "\<not> hg e3" "is_present e2" "hg e2"
    and data: "is_present (m (ent_frame e2) (pidx 1 v))"
    and apart: "ent_frame e2 \<notin> {phys_u64 (root_phys pm), ent_frame e4, ent_frame e3}"
  shows "\<exists>m1. unmap_4k m pm (VirtAddr v) = (True, m1) \<and> m1 (ent_frame e2) (pidx 1 v) = 0 \<and>
     translate m1 pm (VirtAddr v) = translate m pm (VirtAddr v) \<and> translate m pm (VirtAddr v) \<noteq> None"
proof (intro exI conjI)
  let ?m1 = "set_entry m (PhysAddr (ent_frame e2)) (pidx 1 v) 0"
  show "unmap_4k m pm (VirtAddr v) = (True, ?m1)"
    using walk data unfolding e4_def e3_def e2_def
    by (simp add: unmap_4k_def virt_index_pidx table_entry_def pte_phys_def)
  show "?m1 (ent_frame e2) (pidx 1 v) = 0" by (simp add: set_entry_def)
  have "?m1 (phys_u64 (root_phys pm)) = m (phys_u64 (root_phys pm))" "?m1 (ent_frame e4) = m (ent_frame e4)"
      "?m1 (ent_frame e3) = m (ent_frame e3)"
    using apart by (auto simp: set_entry_def)
  with walk show "translate ?m1 pm (VirtAddr v) = translate m pm (VirtAddr v)" "translate m pm (VirtAddr v) \<noteq> None"
    unfolding e4_def e3_def e2_def
    by (simp_all add: translate_def virt_index_pidx table_entry_def pte_phys_def Let_def)
qed

section \<open>Properties\<close>

definition six_free_frames :: frame_alloc where
  "six_free_frames = mark_range_free (frame_alloc_new 1 (PhysAddr 0)) (PhysAddr 0x3000) 0x6000"

lemma six_free_frames_facts:
  "free_frames six_free_frames = {0x3000, 0x4000, 0x5000, 0x6000, 0x7000, 0x8000}" "frames_ready six_free_frames"
proof -
  let ?n = "frame_alloc_new 1 (PhysAddr 0)"
  have eq: "six_free_frames = mark_free_loop ?n 3 9"
    by (simp add: six_free_frames_def mark_range_free_def frame_idx_def FRAME_BYTES_def
        frame_alloc_new_facts saturating_sub_def saturating_add_def checked_add_def)
  have base: "CAPACITY six_free_frames = 64" "fa_base six_free_frames = 0"
    by (simp_all add: eq mark_free_loop_spec frame_alloc_new_facts)
  have "free_set six_free_frames = {3, 4, 5, 6, 7, 8}"
    unfolding eq mark_free_loop_spec [THEN conjunct2, THEN conjunct2] frame_alloc_new_facts by auto
  then show "free_frames six_free_frames = {0x3000, 0x4000, 0x5000, 0x6000, 0x7000, 0x8000}"
    by (simp add: free_frames_def frame_addr_def base FRAME_BYTES_def)
  have "frame_inv ?n" by (rule frame_inv_new) (simp_all add: FRAME_BYTES_def)
  then have "frame_inv six_free_frames" unfolding eq by (rule frame_inv_mark_free_loop)
  then show "frames_ready six_free_frames" by (simp add: frames_ready_def base)
qed

text \<open>
  C2. Mapping a page changes that page and no other. Let the tables below the root be a tree of
  distinct frames none of which is free, and map the page of \<open>v\<close> to the frame \<open>p\<close>. If
  \<open>map_4k_into\<close> returns true, every address of the page translates to the same offset in \<open>p\<close>
  with the rights of the flags. Every address on another page, and every address if the result is
  false, keeps its physical address and its write and execute rights, although 2 MiB and 1 GiB
  pages may have been split on the way. It keeps its access from user mode too, except that it may
  gain it when the flags have the user bit and the entry mapping it had the user bit
  already; that entry's user bit does not change. The tables are again a tree apart from the
  free frames, and no word outside the old tables and the frames taken from the allocator was
  written. With three free frames an unmapped page is always mapped.
\<close>

theorem map_4k_into_exact:
  assumes "ptree m 4 r" "frames_ready a" "free_frames a \<inter> ptabs m 4 r = {}"
    and "frame_ok p" "flags AND ADDR_MASK = 0"
    and e: "map_4k_into alloc_frame m (PhysAddr r) (VirtAddr v) (PhysAddr p) flags a = (ok, m1, a1)"
  shows "(\<forall>w. if ok \<and> same_page 4 v w
            then resolve m1 4 r w = Some (p + (w AND 0xFFF), wr flags, us flags, nx flags)
            else grows (us flags \<and> leaf_user m 4 r w) (resolve m 4 r w) (resolve m1 4 r w) \<and>
              leaf_user m1 4 r w = leaf_user m 4 r w) \<and>
     ptree m1 4 r \<and> free_frames a1 \<inter> ptabs m1 4 r = {} \<and> frames_ready a1 \<and>
     (\<forall>h. m1 h \<noteq> m h \<longrightarrow> h \<in> ptabs m 4 r \<or> h \<in> free_frames a - free_frames a1) \<and>
     (resolve m 4 r v = None \<and> 3 \<le> card (free_frames a) \<longrightarrow> ok)"
proof -
  have e': "map_rec alloc_frame 4 m (PhysAddr r) v (PhysAddr p) flags a = (ok, m1, a1)"
    using e by (simp only: map_4k_into_rec)
  have P: "frames_ready a1 \<and> map_post m (free_frames a) 4 r v p flags ok m1 (free_frames a1)"
    by (rule kframes.map_rec_post [OF assms(1-3) _ _ assms(4,5) e']) simp_all
  have "ok" if "resolve m 4 r v = None \<and> 3 \<le> card (free_frames a)"
    using kframes.map_rec_succeeds [OF assms(1-3), of v "PhysAddr p" flags] that e' by simp
  with P assms(3) show ?thesis unfolding map_post_def keeps_def by blast
qed

theorem map_4k_into_exact_witness:
  "let (ok, m1, a1) = map_4k_into alloc_frame (\<lambda>_ _. 0) (PhysAddr 0x1000) (VirtAddr 0x40201000) (PhysAddr 0x9000)
       PTE_USER six_free_frames
   in ok \<and> translate_in m1 (PhysAddr 0x1000) (VirtAddr 0x40201234) = Some (PhysAddr 0x9234) \<and>
      translate_in m1 (PhysAddr 0x1000) (VirtAddr 0x40202000) = None"
proof -
  let ?m = "\<lambda>_ _. 0 :: u64"
  obtain ok m1 a1 where e: "map_4k_into alloc_frame ?m (PhysAddr 0x1000) (VirtAddr 0x40201000) (PhysAddr 0x9000)
      PTE_USER six_free_frames = (ok, m1, a1)" by (rule prod_cases3)
  have ch: "child l 0 = None" for l by (simp add: child_def)
  have T: "ptree ?m 4 0x1000" "ptabs ?m 4 0x1000 = {0x1000}"
    using ptree_leaves [of 3 ?m] by (simp_all add: ch)
  have dis: "free_frames six_free_frames \<inter> ptabs ?m 4 0x1000 = {}" by (simp add: six_free_frames_facts T)
  have none: "resolve ?m 4 0x1000 w = None" for w by (simp add: resolve_4)
  note P = map_4k_into_exact [OF T(1) six_free_frames_facts(2) dis _ _ e]
  have "ok" using P none by (simp add: frame_ok_def six_free_frames_facts)
  moreover have "same_page 4 0x40201000 0x40201234" "\<not> same_page 4 0x40201000 0x40202000"
    by (simp_all add: same_page_iff)
  ultimately show ?thesis
    using P none unfolding e translate_in_resolve
    by (auto simp: frame_ok_def dest: spec [of _ "0x40201234"] spec [of _ "0x40202000"])
qed

text \<open>
  C14. The check that guards every access to user memory is exact: it accepts a range precisely when
  the range is empty, or when it ends below the last page of the address space and the
  tables map every byte of it, writable at every level if the access is a write.
\<close>

theorem range_accessible_in_exact:
  "range_accessible_in m root (VirtAddr v) len write \<longleftrightarrow>
     len = 0 \<or> (unat v + unat len \<le> 2 ^ 64 - 4096 \<and>
       (\<forall>b \<in> {unat v ..< unat v + unat len}.
          case resolve m 4 (phys_u64 root) (of_nat b) of None \<Rightarrow> False | Some (p, w, u, x) \<Rightarrow> write \<longrightarrow> w))"
proof (cases "len = 0")
  case False
  then have l: "0 < unat len" by (simp add: word_greater_zero_iff unat_gt_0)
  let ?p = "v AND NOT 0xFFF"
  have p: "unat ?p = unat v - unat v mod 4096" using and_not_mask [of v 12] by simp
  have dvd: "4096 dvd unat ?p" unfolding p by (rule dvd_minus_mod)
  have ok: "byte_ok m root write b \<longleftrightarrow>
      (case resolve m 4 (phys_u64 root) b of None \<Rightarrow> False | Some (p, w, u, x) \<Rightarrow> write \<longrightarrow> w)" for b
    using page_access_in_resolve [of m "phys_u64 root" b] by (simp add: byte_ok_def split: option.splits prod.splits)
  show ?thesis
  proof (cases "checked_add v len")
    case None
    then have "2 ^ 64 \<le> unat v + unat len" by (simp add: checked_add_None_iff)
    with None False show ?thesis by (simp add: range_accessible_in_def)
  next
    case (Some e)
    note e = checked_add_SomeD [OF Some, THEN conjunct2]
    then have "?p < e" using l p by (simp add: word_less_nat_alt)
    then have "range_accessible_in m root (VirtAddr v) len write \<longleftrightarrow>
        unat e \<le> 2 ^ 64 - 4096 \<and> (\<forall>b. unat ?p \<le> unat b \<and> unat b < unat e \<longrightarrow> byte_ok m root write b)"
      using False Some range_loop_exact [OF dvd] by (simp add: range_accessible_in_def)
    moreover have "(\<forall>b. unat ?p \<le> unat b \<and> unat b < unat e \<longrightarrow> byte_ok m root write b) \<longleftrightarrow>
        (\<forall>b. unat v \<le> unat b \<and> unat b < unat e \<longrightarrow> byte_ok m root write b)" (is "?L \<longleftrightarrow> ?R")
    proof
      assume R: ?R
      have "byte_ok m root write v" using R e l by simp
      then have "byte_ok m root write b" if "unat ?p \<le> unat b" "unat b \<le> unat v" for b
        using byte_ok_page [OF dvd, of b] byte_ok_page [OF dvd, of v] that p by simp
      with R show ?L by (meson nat_le_linear)
    qed (use p in auto)
    moreover have "?R \<longleftrightarrow> (\<forall>b \<in> {unat v ..< unat v + unat len}. byte_ok m root write (of_nat b))"
      using u64_bound [of e] unfolding e by (intro u64_range_all) simp
    ultimately show ?thesis using False by (simp add: e ok)
  qed
qed (simp add: range_accessible_in_def)

lemma unat_minus_one_u64: "unat (- 1 :: u64) = 2 ^ 64 - 1"
  by (simp add: unsigned_minus_1_eq_mask mask_eq_exp_minus_1)

theorem range_accessible_in_exact_witness:
  "let m = (\<lambda>f i. if f = 0x1000 then 0x2003 else if f = 0x2000 then 0x81 else 0) in
     range_accessible_in m (PhysAddr 0x1000) (VirtAddr 0x5010) 0x3000 False \<and>
     \<not> range_accessible_in m (PhysAddr 0x1000) (VirtAddr 0x5010) 0x3000 True \<and>
     \<not> range_accessible_in m (PhysAddr 0x1000) (VirtAddr (- 1)) 1 False"
proof -
  let ?m = "\<lambda>f i. if f = 0x1000 then 0x2003 else if f = 0x2000 then 0x81 else (0 :: u64)"
  have r: "resolve ?m 4 0x1000 v = Some (leaf_addr 3 0x81 v, False, False, False)" for v
    by (simp add: resolve_4 is_present_def pte_flag_defs under_def)
  show ?thesis
    unfolding Let_def range_accessible_in_exact phys_addr.sel r by (simp add: unat_minus_one_u64) (rule exI [of _ 20496], simp)
qed

end
