(* ===== verification/Spec2Isabelle.thy ===== *)
theory Spec2Isabelle
  imports Pipe Fd_Table Process_Table Frame_Allocator Ipc Cpu_Queues Initramfs Syscalls Slab_Heap Paging
begin

text \<open>
  A verification of the NexaCore OS microkernel and of the capability system it relies on. Paths
  below are relative to \<open>src/crates/\<close>; \<open>kernel\<close> is \<open>nexacore-kernel/src\<close>, \<open>capability\<close> is
  \<open>nexacore-capability/src\<close>.

  \<^bold>\<open>The program.\<close> The kernel keeps a physical frame allocator, page tables, a heap, a
  scheduler with per-CPU run queues, a process table, and per-process descriptors over pipes, a
  console and an in-memory file system that the boot archive fills. System-call handlers compose
  these. Tasks exchange messages over channels whose creation needs capability tokens, which are
  signed, attenuable and revocable.

  \<^bold>\<open>Conventions.\<close> Fixed-width integers are words and wrap where the Rust
  operation wraps; the workspace builds with overflow checks, so a plain \<open>+\<close> or \<open>-\<close> that can
  overflow is a panic (\<open>duration_secs\<close>), and elsewhere the invariants exclude the overflow; \<open>checked_add\<close>, \<open>saturating_add\<close> and the like are the definitions of
  \<open>Kernel_Prelude\<close>. \<open>usize\<close> is \<open>nat\<close> where only lengths matter and a 64-bit word in the heap.
  \<open>BTreeMap\<close> is \<open>fmap\<close>, \<open>Vec\<close> and \<open>VecDeque\<close> are lists, a \<open>struct\<close> is a record and an \<open>enum\<close>
  a datatype with the source's variants. \<open>Result\<close> is a sum with the error on the left, \<open>Option\<close>
  is \<open>option\<close>, a method on \<open>&mut self\<close> returns its result with the new state, and a panic is
  \<open>None\<close>. A \<open>static\<close> behind a lock is the state the operation takes and returns: each
  operation is one critical section. Runs are lists of operations folded over a state, and the
  locale \<open>op_system\<close> lifts an invariant of one operation to every run; each component interprets
  it on its own step function.

  \<^bold>\<open>The theories.\<close>
  \<^item> \<open>Kernel_Prelude\<close>: integers, the error type, ordered maps, identifiers, \<open>op_system\<close>.
  \<^item> \<open>Pipe\<close> (\<open>kernel/pipe.rs\<close>): rings and the registry. Bytes read are a prefix of bytes
    written, the rest is in the ring; what read and write return; closing is permanent; identifiers
    are not reused.
  \<^item> \<open>Fd_Table\<close> (\<open>kernel/fd.rs\<close>): open, close, dup, dup2, the child's copy. Numbers are least
    free and, without dup2, never issued twice; a run with dup2 that issues one twice.
  \<^item> \<open>Process_Table\<close> (\<open>kernel/process_table.rs\<close>): register, exit, reap. A child is reaped at
    most once, by its own parent, with the code it left.
  \<^item> \<open>Frame_Allocator\<close> (\<open>kernel/memory.rs\<close>): the bitmap allocator. The word scan is first fit,
    the free counter is exact, live frames are distinct; two range computations that go wrong.
  \<^item> \<open>Slab_Heap\<close> (\<open>kernel/bare_metal/heap.rs\<close>): the global allocator with its free lists
    threaded through memory, the bump allocator and the choice of the arena. The invariant \<open>rep\<close>
    ties the lists in memory to lists of addresses and keeps every extent, live or free,
    disjoint; the walk of the large list is a \<open>partial_function\<close> and is shown to return.
  \<^item> \<open>Paging\<close> (\<open>kernel/bare_metal/paging.rs\<close>): the page tables in physical memory. Read as
    a map from addresses to physical addresses with rights, mapping sets one page and leaves the
    others, also when it splits huge pages, but for the user bit a user mapping sets in the tables
    above it, which opens only pages whose own entry has that bit; the tables stay a tree of frames apart from the free ones; the
    check of user ranges is exact; unmapping inside a huge page overwrites its data.
  \<^item> \<open>Capability_Scope\<close> (\<open>capability/scope.rs\<close>, \<open>attenuation.rs\<close>, \<open>ttl.rs\<close>): the
    subset test is exact for a semantics of resources as sets of accesses; caveats narrow a
    scope and its window to exactly what they allow; the validity window.
  \<^item> \<open>Capability_Token\<close> (\<open>capability/token.rs\<close>, \<open>revocation.rs\<close>, \<open>crl.rs\<close>,
    \<open>enforcement.rs\<close>): minting, attenuation, verification, chains, the Bloom filter and revocation
    lists, and an enforcement check that panics on a decoded token with an inverted window.
    Signatures, BLAKE3 and the encoder are parameters; \<open>demo_crypto\<close> is the concrete
    instance of the witnesses.
  \<^item> \<open>Kernel_Capability\<close> (\<open>kernel/capabilities.rs\<close>): the provider the kernel checks tokens with.
  \<^item> \<open>Ipc\<close> (\<open>kernel/ipc.rs\<close>): channels, back-pressure, waiters, creation with tokens. A history
    of accepted and delivered messages is carried along runs: messages leave in the order
    they were accepted, with the identity of their sender. A token presented at creation gates its
    direction; a direction without a token is open. Errors change nothing, but for a creation at
    the last identifier.
  \<^item> \<open>Scheduler\<close> (\<open>kernel/scheduling.rs\<close>, \<open>thermal.rs\<close>, \<open>process.rs\<close>) and \<open>Cpu_Queues\<close>
    (\<open>kernel/bare_metal/per_cpu_run_queue.rs\<close>): the pick policy, a bound on waiting, stack slots,
    stealing without loss.
  \<^item> \<open>Vfs\<close> (\<open>kernel/vfs.rs\<close>): path normalisation and the inode table, refined to a partial map
    from paths to nodes, errors included; normalisation by the law of each component. \<open>Initramfs\<close> (\<open>kernel/initramfs.rs\<close>): the archive
    format and its loading. \<open>Console_Input\<close> (\<open>kernel/console_input.rs\<close>).
  \<^item> \<open>Syscalls\<close> (\<open>kernel/syscall_handlers.rs\<close>): the handlers over the kernel state that joins
    descriptors, pipes, console, files and processes, with the invariant of the whole state, the
    read-back of what was written, and runs in which the handlers do what their comments deny.

  \<^bold>\<open>Bounds.\<close> No model uses fuel: loops are structural recursion, \<open>function\<close>
  with a measure, or a \<open>partial_function\<close> whose result is shown to exist. Statements that need
  a counter not to wrap say so as a hypothesis (fewer than \<open>2 ^ 64 - 1\<close> pipes; the arena
  ends a page below the top of the address space; frame addresses do not wrap).

  \<^bold>\<open>Not modelled.\<close> Entry code, context switches and device access, which are
  assembly or register effects; memory orderings and interleavings inside one operation (the
  source documents that the heap and the scheduler run on one CPU with interrupts masked); the
  \<open>Debug\<close> and \<open>Display\<close> output; the IOMMU, the driver loader, swap and power management; and
  the user-space crates (file-system, network, display, AI runtime, drivers, shell,
  applications), which talk to the kernel through the system calls modelled here and have not
  been reached.
\<close>

end
